(* ===== verification/Prelude.thy ===== *)
theory Prelude
  imports Main "HOL-Library.Word" "HOL-Library.List_Lexorder"
begin

unbundle bit_operations_syntax

text \<open>
  The prelude of the development: the machine types of the Rust sources, the type of
  results of a Rust call (a value, an error, or a panic), slices, and the generic facts on
  lists and words that the component theories share.
\<close>

section \<open>Machine types\<close>

type_synonym u8 = "8 word"
type_synonym u16 = "16 word"
type_synonym u32 = "32 word"
type_synonym u64 = "64 word"

text \<open>An \<open>i64\<close> or \<open>i32\<close> is the word whose two's complement value is read with \<open>sint\<close>.\<close>

type_synonym i64 = "64 word"
type_synonym i32 = "32 word"

type_synonym bytes = "u8 list"

text \<open>The bytes of an ASCII string.\<close>

definition ascii :: "string \<Rightarrow> bytes" where
  "ascii s = map of_char s"

text \<open>
  A \<open>usize\<close> that counts or indexes the elements of a slice, and so never reaches
  \<open>isize::MAX\<close>, is a \<open>nat\<close>. An instant of \<open>chrono::DateTime<UTC>\<close> and a
  \<open>chrono::Duration\<close> are a number of nanoseconds.
\<close>

type_synonym time = int
type_synonym duration = int

definition minutes :: "int \<Rightarrow> duration" where
  "minutes m = m * 60 * 1000000000"

definition hours :: "int \<Rightarrow> duration" where
  "hours h = h * 3600 * 1000000000"

text \<open>\<open>Duration::num_minutes\<close> drops the fraction, rounding towards zero.\<close>

definition num_minutes :: "duration \<Rightarrow> int" where
  "num_minutes d = sgn d * (\<bar>d\<bar> div (60 * 1000000000))"

text \<open>Division of signed integers truncates as well.\<close>

definition trunc_div :: "int \<Rightarrow> int \<Rightarrow> int" where
  "trunc_div a b = sgn a * sgn b * (\<bar>a\<bar> div \<bar>b\<bar>)"

section \<open>Named collections of facts\<close>

named_theorems res_simps \<open>how the outcome of a call is taken apart\<close>
named_theorems wire_simps \<open>byte-level encodings and their inverses\<close>
named_theorems inv_intros \<open>operations that keep an invariant\<close>

section \<open>The outcome of a Rust call\<close>

text \<open>
  \<open>Ok\<close> and \<open>Err\<close> are the two sides of a \<open>Result\<close>; \<open>Panic\<close> is a call that never
  returns: an out of range slice, an \<open>unwrap\<close> of \<open>None\<close>, an explicit \<open>panic!\<close>.
\<close>

datatype ('a, 'e) res = Ok 'a | Err 'e | Panic

text \<open>The \<open>try!\<close> macro: go on with the value, hand the error (or the panic) to the caller.\<close>

fun try_res :: "('a, 'e) res \<Rightarrow> ('a \<Rightarrow> ('b, 'e) res) \<Rightarrow> ('b, 'e) res" where
  "try_res (Ok a) k = k a"
| "try_res (Err e) k = Err e"
| "try_res Panic k = Panic"

lemma try_res_cong [fundef_cong]:
  "r = r' \<Longrightarrow> (\<And>a. r' = Ok a \<Longrightarrow> k a = k' a) \<Longrightarrow> try_res r k = try_res r' k'"
  by (cases r') auto

lemma try_res_eq_Ok [res_simps]:
  "try_res r k = Ok b \<longleftrightarrow> (\<exists>a. r = Ok a \<and> k a = Ok b)"
  by (cases r) auto

lemma try_res_eq_Panic [res_simps]:
  "try_res r k = Panic \<longleftrightarrow> r = Panic \<or> (\<exists>a. r = Ok a \<and> k a = Panic)"
  by (cases r) auto

lemma try_res_eq_Err [res_simps]:
  "try_res r k = Err e \<longleftrightarrow> r = Err e \<or> (\<exists>a. r = Ok a \<and> k a = Err e)"
  by (cases r) auto

fun map_err :: "('e \<Rightarrow> 'f) \<Rightarrow> ('a, 'e) res \<Rightarrow> ('a, 'f) res" where
  "map_err f (Ok a) = Ok a"
| "map_err f (Err e) = Err (f e)"
| "map_err f Panic = Panic"

text \<open>\<open>Result::unwrap\<close>.\<close>

fun unwrap_res :: "('a, 'e) res \<Rightarrow> ('a, 'f) res" where
  "unwrap_res (Ok a) = Ok a"
| "unwrap_res (Err e) = Panic"
| "unwrap_res Panic = Panic"

text \<open>\<open>Result::ok\<close> of a call that does not panic.\<close>

fun res_ok :: "('a, 'e) res \<Rightarrow> 'a option" where
  "res_ok (Ok a) = Some a"
| "res_ok _ = None"

text \<open>\<open>Option::ok_or\<close>, and \<open>unwrap\<close> of an option.\<close>

definition ok_or :: "'a option \<Rightarrow> 'e \<Rightarrow> ('a, 'e) res" where
  "ok_or x e = (case x of Some a \<Rightarrow> Ok a | None \<Rightarrow> Err e)"

definition unwrap :: "'a option \<Rightarrow> ('a, 'e) res" where
  "unwrap x = (case x of Some a \<Rightarrow> Ok a | None \<Rightarrow> Panic)"

lemma ok_or_simps [simp]: "ok_or (Some a) e = Ok a" "ok_or None e = Err e"
  by (simp_all add: ok_or_def)

lemma unwrap_simps [simp]: "unwrap (Some a) = Ok a" "unwrap None = Panic"
  by (simp_all add: unwrap_def)

lemma ok_or_res [res_simps]:
  "ok_or x e = Ok a \<longleftrightarrow> x = Some a"
  "ok_or x e = Err e' \<longleftrightarrow> x = None \<and> e' = e"
  "ok_or x e \<noteq> Panic"
  by (auto simp: ok_or_def split: option.splits)

section \<open>Slices\<close>

text \<open>The elements of \<open>xs[a..b]\<close>, and the checked access that panics when out of range.\<close>

definition sub_list :: "'a list \<Rightarrow> nat \<Rightarrow> nat \<Rightarrow> 'a list" where
  "sub_list xs a b = take (b - a) (drop a xs)"

definition slice :: "'a list \<Rightarrow> nat \<Rightarrow> nat \<Rightarrow> ('a list, 'e) res" where
  "slice xs a b = (if a \<le> b \<and> b \<le> length xs then Ok (sub_list xs a b) else Panic)"

text \<open>\<open>xs.get(i)\<close>.\<close>

definition get_at :: "'a list \<Rightarrow> nat \<Rightarrow> 'a option" where
  "get_at xs i = (if i < length xs then Some (xs ! i) else None)"

lemma get_at_eq_Some [simp]: "get_at xs i = Some x \<longleftrightarrow> i < length xs \<and> xs ! i = x"
  by (auto simp: get_at_def)

lemma get_at_eq_None [simp]: "get_at xs i = None \<longleftrightarrow> length xs \<le> i"
  by (auto simp: get_at_def)

lemma slice_Ok [res_simps]:
  "slice xs a b = Ok ys \<longleftrightarrow> a \<le> b \<and> b \<le> length xs \<and> ys = sub_list xs a b"
  by (auto simp: slice_def)

lemma slice_Panic [res_simps]:
  "slice xs a b = Panic \<longleftrightarrow> \<not> (a \<le> b \<and> b \<le> length xs)"
  by (auto simp: slice_def)

lemma slice_not_Err [simp]: "slice xs a b \<noteq> Err e"
  by (simp add: slice_def)

lemma length_sub_list [simp]: "b \<le> length xs \<Longrightarrow> length (sub_list xs a b) = b - a"
  by (simp add: sub_list_def)

lemma sub_list_all [simp]: "sub_list xs 0 (length xs) = xs"
  by (simp add: sub_list_def)

lemma sub_list_empty [simp]: "sub_list xs a a = []"
  by (simp add: sub_list_def)

lemma sub_list_append:
  "a \<le> b \<Longrightarrow> b \<le> c \<Longrightarrow> sub_list xs a b @ sub_list xs b c = sub_list xs a c"
proof -
  assume "a \<le> b" and "b \<le> c"
  then have "c - a = (b - a) + (c - b)" and "drop (b - a) (drop a xs) = drop b xs"
    by simp_all
  then show ?thesis
    by (simp only: sub_list_def take_add)
qed

lemma sub_list_Cons:
  "a < b \<Longrightarrow> a < length xs \<Longrightarrow> sub_list xs a b = xs ! a # sub_list xs (Suc a) b"
  by (simp add: sub_list_def take_Suc_conv_app_nth Cons_nth_drop_Suc [symmetric] take_Cons')

lemma sub_list_single: "a < length xs \<Longrightarrow> sub_list xs a (Suc a) = [xs ! a]"
  by (simp add: sub_list_Cons)

lemma nth_sub_list: "i < b - a \<Longrightarrow> b \<le> length xs \<Longrightarrow> sub_list xs a b ! i = xs ! (a + i)"
  by (simp add: sub_list_def)

lemma sub_list_append_left [simp]:
  "sub_list (xs @ ys) 0 (length xs) = xs"
  by (simp add: sub_list_def)

lemma set_sub_list: "set (sub_list xs a b) \<subseteq> set xs"
  by (auto simp: sub_list_def dest: in_set_takeD in_set_dropD)

section \<open>Searching a list\<close>

text \<open>\<open>Iterator::position\<close>: the index of the first element that satisfies the predicate.\<close>

fun position :: "('a \<Rightarrow> bool) \<Rightarrow> 'a list \<Rightarrow> nat option" where
  "position p [] = None"
| "position p (x # xs) = (if p x then Some 0 else map_option Suc (position p xs))"

lemma position_None: "position p xs = None \<longleftrightarrow> (\<forall>x \<in> set xs. \<not> p x)"
  by (induction xs) auto

lemma position_Some:
  "position p xs = Some i \<longleftrightarrow> i < length xs \<and> p (xs ! i) \<and> (\<forall>j < i. \<not> p (xs ! j))"
proof (induction xs arbitrary: i)
  case Nil
  then show ?case by simp
next
  case (Cons x xs)
  show ?case
  proof (cases i)
    case 0
    then show ?thesis by auto
  next
    case (Suc k)
    then show ?thesis using Cons.IH [of k]
      by (auto simp: nth_Cons split: nat.splits)
  qed
qed

lemma position_append:
  "\<forall>x \<in> set xs. \<not> p x \<Longrightarrow> p y \<Longrightarrow> position p (xs @ y # ys) = Some (length xs)"
  by (induction xs) auto

text \<open>\<open>Iterator::find\<close> is the library's \<open>find\<close>.\<close>

section \<open>Facts on lists\<close>

lemma take_Suc_nth: "i < length xs \<Longrightarrow> take (Suc i) xs = take i xs @ [xs ! i]"
  by (simp add: take_Suc_conv_app_nth)

lemma set_update_subset: "x \<in> set (xs[i := y]) \<Longrightarrow> x = y \<or> x \<in> set xs"
  using set_update_subset_insert by fastforce

lemma concat_length: "length (concat xss) = sum_list (map length xss)"
  by (simp add: length_concat)

text \<open>A loop that assigns each of the first \<open>n\<close> elements of an array.\<close>

lemma fold_update_map:
  "n \<le> length xs \<Longrightarrow> fold (\<lambda>i xs. xs[i := f i]) [0..<n] xs = map f [0..<n] @ drop n xs"
proof (induction n)
  case (Suc n)
  then have "drop n xs = xs ! n # drop (Suc n) xs" by (simp add: Cons_nth_drop_Suc)
  with Suc show ?case by (simp add: list_update_append)
qed simp

section \<open>Words and their bytes\<close>

text \<open>\<open>(w >> n) as u8\<close>.\<close>

definition byte_shift :: "nat \<Rightarrow> 'a::len word \<Rightarrow> u8" where
  "byte_shift n w = ucast (drop_bit n w)"

lemma bit_byte_shift [wire_simps]: "bit (byte_shift n w) i \<longleftrightarrow> i < 8 \<and> bit w (n + i)"
  by (auto simp: byte_shift_def bit_simps dest: bit_imp_le_length)

lemma unat_less: "unat w < 2 ^ LENGTH('a)" for w :: "'a::len word"
  by (rule unsigned_less)

lemma unat_byte_shift: "unat (byte_shift n w) = unat w div 2 ^ n mod 256"
  unfolding byte_shift_def unsigned_ucast_eq unat_drop_bit_eq
  by (simp add: drop_bit_eq_div take_bit_eq_mod)

text \<open>The number a big endian list of bytes denotes.\<close>

definition be_val :: "bytes \<Rightarrow> nat" where
  "be_val bs = foldl (\<lambda>acc b. acc * 256 + unat b) 0 bs"

lemma be_val_snoc: "be_val (bs @ [b]) = be_val bs * 256 + unat b"
  by (simp add: be_val_def)

lemma be_val_byte_shift:
  "be_val (map (\<lambda>i. byte_shift (8 * i) w) (rev [k..<k + n])) = unat w div 256 ^ k mod 256 ^ n"
proof (induction n arbitrary: k)
  case 0
  then show ?case by (simp add: be_val_def)
next
  case (Suc n)
  have "[k..<k + Suc n] = k # [Suc k..<Suc k + n]" by (simp add: upt_conv_Cons del: upt_Suc)
  then have "be_val (map (\<lambda>i. byte_shift (8 * i) w) (rev [k..<k + Suc n])) =
      (unat w div 256 ^ Suc k mod 256 ^ n) * 256 + unat w div 256 ^ k mod 256"
    using Suc.IH [of "Suc k"] by (simp add: be_val_snoc unat_byte_shift power_mult del: upt_Suc)
  also have "\<dots> = unat w div 256 ^ k mod 256 ^ Suc n"
    using mod_mult2_eq [of "unat w div 256 ^ k" 256 "256 ^ n"] div_mult2_eq [of "unat w" "256 ^ k" 256]
    by (simp add: mult.commute)
  finally show ?case .
qed

lemma be_val_less: "be_val bs < 256 ^ length bs"
proof (induction bs rule: rev_induct)
  case Nil
  then show ?case by (simp add: be_val_def)
next
  case (snoc b bs)
  have "unat b < 256" using unat_less [of b] by simp
  with snoc show ?case by (simp add: be_val_snoc)
qed

lemma be_val_inj: "length xs = length ys \<Longrightarrow> be_val xs = be_val ys \<Longrightarrow> xs = ys"
proof (induction xs arbitrary: ys rule: rev_induct)
  case (snoc x xs)
  then obtain y zs where ys: "ys = zs @ [y]" by (cases ys rule: rev_cases) auto
  have "unat x < 256" "unat y < 256" using unat_less [of x] unat_less [of y] by simp_all
  moreover have eq: "be_val xs * 256 + unat x = be_val zs * 256 + unat y" using snoc.prems ys by (simp add: be_val_snoc)
  ultimately have "be_val xs = be_val zs"
    using arg_cong [OF eq, of "\<lambda>n. n div 256"] by simp
  with eq have "be_val xs = be_val zs" "unat x = unat y" by simp_all
  with snoc ys show ?case by (simp add: word_unat_eq_iff)
qed simp

text \<open>The loop that reads a big endian integer.\<close>

definition be_word :: "bytes \<Rightarrow> 'a::len word" where
  "be_word bs = foldl (\<lambda>acc b. push_bit 8 acc OR ucast b) 0 bs"

lemma shift_or_byte: "push_bit 8 w OR ucast b = w * 256 + of_nat (unat (b :: u8))" for w :: "'a::len word"
proof -
  have "push_bit 8 w OR ucast b = push_bit 8 w + ucast b"
    by (rule disjunctive_add [symmetric]) (auto simp: bit_simps dest: bit_imp_le_length)
  then show ?thesis by (simp add: push_bit_eq_mult)
qed

lemma be_word_val: "be_word bs = of_nat (be_val bs)"
proof (induction bs rule: rev_induct)
  case Nil
  then show ?case by (simp add: be_word_def be_val_def)
next
  case (snoc b bs)
  then show ?case unfolding be_word_def by (simp add: shift_or_byte be_val_snoc mult.commute)
qed

lemma unat_be_word: "length bs * 8 \<le> LENGTH('a) \<Longrightarrow> unat (be_word bs :: 'a::len word) = be_val bs"
proof -
  assume "length bs * 8 \<le> LENGTH('a)"
  have "be_val bs < 2 ^ (8 * length bs)" using be_val_less [of bs] by (simp add: power_mult)
  also have "\<dots> \<le> 2 ^ LENGTH('a)" using \<open>_ \<le> LENGTH('a)\<close> by (intro power_increasing) simp_all
  finally show ?thesis by (simp add: be_word_val unat_of_nat take_bit_nat_eq_self)
qed

end
