(* ===== verification/Rust_Std.thy ===== *)
theory Rust_Std
  imports Prelude
begin

text \<open>
  The parts of the Rust standard library that the sources use and that have a behaviour of
  their own: decimal printing (\<open>to_string\<close>) and parsing (\<open>i64::from_str_radix\<close>), the
  check of \<open>str::from_utf8\<close>, and \<open>BTreeMap\<close> as the sorted list of its entries.
\<close>

section \<open>Decimal numbers\<close>

definition digit_char :: "nat \<Rightarrow> u8" where
  "digit_char d = of_nat (48 + d)"

definition to_digit :: "u8 \<Rightarrow> nat option" where
  "to_digit c = (if 48 \<le> c \<and> c \<le> 57 then Some (unat c - 48) else None)"

fun to_dec :: "nat \<Rightarrow> bytes" where
  "to_dec n = (if n < 10 then [digit_char n] else to_dec (n div 10) @ [digit_char (n mod 10)])"

declare to_dec.simps [simp del]

definition i64_to_string :: "i64 \<Rightarrow> bytes" where
  "i64_to_string w =
     (if sint w < 0 then 45 # to_dec (nat (- sint w)) else to_dec (nat (sint w)))"

definition i64_range :: "int \<Rightarrow> bool" where
  "i64_range n \<longleftrightarrow> - (2 ^ 63) \<le> n \<and> n < 2 ^ 63"

text \<open>The loops of \<open>from_str_radix\<close>, with \<open>checked_mul\<close>, \<open>checked_add\<close> and \<open>checked_sub\<close>.\<close>

fun parse_pos :: "int \<Rightarrow> bytes \<Rightarrow> int option" where
  "parse_pos acc [] = Some acc"
| "parse_pos acc (c # cs) =
     (case to_digit c of
        None \<Rightarrow> None
      | Some x \<Rightarrow>
          if \<not> i64_range (acc * 10) then None
          else if \<not> i64_range (acc * 10 + int x) then None
          else parse_pos (acc * 10 + int x) cs)"

fun parse_neg :: "int \<Rightarrow> bytes \<Rightarrow> int option" where
  "parse_neg acc [] = Some acc"
| "parse_neg acc (c # cs) =
     (case to_digit c of
        None \<Rightarrow> None
      | Some x \<Rightarrow>
          if \<not> i64_range (acc * 10) then None
          else if \<not> i64_range (acc * 10 - int x) then None
          else parse_neg (acc * 10 - int x) cs)"

definition i64_from_str_radix :: "bytes \<Rightarrow> i64 option" where
  "i64_from_str_radix src =
     (case src of
        [] \<Rightarrow> None
      | c # cs \<Rightarrow>
          if c = 43 then (if cs = [] then None else map_option word_of_int (parse_pos 0 cs))
          else if c = 45 then (if cs = [] then None else map_option word_of_int (parse_neg 0 cs))
          else map_option word_of_int (parse_pos 0 src))"

text \<open>The value a list of digits denotes, against which the loops are measured.\<close>

fun dec_val :: "int \<Rightarrow> bytes \<Rightarrow> int" where
  "dec_val acc [] = acc"
| "dec_val acc (c # cs) = dec_val (acc * 10 + int (unat c - 48)) cs"

definition is_digit :: "u8 \<Rightarrow> bool" where
  "is_digit c \<longleftrightarrow> 48 \<le> c \<and> c \<le> 57"

lemma to_digit_eq: "to_digit c = (if is_digit c then Some (unat c - 48) else None)"
  by (simp add: to_digit_def is_digit_def)

lemma unat_digit_char: "d < 10 \<Longrightarrow> unat (digit_char d) = 48 + d"
  by (simp add: digit_char_def unat_of_nat take_bit_eq_mod del: of_nat_add)

lemma is_digit_unat: "is_digit c \<longleftrightarrow> 48 \<le> unat c \<and> unat c \<le> 57"
  by (simp add: is_digit_def word_le_nat_alt)

lemma is_digit_digit_char: "d < 10 \<Longrightarrow> is_digit (digit_char d)"
  by (simp add: is_digit_unat unat_digit_char)

lemma digit_char_unat: "is_digit c \<Longrightarrow> digit_char (unat c - 48) = c"
  by (simp add: is_digit_unat digit_char_def)

lemma dec_val_snoc: "dec_val acc (cs @ [c]) = dec_val acc cs * 10 + int (unat c - 48)"
  by (induction cs arbitrary: acc) auto

lemma dec_val_mono: "0 \<le> acc \<Longrightarrow> acc \<le> dec_val acc cs"
proof (induction cs arbitrary: acc)
  case (Cons c cs)
  have "acc \<le> acc * 10 + int (unat c - 48)" using Cons.prems by simp
  also have "\<dots> \<le> dec_val (acc * 10 + int (unat c - 48)) cs"
    using Cons.prems by (intro Cons.IH) simp
  finally show ?case by simp
qed simp

lemma dec_val_nonneg: "0 \<le> acc \<Longrightarrow> 0 \<le> dec_val acc cs"
  using dec_val_mono [of acc cs] by simp

lemma parse_pos_eq:
  "0 \<le> acc \<Longrightarrow> acc < 2 ^ 63 \<Longrightarrow>
   parse_pos acc cs =
     (if list_all is_digit cs \<and> dec_val acc cs < 2 ^ 63 then Some (dec_val acc cs) else None)"
proof (induction cs arbitrary: acc)
  case (Cons c cs)
  show ?case
  proof (cases "is_digit c")
    case True
    let ?v = "acc * 10 + int (unat c - 48)"
    have le: "?v \<le> dec_val ?v cs" using Cons.prems by (intro dec_val_mono) simp
    show ?thesis
    proof (cases "?v < 2 ^ 63")
      case small: True
      then have "i64_range (acc * 10)" and "i64_range ?v"
        using Cons.prems by (simp_all add: i64_range_def)
      then show ?thesis
        using True small Cons.IH [of ?v] Cons.prems by (simp add: to_digit_eq)
    next
      case False
      then have "\<not> i64_range ?v" by (simp add: i64_range_def)
      then show ?thesis
        unfolding parse_pos.simps to_digit_eq using True le False by auto
    qed
  next
    case False
    then show ?thesis by (simp add: to_digit_eq)
  qed
qed simp

lemma parse_neg_eq:
  "0 \<le> acc \<Longrightarrow> acc \<le> 2 ^ 63 \<Longrightarrow>
   parse_neg (- acc) cs =
     (if list_all is_digit cs \<and> dec_val acc cs \<le> 2 ^ 63 then Some (- dec_val acc cs) else None)"
proof (induction cs arbitrary: acc)
  case (Cons c cs)
  show ?case
  proof (cases "is_digit c")
    case True
    let ?v = "acc * 10 + int (unat c - 48)"
    have le: "?v \<le> dec_val ?v cs" using Cons.prems by (intro dec_val_mono) simp
    have eq: "- acc * 10 - int (unat c - 48) = - ?v" by simp
    show ?thesis
    proof (cases "?v \<le> 2 ^ 63")
      case small: True
      then have "i64_range (- acc * 10)" and "i64_range (- ?v)"
        using Cons.prems by (simp_all add: i64_range_def)
      then have "parse_neg (- acc) (c # cs) = parse_neg (- ?v) cs"
        unfolding parse_neg.simps to_digit_eq eq using True by simp
      also have "\<dots> = (if list_all is_digit cs \<and> dec_val ?v cs \<le> 2 ^ 63
          then Some (- dec_val ?v cs) else None)"
        using small Cons.prems by (intro Cons.IH) auto
      finally show ?thesis using True by simp
    next
      case False
      then have "\<not> i64_range (- ?v)" by (simp add: i64_range_def)
      then show ?thesis
        unfolding parse_neg.simps to_digit_eq eq using True le False by auto
    qed
  next
    case False
    then show ?thesis by (simp add: to_digit_eq)
  qed
qed simp

lemma to_dec_not_Nil [simp]: "to_dec n \<noteq> []"
  by (subst to_dec.simps) simp

lemma to_dec_digits: "list_all is_digit (to_dec n)"
proof (induction n rule: to_dec.induct)
  case (1 n)
  then show ?case
    by (subst to_dec.simps) (simp add: is_digit_digit_char)
qed

lemma dec_val_to_dec: "dec_val 0 (to_dec n) = int n"
proof (induction n rule: to_dec.induct)
  case (1 n)
  then show ?case
    by (subst to_dec.simps) (auto simp: dec_val_snoc unat_digit_char zdiv_int zmod_int)
qed

lemma hd_to_dec: "0 < n \<Longrightarrow> hd (to_dec n) \<noteq> 48"
proof (induction n rule: to_dec.induct)
  case (1 n)
  show ?case
  proof (cases "n < 10")
    case True
    with "1.prems" have "unat (digit_char n) \<noteq> unat (48 :: u8)" by (simp add: unat_digit_char)
    with True show ?thesis by (subst to_dec.simps) auto
  next
    case False
    with "1.IH" show ?thesis by (subst to_dec.simps) simp
  qed
qed

lemma to_dec_0 [simp]: "to_dec 0 = [48]"
  by (simp add: to_dec.simps digit_char_def)

text \<open>A numeral without a superfluous leading zero is what \<open>to_string\<close> prints.\<close>

lemma to_dec_dec_val:
  assumes "cs \<noteq> []" "list_all is_digit cs" "length cs > 1 \<Longrightarrow> hd cs \<noteq> 48"
  shows "to_dec (nat (dec_val 0 cs)) = cs"
  using assms
proof (induction cs rule: rev_induct)
  case (snoc c cs)
  then have c: "is_digit c" "unat c - 48 < 10" by (auto simp: is_digit_unat)
  show ?case
  proof (cases "cs = []")
    case True
    with c show ?thesis by (simp add: to_dec.simps digit_char_unat)
  next
    case False
    with snoc.prems have hd: "hd cs \<noteq> 48" by (cases cs) auto
    with snoc False have IH: "to_dec (nat (dec_val 0 cs)) = cs" by simp
    have pos: "0 < dec_val 0 cs"
    proof (rule ccontr)
      assume "\<not> 0 < dec_val 0 cs"
      then have "to_dec (nat (dec_val 0 cs)) = [48]" by simp
      with IH hd show False by auto
    qed
    let ?n = "nat (dec_val 0 cs * 10 + int (unat c - 48))"
    have n: "?n = nat (dec_val 0 cs) * 10 + (unat c - 48)"
      using pos by (simp add: nat_add_distrib nat_mult_distrib)
    moreover have "?n div 10 = nat (dec_val 0 cs)" "?n mod 10 = unat c - 48" "\<not> ?n < 10"
      using pos c unfolding n by auto
    ultimately show ?thesis
      using IH c by (subst to_dec.simps) (simp add: dec_val_snoc digit_char_unat)
  qed
qed simp

lemma to_dec_no_minus: "hd (to_dec n) \<noteq> 45" "hd (to_dec n) \<noteq> 43"
proof -
  have "is_digit (hd (to_dec n))"
    using to_dec_digits [of n] to_dec_not_Nil [of n] by (cases "to_dec n") auto
  then show "hd (to_dec n) \<noteq> 45" "hd (to_dec n) \<noteq> 43" by (auto simp: is_digit_unat)
qed

lemma sint_i64_range: "- (2 ^ 63) \<le> sint (w :: i64)" "sint (w :: i64) < 2 ^ 63"
  using sint_ge [of w] sint_lt [of w] by simp_all

lemma parse_i64_to_string: "i64_from_str_radix (i64_to_string w) = Some w"
proof (cases "sint w < 0")
  case True
  have "parse_neg (- 0) (to_dec (nat (- sint w))) = Some (sint w)"
    using True sint_i64_range [of w]
    by (subst parse_neg_eq) (auto simp: to_dec_digits dec_val_to_dec)
  with True show ?thesis by (simp add: i64_from_str_radix_def i64_to_string_def)
next
  case False
  have "parse_pos 0 (to_dec (nat (sint w))) = Some (sint w)"
    using False sint_i64_range [of w]
    by (subst parse_pos_eq) (auto simp: to_dec_digits dec_val_to_dec)
  with False show ?thesis
    using to_dec_no_minus [of "nat (sint w)"] to_dec_not_Nil [of "nat (sint w)"]
    by (cases "to_dec (nat (sint w))") (simp_all add: i64_from_str_radix_def i64_to_string_def)
qed

lemma parse_to_dec:
  "n < 2 ^ 63 \<Longrightarrow> i64_from_str_radix (to_dec n) = Some (of_nat n)"
proof -
  assume n: "n < 2 ^ 63"
  then have "parse_pos 0 (to_dec n) = Some (int n)"
    by (subst parse_pos_eq) (auto simp: to_dec_digits dec_val_to_dec)
  then show ?thesis
    using to_dec_no_minus [of n] to_dec_not_Nil [of n]
    by (cases "to_dec n") (simp_all add: i64_from_str_radix_def)
qed

lemma sint_of_int_i64: "- (2 ^ 63) \<le> n \<Longrightarrow> n < 2 ^ 63 \<Longrightarrow> sint (word_of_int n :: i64) = n"
  by (simp add: sint_sbintrunc' signed_take_bit_int_eq_self)

lemma unat_i64_nonneg: "0 \<le> sint (n :: i64) \<Longrightarrow> unat n = nat (sint n)"
proof -
  assume "0 \<le> sint n"
  then have "uint (word_of_int (sint n) :: i64) = sint n"
    using sint_i64_range(2) [of n] by (simp only: unsigned_of_int) (simp add: take_bit_int_eq_self)
  then have "uint n = sint n" by simp
  then show ?thesis by (metis nat_uint_eq)
qed

text \<open>A numeral without a plus sign and without padding is the one \<open>to_string\<close> prints.\<close>

lemma i64_canonical:
  assumes parse: "i64_from_str_radix s = Some n" and plus: "43 \<notin> set s"
    and pad: "length s > 1 \<Longrightarrow> s ! 0 \<noteq> 48" and neg: "length s > 1 \<Longrightarrow> s ! 0 = 45 \<Longrightarrow> s ! 1 \<noteq> 48"
  shows "s = i64_to_string n"
proof (cases s)
  case Nil
  with parse show ?thesis by (simp add: i64_from_str_radix_def)
next
  case (Cons c cs)
  show ?thesis
  proof (cases "c = 45")
    case True
    with Cons parse have cs: "cs \<noteq> []" and p: "map_option word_of_int (parse_neg (- 0) cs) = Some n"
      by (auto simp: i64_from_str_radix_def split: if_splits)
    from p have d: "list_all is_digit cs" "dec_val 0 cs \<le> 2 ^ 63" "n = word_of_int (- dec_val 0 cs)"
      by (subst (asm) parse_neg_eq, auto split: if_splits)+
    have hd: "hd cs \<noteq> 48" using neg Cons True cs by (cases cs) auto
    then have eq: "to_dec (nat (dec_val 0 cs)) = cs" using cs d by (intro to_dec_dec_val) auto
    have "dec_val 0 cs \<noteq> 0"
      using eq hd by (metis list.sel(1) nat_zero_as_int of_nat_0 to_dec_0 nat_int)
    then have "0 < dec_val 0 cs" using dec_val_nonneg [of 0 cs] by simp
    moreover have "sint n = - dec_val 0 cs"
      unfolding d(3) using d dec_val_nonneg [of 0 cs] by (intro sint_of_int_i64) simp_all
    ultimately show ?thesis using eq True Cons by (simp add: i64_to_string_def)
  next
    case False
    have "c \<noteq> 43" using plus Cons by auto
    with False Cons parse have p: "map_option word_of_int (parse_pos 0 s) = Some n"
      by (auto simp: i64_from_str_radix_def)
    then have d: "list_all is_digit s" "dec_val 0 s < 2 ^ 63" "n = word_of_int (dec_val 0 s)"
      by (subst (asm) parse_pos_eq, auto split: if_splits)+
    have "to_dec (nat (dec_val 0 s)) = s"
      using d pad Cons by (intro to_dec_dec_val) auto
    moreover have "sint n = dec_val 0 s" "0 \<le> dec_val 0 s"
      using d dec_val_nonneg [of 0 s] by (simp_all add: sint_of_int_i64)
    ultimately show ?thesis by (simp add: i64_to_string_def)
  qed
qed

section \<open>The UTF-8 check\<close>

definition in_range :: "nat \<Rightarrow> nat \<Rightarrow> u8 \<Rightarrow> bool" where
  "in_range lo hi b \<longleftrightarrow> lo \<le> unat b \<and> unat b \<le> hi"

text \<open>\<open>str::from_utf8\<close> succeeds: the table of well-formed UTF-8 byte sequences.\<close>

fun from_utf8 :: "bytes \<Rightarrow> bool" where
  "from_utf8 [] = True"
| "from_utf8 (a # bs) =
     (if in_range 0 127 a then from_utf8 bs
      else if in_range 194 223 a then
        (case bs of b # cs \<Rightarrow> in_range 128 191 b \<and> from_utf8 cs | _ \<Rightarrow> False)
      else if in_range 224 239 a then
        (case bs of
           b # c # ds \<Rightarrow>
             (if unat a = 224 then in_range 160 191 b
              else if unat a = 237 then in_range 128 159 b
              else in_range 128 191 b) \<and> in_range 128 191 c \<and> from_utf8 ds
         | _ \<Rightarrow> False)
      else if in_range 240 244 a then
        (case bs of
           b # c # d # es \<Rightarrow>
             (if unat a = 240 then in_range 144 191 b
              else if unat a = 244 then in_range 128 143 b
              else in_range 128 191 b) \<and> in_range 128 191 c \<and> in_range 128 191 d \<and> from_utf8 es
         | _ \<Rightarrow> False)
      else False)"

declare from_utf8.simps(2) [simp del]

lemma from_utf8_ascii: "list_all (\<lambda>b. unat b < 128) bs \<Longrightarrow> from_utf8 bs"
  by (induction bs) (auto simp: from_utf8.simps in_range_def)

lemma digits_ascii: "list_all is_digit cs \<Longrightarrow> list_all (\<lambda>b. unat b < 128) cs"
  by (induction cs) (auto simp: is_digit_unat)

lemma from_utf8_to_dec: "from_utf8 (to_dec n)"
  by (intro from_utf8_ascii digits_ascii to_dec_digits)

lemma from_utf8_i64_to_string: "from_utf8 (i64_to_string w)"
  by (intro from_utf8_ascii)
    (simp add: i64_to_string_def digits_ascii to_dec_digits)

section \<open>BTreeMap\<close>

text \<open>A map is the list of its entries in the order of iteration: keys strictly ascending.\<close>

type_synonym ('k, 'v) btree_map = "('k \<times> 'v) list"

definition btree_inv :: "('k::linorder, 'v) btree_map \<Rightarrow> bool" where
  "btree_inv m \<longleftrightarrow> sorted_wrt (<) (map fst m)"

definition btree_get :: "('k, 'v) btree_map \<Rightarrow> 'k \<Rightarrow> 'v option" where
  "btree_get m k = map_of m k"

fun btree_insert :: "'k::linorder \<Rightarrow> 'v \<Rightarrow> ('k, 'v) btree_map \<Rightarrow> ('k, 'v) btree_map" where
  "btree_insert k v [] = [(k, v)]"
| "btree_insert k v ((k', v') # m) =
     (if k < k' then (k, v) # (k', v') # m
      else if k = k' then (k', v) # m
      else (k', v') # btree_insert k v m)"

fun btree_remove :: "'k \<Rightarrow> ('k, 'v) btree_map \<Rightarrow> ('k, 'v) btree_map" where
  "btree_remove k [] = []"
| "btree_remove k ((k', v') # m) = (if k = k' then m else (k', v') # btree_remove k m)"

definition btree_last_key :: "('k, 'v) btree_map \<Rightarrow> 'k option" where
  "btree_last_key m = (if m = [] then None else Some (fst (last m)))"

lemma btree_inv_Nil [simp]: "btree_inv []"
  by (simp add: btree_inv_def)

lemma btree_inv_Cons [simp]:
  "btree_inv ((k, v) # m) \<longleftrightarrow> (\<forall>k' \<in> fst ` set m. k < k') \<and> btree_inv m"
  by (auto simp: btree_inv_def)

lemma fst_set_btree_insert [simp]:
  "fst ` set (btree_insert k v m) = insert k (fst ` set m)"
  by (induction k v m rule: btree_insert.induct) auto

lemma btree_inv_insert: "btree_inv m \<Longrightarrow> btree_inv (btree_insert k v m)"
  by (induction k v m rule: btree_insert.induct) (auto intro: order.strict_trans)

lemma fst_set_btree_remove: "fst ` set (btree_remove k m) \<subseteq> fst ` set m"
  by (induction k m rule: btree_remove.induct) auto

lemma btree_inv_remove: "btree_inv m \<Longrightarrow> btree_inv (btree_remove k m)"
proof (induction k m rule: btree_remove.induct)
  case (2 k k' v' m)
  then have "\<forall>x \<in> fst ` set m. k' < x" by simp
  then have "\<forall>x \<in> fst ` set (btree_remove k m). k' < x"
    using fst_set_btree_remove [of k m] by blast
  with 2 show ?case by simp
qed simp

lemma btree_get_insert: "btree_get (btree_insert k v m) = (btree_get m)(k \<mapsto> v)"
  by (induction k v m rule: btree_insert.induct) (auto simp: btree_get_def fun_eq_iff)

lemma btree_get_remove: "btree_inv m \<Longrightarrow> btree_get (btree_remove k m) = (btree_get m)(k := None)"
proof (induction m)
  case (Cons e m)
  obtain k' v' where e: "e = (k', v')" by (cases e)
  have "map_of m k' = None"
    using Cons.prems by (auto simp: e map_of_eq_None_iff)
  with Cons show ?case by (auto simp: e btree_get_def fun_eq_iff)
qed (simp add: btree_get_def fun_eq_iff)

lemma btree_get_None: "btree_get m k = None \<longleftrightarrow> k \<notin> fst ` set m"
  by (simp add: btree_get_def map_of_eq_None_iff)

text \<open>Inserting a key above all others appends the entry.\<close>

lemma btree_insert_above:
  "\<forall>k' \<in> fst ` set m. k' < k \<Longrightarrow> btree_insert k v m = m @ [(k, v)]"
  by (induction m) (auto dest: order.strict_trans)

lemma btree_last_key_greatest:
  "btree_inv m \<Longrightarrow> btree_last_key m = Some k \<Longrightarrow> k' \<in> fst ` set m \<Longrightarrow> k' \<le> k"
proof (induction m rule: rev_induct)
  case (snoc e m)
  then show ?case
    by (auto simp: btree_inv_def btree_last_key_def sorted_wrt_append order.order_iff_strict)
qed simp

lemma btree_inv_distinct: "btree_inv m \<Longrightarrow> distinct (map fst m)"
  by (simp add: btree_inv_def strict_sorted_iff)

lemma btree_sorted_id: "btree_inv m \<Longrightarrow> sort_key fst m = m"
proof -
  assume "btree_inv m"
  then have "sorted (map fst m)" by (simp add: btree_inv_def strict_sorted_iff)
  then show ?thesis by (induction m) (auto simp: insort_is_Cons)
qed

end
