(* ===== verification/Bencode.thy ===== *)
theory Bencode
  imports Rust_Std
begin

text \<open>
  The data of \<open>bip_bencode\<close>: the two bencode types (\<open>BencodeRef\<close>, which keeps the slice
  of the buffer each value was read from, and \<open>BencodeMut\<close>), the decode options, the error
  kinds, and the traits for reading them. The traits \<open>BDictAccess\<close> and \<open>BListAccess\<close> are
  the locales \<open>bdict_access\<close> and \<open>blist_access\<close>, interpreted on the two implementations
  the crate has (\<open>BTreeMap\<close> and \<open>Vec\<close>).
\<close>

section \<open>Constants, options and errors\<close>

definition BEN_END :: u8 where "BEN_END = 101"
definition DICT_START :: u8 where "DICT_START = 100"
definition LIST_START :: u8 where "LIST_START = 108"
definition INT_START :: u8 where "INT_START = 105"
definition BYTE_LEN_LOW :: u8 where "BYTE_LEN_LOW = 48"
definition BYTE_LEN_HIGH :: u8 where "BYTE_LEN_HIGH = 57"
definition BYTE_LEN_END :: u8 where "BYTE_LEN_END = 58"

lemmas ben_consts = BEN_END_def DICT_START_def LIST_START_def INT_START_def
  BYTE_LEN_LOW_def BYTE_LEN_HIGH_def BYTE_LEN_END_def

record BDecodeOpt =
  max_recursion :: nat
  check_key_sort :: bool
  enforce_full_decode :: bool

definition BDecodeOpt_new :: "nat \<Rightarrow> bool \<Rightarrow> bool \<Rightarrow> BDecodeOpt" where
  "BDecodeOpt_new m c e = \<lparr>max_recursion = m, check_key_sort = c, enforce_full_decode = e\<rparr>"

definition BDecodeOpt_default :: BDecodeOpt where
  "BDecodeOpt_default = BDecodeOpt_new 50 False True"

datatype BencodeParseErrorKind =
    BytesEmpty nat
  | InvalidByte nat
  | InvalidIntNoDelimiter nat
  | InvalidIntNegativeZero nat
  | InvalidIntZeroPadding nat
  | InvalidIntParseError nat
  | InvalidKeyOrdering nat bytes
  | InvalidKeyDuplicates nat bytes
  | InvalidLengthNegative nat
  | InvalidLengthOverflow nat
  | InvalidRecursionExceeded nat nat

datatype BencodeConvertErrorKind = MissingKey bytes | WrongType bytes string

section \<open>The two bencode types\<close>

datatype BencodeRef =
    RefInt i64 bytes
  | RefBytes bytes bytes
  | RefList "BencodeRef list" bytes
  | RefDict "(bytes \<times> BencodeRef) list" bytes

datatype BencodeMut =
    MutInt i64
  | MutBytes bytes
  | MutList "BencodeMut list"
  | MutDict "(bytes \<times> BencodeMut) list"

fun buffer :: "BencodeRef \<Rightarrow> bytes" where
  "buffer (RefInt _ b) = b"
| "buffer (RefBytes _ b) = b"
| "buffer (RefList _ b) = b"
| "buffer (RefDict _ b) = b"

definition new_int :: "i64 \<Rightarrow> BencodeMut" where "new_int n = MutInt n"
definition new_bytes :: "bytes \<Rightarrow> BencodeMut" where "new_bytes bs = MutBytes bs"
definition new_list :: BencodeMut where "new_list = MutList []"
definition new_dict :: BencodeMut where "new_dict = MutDict []"

section \<open>Reading a value: BRefAccess\<close>

text \<open>
  One set of accessors per bencode type. \<open>str\<close> is the bytes of the value when they are
  UTF-8. \<open>kind\<close> is the constructor itself.
\<close>

fun ref_int :: "BencodeRef \<Rightarrow> i64 option" where
  "ref_int (RefInt n _) = Some n"
| "ref_int _ = None"

fun ref_bytes_ext :: "BencodeRef \<Rightarrow> bytes option" where
  "ref_bytes_ext (RefBytes n _) = Some n"
| "ref_bytes_ext _ = None"

definition ref_bytes :: "BencodeRef \<Rightarrow> bytes option" where
  "ref_bytes b = ref_bytes_ext b"

definition ref_str_ext :: "BencodeRef \<Rightarrow> bytes option" where
  "ref_str_ext b =
     (case ref_bytes_ext b of None \<Rightarrow> None | Some n \<Rightarrow> if from_utf8 n then Some n else None)"

definition ref_str :: "BencodeRef \<Rightarrow> bytes option" where
  "ref_str b = ref_str_ext b"

fun ref_list :: "BencodeRef \<Rightarrow> BencodeRef list option" where
  "ref_list (RefList l _) = Some l"
| "ref_list _ = None"

fun ref_dict :: "BencodeRef \<Rightarrow> (bytes, BencodeRef) btree_map option" where
  "ref_dict (RefDict d _) = Some d"
| "ref_dict _ = None"

fun mut_int :: "BencodeMut \<Rightarrow> i64 option" where
  "mut_int (MutInt n) = Some n"
| "mut_int _ = None"

fun mut_bytes :: "BencodeMut \<Rightarrow> bytes option" where
  "mut_bytes (MutBytes n) = Some n"
| "mut_bytes _ = None"

definition mut_str :: "BencodeMut \<Rightarrow> bytes option" where
  "mut_str b =
     (case mut_bytes b of None \<Rightarrow> None | Some n \<Rightarrow> if from_utf8 n then Some n else None)"

fun mut_list :: "BencodeMut \<Rightarrow> BencodeMut list option" where
  "mut_list (MutList l) = Some l"
| "mut_list _ = None"

fun mut_dict :: "BencodeMut \<Rightarrow> (bytes, BencodeMut) btree_map option" where
  "mut_dict (MutDict d) = Some d"
| "mut_dict _ = None"

text \<open>
  \<open>list_mut\<close> and \<open>dict_mut\<close> hand out a mutable borrow: the model runs an update of the
  borrowed list or dictionary and puts the result back.
\<close>

fun list_mut :: "(BencodeMut list \<Rightarrow> BencodeMut list) \<Rightarrow> BencodeMut \<Rightarrow> BencodeMut option" where
  "list_mut f (MutList l) = Some (MutList (f l))"
| "list_mut f _ = None"

fun dict_mut ::
  "((bytes, BencodeMut) btree_map \<Rightarrow> (bytes, BencodeMut) btree_map) \<Rightarrow> BencodeMut \<Rightarrow> BencodeMut option"
  where
  "dict_mut f (MutDict d) = Some (MutDict (f d))"
| "dict_mut f _ = None"

section \<open>BListAccess\<close>

text \<open>The implementation for \<open>Vec\<close>: \<open>remove\<close> is total, \<open>insert\<close> panics past the end.\<close>

definition vec_get :: "'v list \<Rightarrow> nat \<Rightarrow> 'v option" where
  "vec_get l i = get_at l i"

text \<open>\<open>get_mut\<close> hands out a mutable borrow of the element: the model runs an update of it.\<close>

definition vec_get_mut :: "'v list \<Rightarrow> nat \<Rightarrow> ('v \<Rightarrow> 'v) \<Rightarrow> 'v list option" where
  "vec_get_mut l i f = (if i < length l then Some (l[i := f (l ! i)]) else None)"

definition vec_remove :: "'v list \<Rightarrow> nat \<Rightarrow> 'v list \<times> 'v option" where
  "vec_remove l i =
     (if length l \<le> i then (l, None) else (take i l @ drop (Suc i) l, Some (l ! i)))"

definition vec_insert :: "'v list \<Rightarrow> nat \<Rightarrow> 'v \<Rightarrow> ('v list, unit) res" where
  "vec_insert l i v = (if i \<le> length l then Ok (take i l @ v # drop i l) else Panic)"

definition vec_push :: "'v list \<Rightarrow> 'v \<Rightarrow> 'v list" where
  "vec_push l v = l @ [v]"

text \<open>Indexing unwraps the result of \<open>get\<close>.\<close>

definition blist_index :: "(nat \<Rightarrow> 'v option) \<Rightarrow> nat \<Rightarrow> ('v, unit) res" where
  "blist_index get i = unwrap (get i)"

text \<open>The iterator \<open>BListIter\<close>: it calls \<open>get\<close> at a counter until \<open>None\<close> comes back.\<close>

definition blist_next :: "(nat \<Rightarrow> 'v option) \<Rightarrow> nat \<Rightarrow> 'v option \<times> nat" where
  "blist_next get i = (case get i of Some v \<Rightarrow> (Some v, i + 1) | None \<Rightarrow> (None, i))"

fun blist_iter :: "nat \<Rightarrow> (nat \<Rightarrow> 'v option) \<Rightarrow> nat \<Rightarrow> 'v list" where
  "blist_iter 0 get i = []"
| "blist_iter (Suc fuel) get i =
     (case blist_next get i of (Some v, j) \<Rightarrow> v # blist_iter fuel get j | (None, _) \<Rightarrow> [])"

locale blist_access =
  fixes len :: "'l \<Rightarrow> nat"
    and get :: "'l \<Rightarrow> nat \<Rightarrow> 'v option"
    and get_mut :: "'l \<Rightarrow> nat \<Rightarrow> ('v \<Rightarrow> 'v) \<Rightarrow> 'l option"
    and insert :: "'l \<Rightarrow> nat \<Rightarrow> 'v \<Rightarrow> ('l, unit) res"
    and push :: "'l \<Rightarrow> 'v \<Rightarrow> 'l"
    and remove :: "'l \<Rightarrow> nat \<Rightarrow> 'l \<times> 'v option"
  assumes get_bound: "get l i \<noteq> None \<longleftrightarrow> i < len l"
    and get_mut_some: "i < len l \<Longrightarrow>
      \<exists>l'. get_mut l i f = Some l' \<and> (\<forall>j. get l' j = (if j = i then map_option f (get l i) else get l j))"
    and get_mut_none: "len l \<le> i \<Longrightarrow> get_mut l i f = None"
    and insert_ok: "i \<le> len l \<Longrightarrow> \<exists>l'. insert l i v = Ok l' \<and>
      (\<forall>j. get l' j = (if j < i then get l j else if j = i then Some v else get l (j - 1)))"
    and insert_panic: "len l < i \<Longrightarrow> insert l i v = Panic"
    and get_push: "get (push l v) i = (if i = len l then Some v else get l i)"
    and remove_result: "snd (remove l i) = get l i"
    and remove_get: "i < len l \<Longrightarrow> get (fst (remove l i)) j = (if j < i then get l j else get l (j + 1))"
    and remove_none: "len l \<le> i \<Longrightarrow> fst (remove l i) = l"
begin

lemma iter_values:
  assumes "len l < i + fuel" "i \<le> len l"
  shows "blist_iter fuel (get l) i = map (\<lambda>j. the (get l j)) [i..<len l]"
  using assms
proof (induction fuel arbitrary: i)
  case (Suc fuel)
  show ?case
  proof (cases "i < len l")
    case True
    then obtain v where v: "get l i = Some v" using get_bound [of l i] by blast
    have "blist_iter fuel (get l) (i + 1) = map (\<lambda>j. the (get l j)) [i + 1..<len l]"
      using Suc.prems True by (intro Suc.IH) auto
    with v True show ?thesis
      by (simp add: blist_next_def upt_conv_Cons)
  next
    case False
    then have "get l i = None" using get_bound [of l i] by blast
    with False Suc.prems show ?thesis by (simp add: blist_next_def)
  qed
qed simp

text \<open>Removing what was just inserted gives back the elements there were.\<close>

lemma insert_remove:
  assumes "i \<le> len l" "insert l i v = Ok l'"
  shows "snd (remove l' i) = Some v \<and> (\<forall>j. get (fst (remove l' i)) j = get l j)"
proof -
  from insert_ok [OF assms(1), of v] assms(2)
  have l': "\<And>j. get l' j = (if j < i then get l j else if j = i then Some v else get l (j - 1))" by auto
  then have "i < len l'" using get_bound [of l' i] by simp
  then show ?thesis using l' by (auto simp: remove_result remove_get)
qed

lemma index_panic: "blist_index (get l) i = Panic \<longleftrightarrow> len l \<le> i"
  using get_bound [of l i] by (cases "get l i") (auto simp: blist_index_def)

end

interpretation vec: blist_access length vec_get vec_get_mut vec_insert vec_push vec_remove
proof unfold_locales
  fix l :: "'v list" and i j :: nat and v :: 'v and f :: "'v \<Rightarrow> 'v"
  show "vec_get l i \<noteq> None \<longleftrightarrow> i < length l"
    by (auto simp: vec_get_def)
  show "\<exists>l'. vec_get_mut l i f = Some l' \<and>
      (\<forall>j. vec_get l' j = (if j = i then map_option f (vec_get l i) else vec_get l j))"
    if "i < length l"
    using that by (auto simp: vec_get_mut_def vec_get_def get_at_def)
  show "vec_get_mut l i f = None" if "length l \<le> i"
    using that by (simp add: vec_get_mut_def)
  show "\<exists>l'. vec_insert l i v = Ok l' \<and>
      (\<forall>j. vec_get l' j = (if j < i then vec_get l j else if j = i then Some v else vec_get l (j - 1)))"
    if "i \<le> length l"
    using that by (auto simp: vec_insert_def vec_get_def get_at_def nth_append nth_Cons' not_less)
  show "vec_insert l i v = Panic" if "length l < i"
    using that by (simp add: vec_insert_def)
  show "vec_get (vec_push l v) i = (if i = length l then Some v else vec_get l i)"
    by (auto simp: vec_get_def vec_push_def get_at_def nth_append)
  show "snd (vec_remove l i) = vec_get l i"
    by (auto simp: vec_get_def vec_remove_def get_at_def)
  show "vec_get (fst (vec_remove l i)) j = (if j < i then vec_get l j else vec_get l (j + 1))"
    if "i < length l"
    using that by (auto simp: vec_get_def vec_remove_def get_at_def nth_append)
  show "fst (vec_remove l i) = l" if "length l \<le> i"
    using that by (simp add: vec_remove_def)
qed

lemma vec_iter_all: "length l < fuel \<Longrightarrow> blist_iter fuel (vec_get l) 0 = l"
proof -
  assume "length l < fuel"
  then have "blist_iter fuel (vec_get l) 0 = map (\<lambda>j. the (vec_get l j)) [0..<length l]"
    using vec.iter_values [of l 0 fuel] by simp
  also have "\<dots> = l"
    by (rule nth_equalityI) (auto simp: vec_get_def get_at_def)
  finally show ?thesis .
qed

section \<open>BDictAccess\<close>

text \<open>The implementation for \<open>BTreeMap\<close>; \<open>insert\<close> and \<open>remove\<close> return the value there was.\<close>

definition btree_to_list :: "('k, 'v) btree_map \<Rightarrow> ('k \<times> 'v) list" where
  "btree_to_list m = map (\<lambda>(k, v). (k, v)) m"

definition btree_lookup :: "(bytes, 'v) btree_map \<Rightarrow> bytes \<Rightarrow> 'v option" where
  "btree_lookup m key = btree_get m key"

definition btree_lookup_mut :: "(bytes, 'v) btree_map \<Rightarrow> bytes \<Rightarrow> ('v \<Rightarrow> 'v) \<Rightarrow> (bytes, 'v) btree_map option" where
  "btree_lookup_mut m key f =
     (case btree_get m key of None \<Rightarrow> None | Some v \<Rightarrow> Some (btree_insert key (f v) m))"

definition btree_dict_insert :: "(bytes, 'v) btree_map \<Rightarrow> bytes \<Rightarrow> 'v \<Rightarrow> (bytes, 'v) btree_map \<times> 'v option" where
  "btree_dict_insert m key v = (btree_insert key v m, btree_get m key)"

definition btree_dict_remove :: "(bytes, 'v) btree_map \<Rightarrow> bytes \<Rightarrow> (bytes, 'v) btree_map \<times> 'v option" where
  "btree_dict_remove m key = (btree_remove key m, btree_get m key)"

locale bdict_access =
  fixes inv :: "'m \<Rightarrow> bool"
    and to_list :: "'m \<Rightarrow> (bytes \<times> 'v) list"
    and lookup :: "'m \<Rightarrow> bytes \<Rightarrow> 'v option"
    and lookup_mut :: "'m \<Rightarrow> bytes \<Rightarrow> ('v \<Rightarrow> 'v) \<Rightarrow> 'm option"
    and insert :: "'m \<Rightarrow> bytes \<Rightarrow> 'v \<Rightarrow> 'm \<times> 'v option"
    and remove :: "'m \<Rightarrow> bytes \<Rightarrow> 'm \<times> 'v option"
  assumes lookup_insert: "inv m \<Longrightarrow> lookup (fst (insert m k v)) = (lookup m)(k \<mapsto> v)"
    and insert_old: "inv m \<Longrightarrow> snd (insert m k v) = lookup m k"
    and lookup_remove: "inv m \<Longrightarrow> lookup (fst (remove m k)) = (lookup m)(k := None)"
    and remove_old: "inv m \<Longrightarrow> snd (remove m k) = lookup m k"
    and lookup_mut_none: "inv m \<Longrightarrow> lookup_mut m k f = None \<longleftrightarrow> lookup m k = None"
    and lookup_mut_some: "inv m \<Longrightarrow> lookup_mut m k f = Some m' \<Longrightarrow>
      inv m' \<and> lookup m' = (lookup m)(k := map_option f (lookup m k))"
    and inv_insert: "inv m \<Longrightarrow> inv (fst (insert m k v))"
    and inv_remove: "inv m \<Longrightarrow> inv (fst (remove m k))"
    and to_list_lookup: "inv m \<Longrightarrow> map_of (to_list m) = lookup m"
    and to_list_distinct: "inv m \<Longrightarrow> distinct (map fst (to_list m))"
begin

text \<open>A dictionary built by inserts maps a key to the last value inserted for it.\<close>

lemma lookup_inserts:
  "inv m \<Longrightarrow> lookup (fold (\<lambda>(k, v) m. fst (insert m k v)) es m) = lookup m ++ map_of (rev es)"
proof (induction es arbitrary: m)
  case (Cons e es)
  then show ?case
    by (cases e) (simp add: inv_insert lookup_insert map_add_upd_left fun_eq_iff map_add_def
        split: option.splits)
qed simp

lemma inv_inserts: "inv m \<Longrightarrow> inv (fold (\<lambda>(k, v) m. fst (insert m k v)) es m)"
  by (induction es arbitrary: m) (auto simp: inv_insert)

lemma insert_then_remove:
  "inv m \<Longrightarrow> lookup m k = None \<Longrightarrow>
   snd (remove (fst (insert m k v)) k) = Some v \<and> lookup (fst (remove (fst (insert m k v)) k)) = lookup m"
  by (auto simp: lookup_remove lookup_insert inv_insert remove_old fun_eq_iff)

lemma to_list_set: "inv m \<Longrightarrow> (k, v) \<in> set (to_list m) \<longleftrightarrow> lookup m k = Some v"
  using to_list_lookup to_list_distinct by (metis map_of_eq_Some_iff)

end

interpretation btree: bdict_access btree_inv btree_to_list btree_lookup btree_lookup_mut
  btree_dict_insert btree_dict_remove
proof unfold_locales
  fix m m' :: "(bytes, 'v) btree_map" and k v and f :: "'v \<Rightarrow> 'v"
  assume m: "btree_inv m"
  then show "btree_lookup (fst (btree_dict_insert m k v)) = (btree_lookup m)(k \<mapsto> v)"
    and "snd (btree_dict_insert m k v) = btree_lookup m k"
    and "btree_lookup (fst (btree_dict_remove m k)) = (btree_lookup m)(k := None)"
    and "snd (btree_dict_remove m k) = btree_lookup m k"
    and "btree_inv (fst (btree_dict_insert m k v))"
    and "btree_inv (fst (btree_dict_remove m k))"
    and "map_of (btree_to_list m) = btree_lookup m"
    and "distinct (map fst (btree_to_list m))"
    by (simp_all add: btree_get_insert btree_get_remove btree_inv_insert btree_inv_remove
        btree_inv_distinct btree_get_def fun_eq_iff btree_lookup_def btree_dict_insert_def
        btree_dict_remove_def btree_to_list_def)
  show "btree_lookup_mut m k f = None \<longleftrightarrow> btree_lookup m k = None"
    by (simp add: btree_lookup_mut_def btree_lookup_def split: option.splits)
  show "btree_inv m' \<and> btree_lookup m' = (btree_lookup m)(k := map_option f (btree_lookup m k))"
    if "btree_lookup_mut m k f = Some m'"
    using that m by (auto simp: btree_lookup_mut_def btree_lookup_def btree_get_insert fun_eq_iff
        intro: btree_inv_insert split: option.splits)
qed

text \<open>The macros \<open>ben_map!\<close> and \<open>ben_list!\<close>: a new value, then one insert or push per entry.\<close>

definition ben_map :: "(bytes \<times> BencodeMut) list \<Rightarrow> (BencodeMut, unit) res" where
  "ben_map es =
     unwrap (dict_mut (\<lambda>map. fold (\<lambda>(key, val) map. fst (btree_dict_insert map key val)) es map) new_dict)"

definition ben_list :: "BencodeMut list \<Rightarrow> (BencodeMut, unit) res" where
  "ben_list es = unwrap (list_mut (\<lambda>list. fold (\<lambda>ben list. vec_push list ben) es list) new_list)"

section \<open>BConvert: reading with application errors\<close>

text \<open>
  The default methods of the traits \<open>BConvert\<close> and \<open>BConvertExt\<close>, over their one required
  method \<open>handle_error\<close>.
\<close>

definition convert_int :: "(BencodeConvertErrorKind \<Rightarrow> 'e) \<Rightarrow> BencodeRef \<Rightarrow> bytes \<Rightarrow> (i64, 'e) res" where
  "convert_int handle_error b error_key =
     ok_or (ref_int b) (handle_error (WrongType error_key ''Integer''))"

definition convert_bytes :: "(BencodeConvertErrorKind \<Rightarrow> 'e) \<Rightarrow> BencodeRef \<Rightarrow> bytes \<Rightarrow> (bytes, 'e) res" where
  "convert_bytes handle_error b error_key =
     ok_or (ref_bytes b) (handle_error (WrongType error_key ''Bytes''))"

definition convert_str :: "(BencodeConvertErrorKind \<Rightarrow> 'e) \<Rightarrow> BencodeRef \<Rightarrow> bytes \<Rightarrow> (bytes, 'e) res" where
  "convert_str handle_error b error_key =
     ok_or (ref_str b) (handle_error (WrongType error_key ''UTF-8 Bytes''))"

definition convert_list ::
  "(BencodeConvertErrorKind \<Rightarrow> 'e) \<Rightarrow> BencodeRef \<Rightarrow> bytes \<Rightarrow> (BencodeRef list, 'e) res" where
  "convert_list handle_error b error_key =
     ok_or (ref_list b) (handle_error (WrongType error_key ''List''))"

definition convert_dict ::
  "(BencodeConvertErrorKind \<Rightarrow> 'e) \<Rightarrow> BencodeRef \<Rightarrow> bytes \<Rightarrow> ((bytes, BencodeRef) btree_map, 'e) res" where
  "convert_dict handle_error b error_key =
     ok_or (ref_dict b) (handle_error (WrongType error_key ''Dictionary''))"

definition convert_lookup ::
  "(BencodeConvertErrorKind \<Rightarrow> 'e) \<Rightarrow> (bytes, BencodeRef) btree_map \<Rightarrow> bytes \<Rightarrow> (BencodeRef, 'e) res" where
  "convert_lookup handle_error dictionary key =
     (case btree_lookup dictionary key of
        Some n \<Rightarrow> Ok n
      | None \<Rightarrow> Err (handle_error (MissingKey key)))"

definition lookup_and_convert_int ::
  "(BencodeConvertErrorKind \<Rightarrow> 'e) \<Rightarrow> (bytes, BencodeRef) btree_map \<Rightarrow> bytes \<Rightarrow> (i64, 'e) res" where
  "lookup_and_convert_int h d key = try_res (convert_lookup h d key) (\<lambda>b. convert_int h b key)"

definition lookup_and_convert_bytes ::
  "(BencodeConvertErrorKind \<Rightarrow> 'e) \<Rightarrow> (bytes, BencodeRef) btree_map \<Rightarrow> bytes \<Rightarrow> (bytes, 'e) res" where
  "lookup_and_convert_bytes h d key = try_res (convert_lookup h d key) (\<lambda>b. convert_bytes h b key)"

definition lookup_and_convert_str ::
  "(BencodeConvertErrorKind \<Rightarrow> 'e) \<Rightarrow> (bytes, BencodeRef) btree_map \<Rightarrow> bytes \<Rightarrow> (bytes, 'e) res" where
  "lookup_and_convert_str h d key = try_res (convert_lookup h d key) (\<lambda>b. convert_str h b key)"

definition lookup_and_convert_list ::
  "(BencodeConvertErrorKind \<Rightarrow> 'e) \<Rightarrow> (bytes, BencodeRef) btree_map \<Rightarrow> bytes \<Rightarrow> (BencodeRef list, 'e) res" where
  "lookup_and_convert_list h d key = try_res (convert_lookup h d key) (\<lambda>b. convert_list h b key)"

definition lookup_and_convert_dict ::
  "(BencodeConvertErrorKind \<Rightarrow> 'e) \<Rightarrow> (bytes, BencodeRef) btree_map \<Rightarrow> bytes
    \<Rightarrow> ((bytes, BencodeRef) btree_map, 'e) res" where
  "lookup_and_convert_dict h d key = try_res (convert_lookup h d key) (\<lambda>b. convert_dict h b key)"

definition convert_bytes_ext :: "(BencodeConvertErrorKind \<Rightarrow> 'e) \<Rightarrow> BencodeRef \<Rightarrow> bytes \<Rightarrow> (bytes, 'e) res" where
  "convert_bytes_ext handle_error b error_key =
     ok_or (ref_bytes_ext b) (handle_error (WrongType error_key ''Bytes''))"

definition convert_str_ext :: "(BencodeConvertErrorKind \<Rightarrow> 'e) \<Rightarrow> BencodeRef \<Rightarrow> bytes \<Rightarrow> (bytes, 'e) res" where
  "convert_str_ext handle_error b error_key =
     ok_or (ref_str_ext b) (handle_error (WrongType error_key ''UTF-8 Bytes''))"

definition lookup_and_convert_bytes_ext ::
  "(BencodeConvertErrorKind \<Rightarrow> 'e) \<Rightarrow> (bytes, BencodeRef) btree_map \<Rightarrow> bytes \<Rightarrow> (bytes, 'e) res" where
  "lookup_and_convert_bytes_ext h d key =
     try_res (convert_lookup h d key) (\<lambda>b. convert_bytes_ext h b key)"

definition lookup_and_convert_str_ext ::
  "(BencodeConvertErrorKind \<Rightarrow> 'e) \<Rightarrow> (bytes, BencodeRef) btree_map \<Rightarrow> bytes \<Rightarrow> (bytes, 'e) res" where
  "lookup_and_convert_str_ext h d key =
     try_res (convert_lookup h d key) (\<lambda>b. convert_str_ext h b key)"

lemmas convert_defs = convert_int_def convert_bytes_def convert_str_def convert_list_def
  convert_dict_def convert_lookup_def lookup_and_convert_int_def lookup_and_convert_bytes_def
  lookup_and_convert_str_def lookup_and_convert_list_def lookup_and_convert_dict_def
  convert_bytes_ext_def convert_str_ext_def lookup_and_convert_bytes_ext_def
  lookup_and_convert_str_ext_def

end
