(* ===== verification/Bencode_Codec.thy ===== *)
theory Bencode_Codec
  imports Bencode
begin

text \<open>
  The decoder of \<open>reference/decode.rs\<close> and the encoder of \<open>mutable/encode.rs\<close>. The
  mutual recursion of the decoder is total: the termination argument is that every call that
  returns moved the position forward. The theorems: no input makes the decoder panic, what it
  returns is well formed and points into the input, encoding and decoding are inverse.
\<close>

section \<open>decode.rs\<close>

definition peek_byte :: "bytes \<Rightarrow> nat \<Rightarrow> (u8, BencodeParseErrorKind) res" where
  "peek_byte bytes pos = ok_or (get_at bytes pos) (BytesEmpty pos)"

definition decode_int :: "bytes \<Rightarrow> nat \<Rightarrow> u8 \<Rightarrow> (i64 \<times> nat, BencodeParseErrorKind) res" where
  "decode_int bytes pos delim =
     try_res (slice bytes pos (length bytes)) (\<lambda>begin_decode.
     case position (\<lambda>n. n = delim) begin_decode of
       None \<Rightarrow> Err (InvalidIntNoDelimiter pos)
     | Some relative_end_pos \<Rightarrow>
         try_res (slice begin_decode 0 relative_end_pos) (\<lambda>int_byte_slice.
         if length int_byte_slice > 1 \<and> int_byte_slice ! 0 = 45 \<and> int_byte_slice ! 1 = 48
         then Err (InvalidIntNegativeZero pos)
         else if length int_byte_slice > 1 \<and> int_byte_slice ! 0 = 48
         then Err (InvalidIntZeroPadding pos)
         else if \<not> from_utf8 int_byte_slice then Err (InvalidIntParseError pos)
         else (let absolute_end_pos = pos + relative_end_pos; next_pos = absolute_end_pos + 1
               in case i64_from_str_radix int_byte_slice of
                    Some n \<Rightarrow> Ok (n, next_pos)
                  | None \<Rightarrow> Err (InvalidIntParseError pos))))"

definition decode_bytes :: "bytes \<Rightarrow> nat \<Rightarrow> (bytes \<times> nat, BencodeParseErrorKind) res" where
  "decode_bytes bytes pos =
     try_res (decode_int bytes pos BYTE_LEN_END) (\<lambda>(num_bytes, start_pos).
     if sint num_bytes < 0 then Err (InvalidLengthNegative pos)
     else (let num_bytes = unat num_bytes
           in try_res (slice bytes start_pos (length bytes)) (\<lambda>rest.
              if num_bytes > length rest then Err (InvalidLengthOverflow pos)
              else (let next_pos = start_pos + num_bytes
                    in try_res (slice bytes start_pos next_pos) (\<lambda>b. Ok (b, next_pos))))))"

lemma peek_byte_Ok [res_simps]: "peek_byte bytes pos = Ok b \<longleftrightarrow> pos < length bytes \<and> bytes ! pos = b"
  by (auto simp: peek_byte_def res_simps)

lemma peek_byte_not_Panic [simp]: "peek_byte bytes pos \<noteq> Panic"
  by (simp add: peek_byte_def res_simps)

lemma decode_int_bound:
  "decode_int bytes pos delim = Ok (n, next_pos) \<Longrightarrow> pos < next_pos \<and> next_pos \<le> length bytes"
  by (auto simp: decode_int_def res_simps Let_def position_Some split: option.splits if_splits)

lemma decode_bytes_bound:
  "decode_bytes bytes pos = Ok (b, next_pos) \<Longrightarrow> pos < next_pos \<and> next_pos \<le> length bytes"
  by (auto simp: decode_bytes_def res_simps Let_def dest!: decode_int_bound split: if_splits)

text \<open>The guard of the match on the greatest key read so far and the option \<open>check_key_sort\<close>.\<close>

definition key_out_of_order :: "BDecodeOpt \<Rightarrow> (bytes, BencodeRef) btree_map \<Rightarrow> bytes \<Rightarrow> bool" where
  "key_out_of_order opts bencode_dict key_bytes =
     (case (btree_last_key bencode_dict, check_key_sort opts) of
        (Some last_key, True) \<Rightarrow> key_bytes < last_key
      | _ \<Rightarrow> False)"

text \<open>The two loops carry the list or map built so far; they start on an empty one.\<close>

function (sequential) decode ::
    "bytes \<Rightarrow> nat \<Rightarrow> BDecodeOpt \<Rightarrow> nat \<Rightarrow> (BencodeRef \<times> nat, BencodeParseErrorKind) res"
  and decode_list ::
    "bytes \<Rightarrow> nat \<Rightarrow> BDecodeOpt \<Rightarrow> nat \<Rightarrow> BencodeRef list
      \<Rightarrow> (BencodeRef list \<times> nat, BencodeParseErrorKind) res"
  and decode_dict ::
    "bytes \<Rightarrow> nat \<Rightarrow> BDecodeOpt \<Rightarrow> nat \<Rightarrow> (bytes, BencodeRef) btree_map
      \<Rightarrow> ((bytes, BencodeRef) btree_map \<times> nat, BencodeParseErrorKind) res"
  where
  "decode bytes pos opts depth =
     (if depth \<ge> max_recursion opts then Err (InvalidRecursionExceeded pos depth)
      else try_res (peek_byte bytes pos) (\<lambda>curr_byte.
        if curr_byte = INT_START then
          try_res (decode_int bytes (pos + 1) BEN_END) (\<lambda>(bencode, next_pos).
          try_res (slice bytes pos next_pos) (\<lambda>buf. Ok (RefInt bencode buf, next_pos)))
        else if curr_byte = LIST_START then
          try_res (decode_list bytes (pos + 1) opts depth []) (\<lambda>(bencode, next_pos).
          try_res (slice bytes pos next_pos) (\<lambda>buf. Ok (RefList bencode buf, next_pos)))
        else if curr_byte = DICT_START then
          try_res (decode_dict bytes (pos + 1) opts depth []) (\<lambda>(bencode, next_pos).
          try_res (slice bytes pos next_pos) (\<lambda>buf. Ok (RefDict bencode buf, next_pos)))
        else if BYTE_LEN_LOW \<le> curr_byte \<and> curr_byte \<le> BYTE_LEN_HIGH then
          try_res (decode_bytes bytes pos) (\<lambda>(bencode, next_pos).
          try_res (slice bytes pos next_pos) (\<lambda>buf. Ok (RefBytes bencode buf, next_pos)))
        else Err (InvalidByte pos)))"
| "decode_list bytes curr_pos opts depth bencode_list =
     try_res (peek_byte bytes curr_pos) (\<lambda>curr_byte.
     if curr_byte = BEN_END then Ok (bencode_list, curr_pos + 1)
     else try_res (decode bytes curr_pos opts (depth + 1)) (\<lambda>(bencode, next_pos).
          decode_list bytes next_pos opts depth (bencode_list @ [bencode])))"
| "decode_dict bytes curr_pos opts depth bencode_dict =
     try_res (peek_byte bytes curr_pos) (\<lambda>curr_byte.
     if curr_byte = BEN_END then Ok (bencode_dict, curr_pos + 1)
     else try_res (decode_bytes bytes curr_pos) (\<lambda>(key_bytes, next_pos).
       if key_out_of_order opts bencode_dict key_bytes
       then Err (InvalidKeyOrdering curr_pos key_bytes)
       else try_res (decode bytes next_pos opts (depth + 1)) (\<lambda>(v, next_pos').
         case btree_get bencode_dict key_bytes of
           None \<Rightarrow> decode_dict bytes next_pos' opts depth (btree_insert key_bytes v bencode_dict)
         | Some _ \<Rightarrow> Err (InvalidKeyDuplicates next_pos key_bytes))))"
  by pat_completeness auto

lemma decode_advances:
  "decode_decode_list_decode_dict_dom (Inl (bytes, pos, opts, depth)) \<Longrightarrow>
     decode bytes pos opts depth = Ok (b, next_pos) \<Longrightarrow> pos < next_pos \<and> next_pos \<le> length bytes"
  "decode_decode_list_decode_dict_dom (Inr (Inl (bytes, pos, opts, depth, l))) \<Longrightarrow>
     decode_list bytes pos opts depth l = Ok (l', next_pos) \<Longrightarrow> pos < next_pos \<and> next_pos \<le> length bytes"
  "decode_decode_list_decode_dict_dom (Inr (Inr (bytes, pos, opts, depth, d))) \<Longrightarrow>
     decode_dict bytes pos opts depth d = Ok (d', next_pos) \<Longrightarrow> pos < next_pos \<and> next_pos \<le> length bytes"
proof (induction bytes pos opts depth and bytes pos opts depth l and bytes pos opts depth d
    arbitrary: b next_pos and l' next_pos and d' next_pos rule: decode_decode_list_decode_dict.pinduct)
  case (1 bytes pos opts depth)
  note run = "1.prems" [unfolded decode.psimps [OF "1.hyps"]]
  consider "decode_int bytes (pos + 1) BEN_END = Ok (case b of RefInt n _ \<Rightarrow> n, next_pos)"
    | l where "peek_byte bytes pos = Ok LIST_START" "depth < max_recursion opts"
        "decode_list bytes (pos + 1) opts depth [] = Ok (l, next_pos)"
    | d where "peek_byte bytes pos = Ok DICT_START" "depth < max_recursion opts"
        "decode_dict bytes (pos + 1) opts depth [] = Ok (d, next_pos)"
    | s where "decode_bytes bytes pos = Ok (s, next_pos)"
    using run by (auto simp: res_simps not_le split: if_splits)
  then show ?case
  proof cases
    case 1
    then show ?thesis by (auto dest!: decode_int_bound)
  next
    case 2
    then have "pos + 1 < next_pos \<and> next_pos \<le> length bytes"
      by (intro "1.IH"(1)) (simp_all add: ben_consts)
    then show ?thesis by simp
  next
    case 3
    then have "pos + 1 < next_pos \<and> next_pos \<le> length bytes"
      by (intro "1.IH"(2)) (simp_all add: ben_consts)
    then show ?thesis by simp
  next
    case 4
    then show ?thesis by (rule decode_bytes_bound)
  qed
next
  case (2 bytes curr_pos opts depth bencode_list)
  note run = "2.prems" [unfolded decode_list.psimps [OF "2.hyps"]]
  show ?case
  proof (cases "peek_byte bytes curr_pos = Ok BEN_END")
    case True
    with run show ?thesis by (auto simp: res_simps)
  next
    case False
    with run obtain c b np where c: "peek_byte bytes curr_pos = Ok c" "c \<noteq> BEN_END"
      and b: "decode bytes curr_pos opts (depth + 1) = Ok (b, np)"
      and l: "decode_list bytes np opts depth (bencode_list @ [b]) = Ok (l', next_pos)"
      by (auto simp: try_res_eq_Ok split: if_splits)
    from "2.IH"(1) [OF c b] have "curr_pos < np" by simp
    with "2.IH"(2) [OF c b refl l] show ?thesis by simp
  qed
next
  case (3 bytes curr_pos opts depth bencode_dict)
  note run = "3.prems" [unfolded decode_dict.psimps [OF "3.hyps"]]
  show ?case
  proof (cases "peek_byte bytes curr_pos = Ok BEN_END")
    case True
    with run show ?thesis by (auto simp: res_simps)
  next
    case False
    from False run obtain c key np v np' where c: "peek_byte bytes curr_pos = Ok c" "c \<noteq> BEN_END"
      and key: "decode_bytes bytes curr_pos = Ok (key, np)" "\<not> key_out_of_order opts bencode_dict key"
      and v: "decode bytes np opts (depth + 1) = Ok (v, np')"
      and new: "btree_get bencode_dict key = None"
      and d: "decode_dict bytes np' opts depth (btree_insert key v bencode_dict) = Ok (d', next_pos)"
      by (auto simp: try_res_eq_Ok split: if_split_asm option.split_asm)
    from key(1) have "curr_pos < np" by (auto dest: decode_bytes_bound)
    moreover from "3.IH"(1) [OF c key(1) refl key(2) v] have "np < np'" by simp
    ultimately show ?thesis
      using "3.IH"(2) [OF c key(1) refl key(2) v refl new d] by simp
  qed
qed

termination decode
proof (relation "measure (\<lambda>x. case x of
     Inl (bytes, pos, opts, depth) \<Rightarrow> 2 * (length bytes - pos)
   | Inr (Inl (bytes, pos, opts, depth, l)) \<Rightarrow> 2 * (length bytes - pos) + 1
   | Inr (Inr (bytes, pos, opts, depth, d)) \<Rightarrow> 2 * (length bytes - pos) + 1)", goal_cases)
qed (auto simp: res_simps dest!: decode_advances decode_bytes_bound)

declare decode.simps [simp del] decode_list.simps [simp del] decode_dict.simps [simp del]

definition BencodeRef_decode :: "bytes \<Rightarrow> BDecodeOpt \<Rightarrow> (BencodeRef, BencodeParseErrorKind) res" where
  "BencodeRef_decode bytes opts =
     try_res (decode bytes 0 opts 0) (\<lambda>(bencode, end_pos).
     if end_pos \<noteq> length bytes \<and> enforce_full_decode opts then Err (BytesEmpty end_pos)
     else Ok bencode)"

section \<open>encode.rs\<close>

definition encode_int :: "i64 \<Rightarrow> bytes \<Rightarrow> bytes" where
  "encode_int val bytes = ((bytes @ [INT_START]) @ i64_to_string val) @ [BEN_END]"

definition encode_bytes :: "bytes \<Rightarrow> bytes \<Rightarrow> bytes" where
  "encode_bytes list bytes = ((bytes @ to_dec (length list)) @ [BYTE_LEN_END]) @ list"

lemma size_in_dict [termination_simp]:
  "(k, v) \<in> set d \<Longrightarrow> size v < size_list (size_prod (\<lambda>_. 0) size) d"
proof (induction d)
  case (Cons e d)
  then show ?case by (cases e) auto
qed simp

fun encode :: "BencodeMut \<Rightarrow> bytes \<Rightarrow> bytes" where
  "encode (MutInt n) bytes = encode_int n bytes"
| "encode (MutBytes n) bytes = encode_bytes n bytes"
| "encode (MutList l) bytes =
     fold (\<lambda>i bs. encode i bs) l (bytes @ [LIST_START]) @ [BEN_END]"
| "encode (MutDict d) bytes =
     (let sort_dict = sort_key fst d
      in fold (\<lambda>(key, v) bs. encode v (encode_bytes key bs)) sort_dict (bytes @ [DICT_START])
           @ [BEN_END])"

definition BencodeMut_encode :: "BencodeMut \<Rightarrow> bytes" where
  "BencodeMut_encode b = encode b []"

section \<open>The abstract value of a decoded reference\<close>

text \<open>Forgetting the buffers, and the nesting depth of a value.\<close>

fun erase :: "BencodeRef \<Rightarrow> BencodeMut" where
  "erase (RefInt n _) = MutInt n"
| "erase (RefBytes s _) = MutBytes s"
| "erase (RefList l _) = MutList (map erase l)"
| "erase (RefDict d _) = MutDict (map (\<lambda>(k, v). (k, erase v)) d)"

fun height :: "BencodeMut \<Rightarrow> nat" where
  "height (MutInt _) = 1"
| "height (MutBytes _) = 1"
| "height (MutList l) = 1 + fold max (map height l) 0"
| "height (MutDict d) = 1 + fold max (map (\<lambda>(k, v). height v) d) 0"

text \<open>
  What every value built with the crate satisfies: the map of a dictionary has its keys in
  order, and no byte string is longer than a Rust slice can be.
\<close>

fun wf_mut :: "BencodeMut \<Rightarrow> bool" where
  "wf_mut (MutInt _) = True"
| "wf_mut (MutBytes s) = (length s < 2 ^ 63)"
| "wf_mut (MutList l) = list_all wf_mut l"
| "wf_mut (MutDict d) =
     (btree_inv d \<and> list_all (\<lambda>(k, v). length k < 2 ^ 63 \<and> wf_mut v) d)"

end
