(* ===== verification/Bencode_Props.thy ===== *)
theory Bencode_Props
  imports Bencode_Codec
begin

text \<open>
  The correctness of the bencode codec: the decoder never panics, what it returns is a slice
  of the input within the recursion limit, and it is inverse to the encoder in both
  directions.
\<close>

section \<open>The runs of the decoder as a relation\<close>

text \<open>
  \<open>reads bytes opts pos depth b np\<close>: at \<open>pos\<close> the input holds the value \<open>b\<close>, which ends
  before \<open>np\<close>. The rules are the successful branches of the decoder, so that a fact about
  every successful decode is proved by rule induction.
\<close>

inductive reads :: "bytes \<Rightarrow> BDecodeOpt \<Rightarrow> nat \<Rightarrow> nat \<Rightarrow> BencodeRef \<Rightarrow> nat \<Rightarrow> bool"
  and reads_list :: "bytes \<Rightarrow> BDecodeOpt \<Rightarrow> nat \<Rightarrow> nat \<Rightarrow> BencodeRef list \<Rightarrow> BencodeRef list \<Rightarrow> nat \<Rightarrow> bool"
  and reads_dict :: "bytes \<Rightarrow> BDecodeOpt \<Rightarrow> nat \<Rightarrow> nat \<Rightarrow> (bytes, BencodeRef) btree_map
      \<Rightarrow> (bytes, BencodeRef) btree_map \<Rightarrow> nat \<Rightarrow> bool"
  for bytes :: bytes and opts :: BDecodeOpt
  where
  Int: "depth < max_recursion opts \<Longrightarrow> pos < length bytes \<Longrightarrow> bytes ! pos = INT_START \<Longrightarrow>
    decode_int bytes (pos + 1) BEN_END = Ok (n, np) \<Longrightarrow>
    reads bytes opts pos depth (RefInt n (sub_list bytes pos np)) np"
| List: "depth < max_recursion opts \<Longrightarrow> pos < length bytes \<Longrightarrow> bytes ! pos = LIST_START \<Longrightarrow>
    reads_list bytes opts (pos + 1) depth [] l np \<Longrightarrow>
    reads bytes opts pos depth (RefList l (sub_list bytes pos np)) np"
| Dict: "depth < max_recursion opts \<Longrightarrow> pos < length bytes \<Longrightarrow> bytes ! pos = DICT_START \<Longrightarrow>
    reads_dict bytes opts (pos + 1) depth [] d np \<Longrightarrow>
    reads bytes opts pos depth (RefDict d (sub_list bytes pos np)) np"
| Bytes: "depth < max_recursion opts \<Longrightarrow> pos < length bytes \<Longrightarrow>
    BYTE_LEN_LOW \<le> bytes ! pos \<Longrightarrow> bytes ! pos \<le> BYTE_LEN_HIGH \<Longrightarrow>
    decode_bytes bytes pos = Ok (s, np) \<Longrightarrow>
    reads bytes opts pos depth (RefBytes s (sub_list bytes pos np)) np"
| LEnd: "pos < length bytes \<Longrightarrow> bytes ! pos = BEN_END \<Longrightarrow>
    reads_list bytes opts pos depth acc acc (pos + 1)"
| LStep: "pos < length bytes \<Longrightarrow> bytes ! pos \<noteq> BEN_END \<Longrightarrow>
    reads bytes opts pos (depth + 1) b p \<Longrightarrow> reads_list bytes opts p depth (acc @ [b]) l np \<Longrightarrow>
    reads_list bytes opts pos depth acc l np"
| DEnd: "pos < length bytes \<Longrightarrow> bytes ! pos = BEN_END \<Longrightarrow>
    reads_dict bytes opts pos depth acc acc (pos + 1)"
| DStep: "pos < length bytes \<Longrightarrow> bytes ! pos \<noteq> BEN_END \<Longrightarrow>
    decode_bytes bytes pos = Ok (key, p) \<Longrightarrow> \<not> key_out_of_order opts acc key \<Longrightarrow>
    reads bytes opts p (depth + 1) v q \<Longrightarrow> btree_get acc key = None \<Longrightarrow>
    reads_dict bytes opts q depth (btree_insert key v acc) d np \<Longrightarrow>
    reads_dict bytes opts pos depth acc d np"

lemma reads_advances:
  "reads bytes opts pos depth b np \<Longrightarrow> pos < np \<and> np \<le> length bytes"
  "reads_list bytes opts pos depth acc l np \<Longrightarrow> pos < np \<and> np \<le> length bytes"
  "reads_dict bytes opts pos depth acc' d np \<Longrightarrow> pos < np \<and> np \<le> length bytes"
  by (induction rule: reads_reads_list_reads_dict.inducts)
    (auto dest!: decode_int_bound decode_bytes_bound)

text \<open>Every step of the relation is a step of the decoder.\<close>

lemma decode_complete:
  "reads bytes opts pos depth b np \<Longrightarrow> decode bytes pos opts depth = Ok (b, np)"
  "reads_list bytes opts pos depth acc l np \<Longrightarrow> decode_list bytes pos opts depth acc = Ok (l, np)"
  "reads_dict bytes opts pos depth acc' d np \<Longrightarrow> decode_dict bytes pos opts depth acc' = Ok (d, np)"
proof (induction rule: reads_reads_list_reads_dict.inducts)
  case (Int depth pos n np)
  then show ?case
    using decode_int_bound [OF Int(4)]
    by (subst decode.simps) (simp add: peek_byte_def get_at_def slice_def)
next
  case (List depth pos l np)
  then show ?case
    using reads_advances(2) [OF List(4)]
    by (subst decode.simps) (simp add: peek_byte_def get_at_def slice_def ben_consts)
next
  case (Dict depth pos d np)
  then show ?case
    using reads_advances(3) [OF Dict(4)]
    by (subst decode.simps) (simp add: peek_byte_def get_at_def slice_def ben_consts)
next
  case (Bytes depth pos s np)
  then have "bytes ! pos \<noteq> INT_START" "bytes ! pos \<noteq> LIST_START" "bytes ! pos \<noteq> DICT_START"
    by (auto simp: ben_consts)
  with Bytes decode_bytes_bound [OF Bytes(5)] show ?case
    by (subst decode.simps) (simp add: peek_byte_def get_at_def slice_def)
next
  case (LEnd pos depth acc)
  then show ?case by (subst decode_list.simps) (simp add: peek_byte_def get_at_def)
next
  case (LStep pos depth b p acc l np)
  then show ?case by (subst decode_list.simps) (simp add: peek_byte_def get_at_def)
next
  case (DEnd pos depth acc)
  then show ?case by (subst decode_dict.simps) (simp add: peek_byte_def get_at_def)
next
  case (DStep pos key p acc depth v q d np)
  then show ?case by (subst decode_dict.simps) (simp add: peek_byte_def get_at_def)
qed

text \<open>How a successful run of one of the two loops goes on.\<close>

lemma decode_list_OkE:
  assumes "decode_list bytes pos opts depth acc = Ok (l, np)"
  obtains (End) "pos < length bytes" "bytes ! pos = BEN_END" "l = acc" "np = pos + 1"
    | (Step) b p where "pos < length bytes" "bytes ! pos \<noteq> BEN_END"
        "decode bytes pos opts (depth + 1) = Ok (b, p)"
        "decode_list bytes p opts depth (acc @ [b]) = Ok (l, np)"
  using assms unfolding decode_list.simps [of bytes pos opts depth]
  by (auto simp: res_simps split: if_splits)

lemma decode_dict_OkE:
  assumes "decode_dict bytes pos opts depth acc = Ok (d, np)"
  obtains (End) "pos < length bytes" "bytes ! pos = BEN_END" "d = acc" "np = pos + 1"
    | (Step) key p v q where "pos < length bytes" "bytes ! pos \<noteq> BEN_END"
        "decode_bytes bytes pos = Ok (key, p)" "\<not> key_out_of_order opts acc key"
        "decode bytes p opts (depth + 1) = Ok (v, q)" "btree_get acc key = None"
        "decode_dict bytes q opts depth (btree_insert key v acc) = Ok (d, np)"
  using assms unfolding decode_dict.simps [of bytes pos opts depth]
  by (auto simp: res_simps split: if_split_asm option.split_asm)

text \<open>Every successful run of the decoder is in the relation.\<close>

lemma decode_sound:
  "decode bytes pos opts depth = Ok (b, np) \<Longrightarrow> reads bytes opts pos depth b np"
  "decode_list bytes pos opts depth acc = Ok (l, np) \<Longrightarrow> reads_list bytes opts pos depth acc l np"
  "decode_dict bytes pos opts depth acc' = Ok (d, np) \<Longrightarrow> reads_dict bytes opts pos depth acc' d np"
proof (induction bytes pos opts depth and bytes pos opts depth acc and bytes pos opts depth acc'
    arbitrary: b np and l np and d np rule: decode_decode_list_decode_dict.induct)
  case (1 bytes pos opts depth)
  have l: "reads_list bytes opts (pos + 1) depth [] l np"
    if "depth < max_recursion opts" "pos < length bytes" "bytes ! pos = LIST_START"
      "decode_list bytes (pos + 1) opts depth [] = Ok (l, np)" for l np
    using that by (intro "1.IH"(1) [of LIST_START]) (auto simp: res_simps ben_consts)
  have d: "reads_dict bytes opts (pos + 1) depth [] d np"
    if "depth < max_recursion opts" "pos < length bytes" "bytes ! pos = DICT_START"
      "decode_dict bytes (pos + 1) opts depth [] = Ok (d, np)" for d np
    using that by (intro "1.IH"(2) [of DICT_START]) (auto simp: res_simps ben_consts)
  show ?case
    using "1.prems" unfolding decode.simps [of bytes pos opts depth]
    by (auto simp: res_simps not_le split: if_splits
        intro!: reads_reads_list_reads_dict.intros(1-4) l [simplified] d [simplified])
next
  case (2 bytes pos opts depth acc)
  from "2.prems" show ?case
  proof (cases rule: decode_list_OkE)
    case End then show ?thesis by (auto intro: LEnd [simplified])
  next
    case (Step b p)
    have c: "peek_byte bytes pos = Ok (bytes ! pos)" using Step by (simp add: res_simps)
    show ?thesis
      by (rule LStep [OF Step(1,2) "2.IH"(1) [OF c Step(2,3)] "2.IH"(2) [OF c Step(2,3) refl Step(4)]])
  qed
next
  case (3 bytes pos opts depth acc)
  from "3.prems" show ?case
  proof (cases rule: decode_dict_OkE)
    case End then show ?thesis by (auto intro: DEnd [simplified])
  next
    case (Step key p v q)
    have c: "peek_byte bytes pos = Ok (bytes ! pos)" using Step by (simp add: res_simps)
    show ?thesis
      by (rule DStep [OF Step(1-4) "3.IH"(1) [OF c Step(2,3) refl Step(4,5)] Step(6)
            "3.IH"(2) [OF c Step(2,3) refl Step(4,5) refl Step(6,7)]])
  qed
qed

lemma decode_iff_reads: "decode bytes pos opts depth = Ok (b, np) \<longleftrightarrow> reads bytes opts pos depth b np"
  using decode_sound(1) decode_complete(1) by blast

lemma reads_unique:
  "reads bytes opts pos depth b np \<Longrightarrow> reads bytes opts pos depth b' np' \<Longrightarrow> b' = b"
  unfolding decode_iff_reads [symmetric] by simp

lemma decode_bound:
  "decode bytes pos opts depth = Ok (b, np) \<Longrightarrow> pos < np \<and> np \<le> length bytes"
  "decode_list bytes pos opts depth acc = Ok (l, np) \<Longrightarrow> pos < np \<and> np \<le> length bytes"
  "decode_dict bytes pos opts depth acc' = Ok (d, np) \<Longrightarrow> pos < np \<and> np \<le> length bytes"
  by (blast dest: decode_sound(1) reads_advances(1),
      blast dest: decode_sound(2) reads_advances(2),
      blast dest: decode_sound(3) reads_advances(3))

section \<open>No panic\<close>

lemma decode_int_no_panic: "pos \<le> length bytes \<Longrightarrow> decode_int bytes pos delim \<noteq> Panic"
  by (auto simp: decode_int_def res_simps Let_def position_Some split: option.splits if_splits)

lemma decode_bytes_no_panic: "pos \<le> length bytes \<Longrightarrow> decode_bytes bytes pos \<noteq> Panic"
  using decode_int_bound [of bytes pos BYTE_LEN_END]
  by (auto simp: decode_bytes_def res_simps Let_def decode_int_no_panic split: if_splits)

lemma buffered_no_panic:
  "r \<noteq> Panic \<Longrightarrow> (\<And>a np. r = Ok (a, np) \<Longrightarrow> pos \<le> np \<and> np \<le> length bytes) \<Longrightarrow>
   try_res r (\<lambda>(a, np). try_res (slice bytes pos np) (\<lambda>buf. Ok (f a buf, np))) \<noteq> Panic"
  by (auto simp: res_simps)

lemma decode_no_panic:
  "decode bytes pos opts depth \<noteq> Panic"
  "decode_list bytes pos opts depth acc \<noteq> Panic"
  "decode_dict bytes pos opts depth acc' \<noteq> Panic"
proof (induction bytes pos opts depth and bytes pos opts depth acc and bytes pos opts depth acc'
    rule: decode_decode_list_decode_dict.induct)
  case (1 bytes pos opts depth)
  have "try_res (decode_int bytes (pos + 1) BEN_END) (\<lambda>(bencode, next_pos).
      try_res (slice bytes pos next_pos) (\<lambda>buf. Ok (RefInt bencode buf, next_pos))) \<noteq> Panic"
    if "pos < length bytes"
    using that by (intro buffered_no_panic decode_int_no_panic) (auto dest: decode_int_bound)
  moreover have "try_res (decode_list bytes (pos + 1) opts depth []) (\<lambda>(bencode, next_pos).
      try_res (slice bytes pos next_pos) (\<lambda>buf. Ok (RefList bencode buf, next_pos))) \<noteq> Panic"
    if "depth < max_recursion opts" "bytes ! pos = LIST_START" "pos < length bytes"
    using that "1"(1) [of LIST_START]
    by (intro buffered_no_panic) (auto simp: peek_byte_Ok ben_consts dest: decode_bound(2))
  moreover have "try_res (decode_dict bytes (pos + 1) opts depth []) (\<lambda>(bencode, next_pos).
      try_res (slice bytes pos next_pos) (\<lambda>buf. Ok (RefDict bencode buf, next_pos))) \<noteq> Panic"
    if "depth < max_recursion opts" "bytes ! pos = DICT_START" "pos < length bytes"
    using that "1"(2) [of DICT_START]
    by (intro buffered_no_panic) (auto simp: peek_byte_Ok ben_consts dest: decode_bound(3))
  moreover have "try_res (decode_bytes bytes pos) (\<lambda>(bencode, next_pos).
      try_res (slice bytes pos next_pos) (\<lambda>buf. Ok (RefBytes bencode buf, next_pos))) \<noteq> Panic"
    if "pos < length bytes"
    using that by (intro buffered_no_panic decode_bytes_no_panic) (auto dest: decode_bytes_bound)
  ultimately show ?case
    unfolding decode.simps [of bytes pos opts depth]
    by (simp add: try_res_eq_Panic [of "peek_byte bytes pos"] peek_byte_Ok not_le)
next
  case (2 bytes pos opts depth acc)
  then show ?case
    unfolding decode_list.simps [of bytes pos opts depth]
    by (auto simp: try_res_eq_Panic split: if_splits)
next
  case (3 bytes pos opts depth acc)
  then show ?case
    unfolding decode_dict.simps [of bytes pos opts depth]
    by (auto simp: try_res_eq_Panic peek_byte_Ok decode_bytes_no_panic
        split: if_split_asm option.split_asm)
qed

section \<open>What a successful decode returns\<close>

lemma fold_max_le: "fold max xs a \<le> n \<longleftrightarrow> a \<le> n \<and> (\<forall>x \<in> set xs. x \<le> n)" for n :: nat
  by (induction xs arbitrary: a) auto

lemma height_list_le: "height (MutList l) \<le> Suc n \<longleftrightarrow> (\<forall>b \<in> set l. height b \<le> n)"
  by (auto simp: fold_max_le)

lemma height_dict_le: "height (MutDict d) \<le> Suc n \<longleftrightarrow> (\<forall>(k, v) \<in> set d. height v \<le> n)"
  by (auto simp: fold_max_le)

declare height.simps(3,4) [simp del]

lemma btree_inv_map_values:
  "btree_inv (map (\<lambda>(k, v). (k, f v)) d) \<longleftrightarrow> btree_inv d"
proof -
  have "map fst (map (\<lambda>(k, v). (k, f v)) d) = map fst d" by auto
  then show ?thesis by (simp only: btree_inv_def)
qed

lemma decode_bytes_length: "decode_bytes bytes pos = Ok (s, np) \<Longrightarrow> length s \<le> length bytes"
  by (auto simp: decode_bytes_def res_simps Let_def split: if_splits)

lemma set_btree_insert: "(k', v') \<in> set (btree_insert k v m) \<Longrightarrow> (k', v') = (k, v) \<or> (k', v') \<in> set m"
  by (induction k v m rule: btree_insert.induct) (auto split: if_splits)

lemma reads_height:
  "reads bytes opts pos depth b np \<Longrightarrow> depth + height (erase b) \<le> max_recursion opts"
  "reads_list bytes opts pos depth acc l np \<Longrightarrow>
    \<forall>b \<in> set acc. depth + 1 + height (erase b) \<le> max_recursion opts \<Longrightarrow>
    \<forall>b \<in> set l. depth + 1 + height (erase b) \<le> max_recursion opts"
  "reads_dict bytes opts pos depth acc' d np \<Longrightarrow>
    \<forall>v \<in> snd ` set acc'. depth + 1 + height (erase v) \<le> max_recursion opts \<Longrightarrow>
    \<forall>v \<in> snd ` set d. depth + 1 + height (erase v) \<le> max_recursion opts"
proof (induction rule: reads_reads_list_reads_dict.inducts)
  case (List depth pos l np)
  then have "height (MutList (map erase l)) \<le> Suc (max_recursion opts - depth - 1)"
    unfolding height_list_le by fastforce
  with List(1) show ?case by simp
next
  case (Dict depth pos d np)
  then have "height (MutDict (map (\<lambda>(k, v). (k, erase v)) d)) \<le> Suc (max_recursion opts - depth - 1)"
    unfolding height_dict_le by fastforce
  with Dict(1) show ?case by simp
next
  case (LStep pos depth b p acc l np)
  from LStep(4,7) show ?case by (intro LStep(6)) auto
next
  case (DStep pos key p acc depth v q d np)
  from DStep(6,10) show ?case by (intro DStep(8)) (auto dest!: set_btree_insert)
qed simp_all

lemma reads_wf:
  assumes len: "length bytes < 2 ^ 63"
  shows "reads bytes opts pos depth b np \<Longrightarrow> wf_mut (erase b)"
    and "reads_list bytes opts pos depth acc l np \<Longrightarrow> \<forall>b \<in> set acc. wf_mut (erase b) \<Longrightarrow>
      \<forall>b \<in> set l. wf_mut (erase b)"
    and "reads_dict bytes opts pos depth acc' d np \<Longrightarrow> btree_inv acc' \<Longrightarrow>
      \<forall>(k, v) \<in> set acc'. length k < 2 ^ 63 \<and> wf_mut (erase v) \<Longrightarrow>
      btree_inv d \<and> (\<forall>(k, v) \<in> set d. length k < 2 ^ 63 \<and> wf_mut (erase v))"
proof (induction rule: reads_reads_list_reads_dict.inducts)
  case (List depth pos l np)
  then show ?case by (simp add: list_all_iff)
next
  case (Dict depth pos d np)
  then show ?case by (auto simp: list_all_iff btree_inv_map_values)
next
  case (Bytes depth pos s np)
  then show ?case using len decode_bytes_length [of bytes pos s np] by simp
next
  case (LStep pos depth b p acc l np)
  from LStep(4,7) show ?case by (intro LStep(6)) auto
next
  case (DStep pos key p acc depth v q d np)
  have "length key < 2 ^ 63" using len decode_bytes_length [OF DStep(3)] by simp
  with DStep(6,11) show ?case
    by (intro DStep(8) btree_inv_insert DStep(10)) (auto dest!: set_btree_insert)
qed (simp, blast, blast)

section \<open>The encoder without its buffer\<close>

lemma fold_snoc_concat:
  "(\<And>x acc. x \<in> set xs \<Longrightarrow> f x acc = acc @ g x) \<Longrightarrow> fold f xs acc = acc @ concat (map g xs)"
  by (induction xs arbitrary: acc) auto

lemma encode_append: "encode b bs = bs @ encode b []"
proof (induction b bs rule: encode.induct)
  case (3 l bs)
  have "fold encode l acc = acc @ concat (map (\<lambda>b. encode b []) l)" for acc
    using 3 by (intro fold_snoc_concat) blast
  then show ?case by simp
next
  case (4 d bs)
  have "fold (\<lambda>(key, v) bs. encode v (encode_bytes key bs)) (sort_key fst d) acc =
      acc @ concat (map (\<lambda>(key, v). encode_bytes key [] @ encode v []) (sort_key fst d))" for acc
  proof (intro fold_snoc_concat)
    fix e and bs :: bytes
    assume e: "e \<in> set (sort_key fst d)"
    obtain k v where kv: "e = (k, v)" by (cases e)
    have "encode v (encode_bytes k bs) = encode_bytes k bs @ encode v []"
      using 4 [OF refl e kv [symmetric]] by blast
    then show "(case e of (key, v) \<Rightarrow> \<lambda>bs. encode v (encode_bytes key bs)) bs =
        bs @ (case e of (key, v) \<Rightarrow> encode_bytes key [] @ encode v [])"
      by (simp add: kv encode_bytes_def)
  qed
  then show ?case by (simp add: Let_def)
qed (simp_all add: encode_int_def encode_bytes_def)

lemma encode_MutInt [wire_simps]:
  "BencodeMut_encode (MutInt n) = INT_START # i64_to_string n @ [BEN_END]"
  by (simp add: BencodeMut_encode_def encode_int_def)

lemma encode_MutBytes [wire_simps]:
  "BencodeMut_encode (MutBytes s) = to_dec (length s) @ BYTE_LEN_END # s"
  by (simp add: BencodeMut_encode_def encode_bytes_def)

lemma encode_MutList [wire_simps]:
  "BencodeMut_encode (MutList l) = LIST_START # concat (map BencodeMut_encode l) @ [BEN_END]"
proof -
  have "fold encode l [LIST_START] = [LIST_START] @ concat (map BencodeMut_encode l)"
    by (intro fold_snoc_concat) (metis encode_append BencodeMut_encode_def)
  then show ?thesis by (simp add: BencodeMut_encode_def)
qed

text \<open>One entry of a dictionary: the key as a byte string, then the value.\<close>

definition entry_bytes :: "bytes \<times> BencodeMut \<Rightarrow> bytes" where
  "entry_bytes e = BencodeMut_encode (MutBytes (fst e)) @ BencodeMut_encode (snd e)"

lemma encode_MutDict [wire_simps]:
  "btree_inv d \<Longrightarrow>
   BencodeMut_encode (MutDict d) = DICT_START # concat (map entry_bytes d) @ [BEN_END]"
proof -
  assume "btree_inv d"
  have "fold (\<lambda>(key, v) bs. encode v (encode_bytes key bs)) d [DICT_START] =
      [DICT_START] @ concat (map entry_bytes d)"
  proof (intro fold_snoc_concat)
    fix e and bs :: bytes
    show "(case e of (key, v) \<Rightarrow> \<lambda>bs. encode v (encode_bytes key bs)) bs = bs @ entry_bytes e"
      using encode_append [of "snd e" "encode_bytes (fst e) bs"]
      by (simp add: case_prod_beta entry_bytes_def BencodeMut_encode_def encode_bytes_def)
  qed
  then show ?thesis using \<open>btree_inv d\<close> by (simp add: BencodeMut_encode_def btree_sorted_id)
qed

section \<open>Decoding what the encoder wrote\<close>

lemma decode_int_exact:
  assumes "delim \<notin> set s" "from_utf8 s" "i64_from_str_radix s = Some n"
    and "length s > 1 \<Longrightarrow> s ! 0 \<noteq> 48 \<and> \<not> (s ! 0 = 45 \<and> s ! 1 = 48)"
  shows "decode_int (pre @ s @ delim # post) (length pre) delim = Ok (n, length pre + length s + 1)"
proof -
  have "position (\<lambda>n. n = delim) (s @ delim # post) = Some (length s)"
    using assms(1) by (intro position_append) auto
  then show ?thesis
    using assms(2-4) by (auto simp: decode_int_def Let_def slice_def sub_list_def)
qed

lemma to_dec_set: "c \<in> set (to_dec n) \<Longrightarrow> is_digit c"
  using to_dec_digits [of n] by (auto simp: list_all_iff)

lemma to_dec_no_padding: "length (to_dec n) > 1 \<Longrightarrow> to_dec n ! 0 \<noteq> 48"
proof (cases "n = 0")
  case False
  then show ?thesis using hd_to_dec [of n] by (simp add: hd_conv_nth)
qed simp

lemma to_dec_0th_not_minus: "to_dec n ! 0 \<noteq> 45"
  using to_dec_no_minus(1) [of n] by (simp add: hd_conv_nth)

lemma i64_to_string_shape:
  assumes "length (i64_to_string n) > 1"
  shows "i64_to_string n ! 0 \<noteq> 48 \<and> \<not> (i64_to_string n ! 0 = 45 \<and> i64_to_string n ! 1 = 48)"
proof (cases "sint n < 0")
  case True
  then show ?thesis using hd_to_dec [of "nat (- sint n)"] by (simp add: i64_to_string_def hd_conv_nth)
next
  case False
  with assms show ?thesis
    by (simp add: i64_to_string_def to_dec_no_padding to_dec_0th_not_minus)
qed

lemma decode_int_i64_to_string:
  "decode_int (pre @ i64_to_string n @ BEN_END # post) (length pre) BEN_END =
   Ok (n, length pre + length (i64_to_string n) + 1)"
proof (rule decode_int_exact)
  show "BEN_END \<notin> set (i64_to_string n)"
    by (auto simp: i64_to_string_def ben_consts is_digit_unat dest!: to_dec_set)
qed (fact from_utf8_i64_to_string parse_i64_to_string i64_to_string_shape)+

lemma decode_bytes_exact:
  assumes "length s < 2 ^ 63"
  shows "decode_bytes (pre @ BencodeMut_encode (MutBytes s) @ post) (length pre) =
    Ok (s, length pre + length (BencodeMut_encode (MutBytes s)))"
proof -
  let ?bs = "pre @ to_dec (length s) @ BYTE_LEN_END # s @ post"
  let ?start = "length pre + length (to_dec (length s)) + 1"
  have "decode_int ?bs (length pre) BYTE_LEN_END = Ok (of_nat (length s), ?start)"
  proof (rule decode_int_exact)
    show "BYTE_LEN_END \<notin> set (to_dec (length s))"
      by (auto simp: ben_consts is_digit_unat dest!: to_dec_set)
  qed (use assms in \<open>simp_all add: from_utf8_to_dec parse_to_dec to_dec_no_padding to_dec_0th_not_minus\<close>)
  moreover have "sint (of_nat (length s) :: i64) = int (length s)"
    using sint_of_int_i64 [of "int (length s)"] assms by simp
  moreover have "unat (of_nat (length s) :: i64) = length s"
    using assms by (simp add: unat_of_nat take_bit_eq_mod)
  ultimately show ?thesis by (simp add: decode_bytes_def wire_simps Let_def slice_def sub_list_def)
qed

lemma encode_hd:
  "wf_mut b \<Longrightarrow> BencodeMut_encode b \<noteq> [] \<and> hd (BencodeMut_encode b) \<noteq> BEN_END"
proof (cases b)
  case (MutBytes s)
  then show ?thesis
    using to_dec_set [of "hd (to_dec (length s))" "length s"] to_dec_not_Nil [of "length s"]
    by (auto simp: wire_simps ben_consts is_digit_unat)
qed (simp_all add: wire_simps, simp_all add: ben_consts)

text \<open>
  What the decoder reads where the encoding of \<open>b\<close> stands: \<open>b\<close> again, each part of it with
  its own encoding as buffer.
\<close>

fun ref_of :: "BencodeMut \<Rightarrow> BencodeRef" where
  "ref_of (MutInt n) = RefInt n (BencodeMut_encode (MutInt n))"
| "ref_of (MutBytes s) = RefBytes s (BencodeMut_encode (MutBytes s))"
| "ref_of (MutList l) = RefList (map ref_of l) (BencodeMut_encode (MutList l))"
| "ref_of (MutDict d) = RefDict (map (\<lambda>(k, v). (k, ref_of v)) d) (BencodeMut_encode (MutDict d))"

lemma erase_ref_of [simp]: "erase (ref_of b) = b"
proof (induction b rule: ref_of.induct)
  case (3 l)
  then show ?case by (simp add: map_idI)
next
  case (4 d)
  have "map (\<lambda>(k, v). (k, erase v)) (map (\<lambda>(k, v). (k, ref_of v)) d) = d"
    by (rule nth_equalityI) (auto simp: 4 split: prod.splits dest: nth_mem)
  then show ?case by simp
qed simp_all

lemma buffer_ref_of [simp]: "buffer (ref_of b) = BencodeMut_encode b"
  by (cases b) simp_all

definition reads_at :: "BencodeMut \<Rightarrow> BDecodeOpt \<Rightarrow> nat \<Rightarrow> bool" where
  "reads_at b opts depth \<longleftrightarrow>
     (\<forall>pre post. reads (pre @ BencodeMut_encode b @ post) opts (length pre) depth (ref_of b)
        (length pre + length (BencodeMut_encode b)))"

lemma sub_list_middle: "sub_list (pre @ xs @ post) (length pre) (length pre + length xs) = xs"
  by (simp add: sub_list_def)

lemma reads_encoded_list:
  "list_all wf_mut l \<Longrightarrow> \<forall>b \<in> set l. reads_at b opts (depth + 1) \<Longrightarrow>
   reads_list (pre @ concat (map BencodeMut_encode l) @ BEN_END # post) opts (length pre) depth
      acc (acc @ map ref_of l) (length pre + length (concat (map BencodeMut_encode l)) + 1)"
proof (induction l arbitrary: pre acc)
  case Nil
  then show ?case by (auto intro!: LEnd [simplified])
next
  case (Cons b l)
  let ?b = "BencodeMut_encode b" and ?l = "concat (map BencodeMut_encode l)"
  let ?bs = "pre @ ?b @ ?l @ BEN_END # post"
  have r: "reads ?bs opts (length pre) (depth + 1) (ref_of b) (length pre + length ?b)"
    using Cons.prems(2) by (simp add: reads_at_def)
  have rs: "reads_list ?bs opts (length pre + length ?b) depth (acc @ [ref_of b])
      ((acc @ [ref_of b]) @ map ref_of l) (length pre + length ?b + length ?l + 1)"
    using Cons.IH [of "pre @ ?b" "acc @ [ref_of b]"] Cons.prems by simp
  have "?b \<noteq> []" "hd ?b \<noteq> BEN_END" using encode_hd Cons.prems(1) by auto
  then have "length pre < length ?bs" "?bs ! length pre \<noteq> BEN_END"
    by (simp_all add: nth_append hd_conv_nth)
  from LStep [OF this r rs] show ?case by (simp add: ac_simps)
qed

lemma reads_encoded_dict:
  "list_all (\<lambda>(k, v). length k < 2 ^ 63 \<and> wf_mut v) d \<Longrightarrow> btree_inv d \<Longrightarrow> btree_inv acc \<Longrightarrow>
   \<forall>(k, v) \<in> set d. reads_at v opts (depth + 1) \<and> (\<forall>k' \<in> fst ` set acc. k' < k) \<Longrightarrow>
   reads_dict (pre @ concat (map entry_bytes d) @ BEN_END # post) opts (length pre) depth
      acc (acc @ map (\<lambda>(k, v). (k, ref_of v)) d) (length pre + length (concat (map entry_bytes d)) + 1)"
proof (induction d arbitrary: pre acc)
  case Nil
  then show ?case by (auto intro!: DEnd [simplified])
next
  case (Cons e d)
  obtain k v where e: "e = (k, v)" by (cases e)
  let ?k = "BencodeMut_encode (MutBytes k)" and ?v = "BencodeMut_encode v"
    and ?d = "concat (map entry_bytes d)" and ?r = "ref_of v"
  let ?bs = "pre @ ?k @ ?v @ ?d @ BEN_END # post"
  have k: "length k < 2 ^ 63" and above: "\<forall>k' \<in> fst ` set acc. k' < k"
    using Cons.prems by (auto simp: e)
  have "reads_at v opts (depth + 1)" using Cons.prems(4) by (simp add: e)
  then have r: "reads ?bs opts (length pre + length ?k) (depth + 1) ?r (length pre + length ?k + length ?v)"
    unfolding reads_at_def by (metis append.assoc length_append)
  have ins: "btree_insert k ?r acc = acc @ [(k, ?r)]" using above by (rule btree_insert_above)
  have inv: "btree_inv (acc @ [(k, ?r)])" using btree_inv_insert [OF Cons.prems(3), of k ?r] by (simp only: ins)
  have later: "\<forall>(k', v) \<in> set d. reads_at v opts (depth + 1) \<and> (\<forall>x \<in> fst ` set (acc @ [(k, ?r)]). x < k')"
    using Cons.prems(2,4) by (auto simp: e)
  have rs: "reads_dict ?bs opts (length pre + length ?k + length ?v) depth
      (btree_insert k ?r acc) ((acc @ [(k, ?r)]) @ map (\<lambda>(k, v). (k, ref_of v)) d)
      (length pre + length ?k + length ?v + length ?d + 1)"
    using Cons.IH [OF _ _ inv later, of "pre @ ?k @ ?v"] Cons.prems(1,2) unfolding ins
    by (auto simp: e add.assoc)
  have "\<not> key_out_of_order opts acc k" "btree_get acc k = None"
    using above by (auto simp: key_out_of_order_def btree_last_key_def btree_get_None
        split: option.splits bool.splits dest: last_in_set less_asym)
  moreover have "length pre < length ?bs" "?bs ! length pre \<noteq> BEN_END"
    using encode_hd [of "MutBytes k"] k by (auto simp: nth_append hd_conv_nth)
  moreover have "decode_bytes ?bs (length pre) = Ok (k, length pre + length ?k)"
    using decode_bytes_exact [OF k] by blast
  ultimately have "reads_dict ?bs opts (length pre) depth acc
      ((acc @ [(k, ?r)]) @ map (\<lambda>(k, v). (k, ref_of v)) d)
      (length pre + length ?k + length ?v + length ?d + 1)"
    using r rs by (blast intro: DStep)
  then show ?case by (simp add: e entry_bytes_def [of "(k, v)"] ac_simps)
qed

lemma reads_at_list:
  assumes "list_all wf_mut l" "\<forall>b \<in> set l. reads_at b opts (depth + 1)" "depth < max_recursion opts"
  shows "reads_at (MutList l) opts depth"
  unfolding reads_at_def
proof (intro allI)
  fix pre post
  let ?l = "BencodeMut_encode (MutList l)"
  have rs: "reads_list (pre @ ?l @ post) opts (length pre + 1) depth [] (map ref_of l) (length pre + length ?l)"
    using reads_encoded_list [OF assms(1,2), of "pre @ [LIST_START]" post "[]"]
    by (auto simp: wire_simps)
  have "(pre @ ?l @ post) ! length pre = LIST_START" by (simp add: wire_simps nth_append)
  from List [OF assms(3) _ this rs]
  show "reads (pre @ ?l @ post) opts (length pre) depth (ref_of (MutList l)) (length pre + length ?l)"
    by (simp add: sub_list_middle) (simp add: wire_simps)
qed

lemma reads_at_dict:
  assumes "list_all (\<lambda>(k, v). length k < 2 ^ 63 \<and> wf_mut v) d" "btree_inv d"
    and "\<forall>(k, v) \<in> set d. reads_at v opts (depth + 1)" "depth < max_recursion opts"
  shows "reads_at (MutDict d) opts depth"
  unfolding reads_at_def
proof (intro allI)
  fix pre post
  let ?d = "BencodeMut_encode (MutDict d)"
  have rs: "reads_dict (pre @ ?d @ post) opts (length pre + 1) depth [] (map (\<lambda>(k, v). (k, ref_of v)) d)
      (length pre + length ?d)"
    using reads_encoded_dict [OF assms(1,2), of "[]" opts depth "pre @ [DICT_START]" post] assms(3)
    by (auto simp: wire_simps assms(2))
  have "(pre @ ?d @ post) ! length pre = DICT_START" by (simp add: wire_simps nth_append assms(2))
  from Dict [OF assms(4) _ this rs]
  show "reads (pre @ ?d @ post) opts (length pre) depth (ref_of (MutDict d)) (length pre + length ?d)"
    by (simp add: sub_list_middle) (simp add: wire_simps assms(2))
qed

lemma reads_encoded:
  "wf_mut b \<Longrightarrow> depth + height b \<le> max_recursion opts \<Longrightarrow> reads_at b opts depth"
proof (induction b arbitrary: depth rule: wf_mut.induct)
  case (1 n)
  show ?case
    unfolding reads_at_def
  proof (intro allI)
    fix pre post
    let ?n = "BencodeMut_encode (MutInt n)"
    have "reads (pre @ ?n @ post) opts (length pre) depth
        (RefInt n (sub_list (pre @ ?n @ post) (length pre) (length pre + length ?n))) (length pre + length ?n)"
      using 1 decode_int_i64_to_string [of "pre @ [INT_START]" n post]
      by (intro Int) (simp_all add: wire_simps nth_append)
    then show "reads (pre @ ?n @ post) opts (length pre) depth (ref_of (MutInt n)) (length pre + length ?n)"
      by (simp add: sub_list_middle)
  qed
next
  case (2 s)
  show ?case
    unfolding reads_at_def
  proof (intro allI)
    fix pre post
    let ?s = "BencodeMut_encode (MutBytes s)"
    have "is_digit (to_dec (length s) ! 0)" by (rule to_dec_set [of _ "length s"]) simp
    then have "BYTE_LEN_LOW \<le> (pre @ ?s @ post) ! length pre" "(pre @ ?s @ post) ! length pre \<le> BYTE_LEN_HIGH"
      by (simp_all add: wire_simps nth_append is_digit_def ben_consts)
    with 2 decode_bytes_exact [of s pre post] have "reads (pre @ ?s @ post) opts (length pre) depth
        (RefBytes s (sub_list (pre @ ?s @ post) (length pre) (length pre + length ?s))) (length pre + length ?s)"
      by (intro Bytes) (simp_all add: wire_simps)
    then show "reads (pre @ ?s @ post) opts (length pre) depth (ref_of (MutBytes s)) (length pre + length ?s)"
      by (simp add: sub_list_middle)
  qed
next
  case (3 l)
  then have "depth < max_recursion opts" by (simp add: height.simps)
  then have "\<forall>b \<in> set l. reads_at b opts (depth + 1)"
    using 3 height_list_le [of l "max_recursion opts - depth - 1"] by (auto simp: list_all_iff)
  with 3 \<open>depth < _\<close> show ?case by (intro reads_at_list) simp_all
next
  case (4 d)
  then have "depth < max_recursion opts" by (simp add: height.simps)
  then have "\<forall>(k, v) \<in> set d. reads_at v opts (depth + 1)"
    using 4 height_dict_le [of d "max_recursion opts - depth - 1"] by (fastforce simp: list_all_iff)
  with 4 \<open>depth < _\<close> show ?case by (intro reads_at_dict) simp_all
qed

section \<open>Only the canonical encoding decodes\<close>

lemma decode_int_canonical:
  assumes "decode_int bytes pos delim = Ok (n, np)" "43 \<notin> set bytes"
  shows "sub_list bytes pos np = i64_to_string n @ [delim]"
proof -
  let ?rest = "sub_list bytes pos (length bytes)"
  from assms(1) obtain i where i: "pos \<le> length bytes" "position (\<lambda>c. c = delim) ?rest = Some i"
    "i64_from_str_radix (sub_list ?rest 0 i) = Some n" "np = pos + i + 1"
    and shape: "\<not> (length (sub_list ?rest 0 i) > 1 \<and> sub_list ?rest 0 i ! 0 = 45 \<and> sub_list ?rest 0 i ! 1 = 48)"
      "\<not> (length (sub_list ?rest 0 i) > 1 \<and> sub_list ?rest 0 i ! 0 = 48)"
    by (auto simp: decode_int_def res_simps Let_def split: option.split_asm if_split_asm)
  have "sub_list ?rest 0 i = i64_to_string n"
    using shape assms(2) set_sub_list [of ?rest 0 i] set_sub_list [of bytes pos "length bytes"]
    by (intro i64_canonical [OF i(3)]) auto
  moreover have "i < length bytes - pos" "bytes ! (pos + i) = delim"
    using i(1,2) by (auto simp: position_Some nth_sub_list)
  moreover have "sub_list ?rest 0 i = sub_list bytes pos (pos + i)"
    using \<open>i < _\<close> by (simp add: sub_list_def)
  moreover have "sub_list bytes (pos + i) (pos + i + 1) = [delim]"
    using \<open>i < _\<close> \<open>bytes ! _ = delim\<close> by (simp add: sub_list_single)
  ultimately show ?thesis using sub_list_append [of pos "pos + i" "pos + i + 1" bytes] by (simp add: i(4))
qed

lemma decode_bytes_canonical:
  assumes "decode_bytes bytes pos = Ok (s, np)" "43 \<notin> set bytes"
  shows "sub_list bytes pos np = BencodeMut_encode (MutBytes s)"
proof -
  from assms(1) obtain n st where n: "decode_int bytes pos BYTE_LEN_END = Ok (n, st)" "0 \<le> sint n"
    and s: "s = sub_list bytes st (st + unat n)" "np = st + unat n" "np \<le> length bytes"
    by (auto simp: decode_bytes_def res_simps Let_def split: if_split_asm)
  have "unat n = nat (sint n)" using n(2) by (rule unat_i64_nonneg)
  then have "length s = nat (sint n)" using s by simp
  moreover have "sub_list bytes pos st = i64_to_string n @ [BYTE_LEN_END]"
    by (rule decode_int_canonical [OF n(1) assms(2)])
  moreover have "sub_list bytes pos np = sub_list bytes pos st @ s"
    using decode_int_bound [OF n(1)] s by (simp add: sub_list_append)
  ultimately show ?thesis using n(2) by (simp add: wire_simps i64_to_string_def)
qed

text \<open>A key that is neither out of order nor a duplicate is above every key read so far.\<close>

lemma fresh_key_above:
  assumes "btree_inv acc" "check_key_sort opts" "\<not> key_out_of_order opts acc key" "btree_get acc key = None"
  shows "\<forall>k \<in> fst ` set acc. k < key"
proof
  fix k assume k: "k \<in> fst ` set acc"
  then have "acc \<noteq> []" by auto
  then have l: "btree_last_key acc = Some (fst (last acc))" "fst (last acc) \<in> fst ` set acc"
    by (auto simp: btree_last_key_def)
  have "k \<le> fst (last acc)" using btree_last_key_greatest [OF assms(1) l(1) k] .
  moreover have "fst (last acc) \<le> key" using assms(2,3) l by (simp add: key_out_of_order_def)
  moreover have "fst (last acc) \<noteq> key" using assms(4) l by (metis btree_get_None)
  ultimately show "k < key" by simp
qed

lemma reads_canonical:
  assumes plus: "43 \<notin> set bytes" and sorted: "check_key_sort opts"
  shows "reads bytes opts pos depth b np \<Longrightarrow> BencodeMut_encode (erase b) = sub_list bytes pos np"
    and "reads_list bytes opts pos depth acc l np \<Longrightarrow>
      \<exists>rs. l = acc @ rs \<and> sub_list bytes pos np = concat (map (\<lambda>b. BencodeMut_encode (erase b)) rs) @ [BEN_END]"
    and "reads_dict bytes opts pos depth acc' d np \<Longrightarrow> btree_inv acc' \<Longrightarrow> btree_inv d \<and>
      (\<exists>rs. d = acc' @ rs \<and>
        sub_list bytes pos np = concat (map (\<lambda>(k, v). entry_bytes (k, erase v)) rs) @ [BEN_END])"
proof (induction rule: reads_reads_list_reads_dict.inducts)
  case (Int depth pos n np)
  then show ?case
    using decode_int_canonical [OF Int(4) plus] decode_int_bound [OF Int(4)]
    by (simp add: wire_simps sub_list_Cons [of pos])
next
  case (List depth pos l np)
  then show ?case
    using reads_advances(2) [OF List(4)] by (simp add: wire_simps sub_list_Cons [of pos] comp_def)
next
  case (Dict depth pos d np)
  have "entry_bytes \<circ> (\<lambda>(k, v). (k, erase v)) = (\<lambda>(k, v). entry_bytes (k, erase v))" by auto
  with Dict show ?case
    using reads_advances(3) [OF Dict(4)]
    by (simp add: wire_simps sub_list_Cons [of pos] btree_inv_map_values)
next
  case (Bytes depth pos s np)
  then show ?case using decode_bytes_canonical [OF Bytes(5) plus] by simp
next
  case (LEnd pos depth acc)
  then show ?case by (simp add: sub_list_single)
next
  case (LStep pos depth b p acc l np)
  then obtain rs where "l = acc @ b # rs"
    "sub_list bytes p np = concat (map (\<lambda>b. BencodeMut_encode (erase b)) rs) @ [BEN_END]" by auto
  then show ?case
    using LStep(4) reads_advances(1) [OF LStep(3)] reads_advances(2) [OF LStep(5)]
      sub_list_append [of pos p np bytes]
    by (intro exI [of _ "b # rs"]) simp
next
  case (DEnd pos depth acc)
  then show ?case by (simp add: sub_list_single)
next
  case (DStep pos key p acc depth v q d np)
  have "btree_insert key v acc = acc @ [(key, v)]"
    using fresh_key_above [OF DStep(10) sorted DStep(4,9)] by (rule btree_insert_above)
  with DStep(8) [OF btree_inv_insert [OF DStep(10)]] obtain rs where rs: "btree_inv d"
    "d = acc @ (key, v) # rs"
    "sub_list bytes q np = concat (map (\<lambda>(k, v). entry_bytes (k, erase v)) rs) @ [BEN_END]" by auto
  have "sub_list bytes pos np = entry_bytes (key, erase v) @ sub_list bytes q np"
    using decode_bytes_canonical [OF DStep(3) plus] DStep(6) decode_bytes_bound [OF DStep(3)]
      reads_advances(1) [OF DStep(5)] reads_advances(3) [OF DStep(7)]
      sub_list_append [of pos p q bytes] sub_list_append [of pos q np bytes]
    by (simp add: entry_bytes_def)
  with rs show ?case by (intro conjI exI [of _ "(key, v) # rs"]) simp_all
qed

section \<open>The recursion limit\<close>

text \<open>Raising the limit does not change what is read.\<close>

lemma reads_mono:
  assumes "max_recursion opts \<le> max_recursion opts'" "check_key_sort opts' = check_key_sort opts"
  shows "reads bytes opts pos depth b np \<Longrightarrow> reads bytes opts' pos depth b np"
    and "reads_list bytes opts pos depth acc l np \<Longrightarrow> reads_list bytes opts' pos depth acc l np"
    and "reads_dict bytes opts pos depth acc' d np \<Longrightarrow> reads_dict bytes opts' pos depth acc' d np"
proof (induction rule: reads_reads_list_reads_dict.inducts)
  case (DStep pos key p acc depth v q d np)
  have "\<not> key_out_of_order opts' acc key" using DStep(4) assms(2) by (simp add: key_out_of_order_def)
  with DStep(1-3,6,8,9) show ?case by (auto intro: reads_reads_list_reads_dict.DStep)
qed (use assms(1) in \<open>auto intro: reads_reads_list_reads_dict.intros(1-7)
  intro: LEnd [simplified] DEnd [simplified]\<close>)

section \<open>Properties of the codec\<close>

lemma reads_buffer: "reads bytes opts pos depth b np \<Longrightarrow> buffer b = sub_list bytes pos np"
  by (cases rule: reads.cases) auto

lemma BencodeRef_decode_Ok [res_simps]:
  "BencodeRef_decode bytes opts = Ok r \<longleftrightarrow>
   (\<exists>np. reads bytes opts 0 0 r np \<and> (enforce_full_decode opts \<longrightarrow> np = length bytes))"
  by (fastforce simp: BencodeRef_decode_def try_res_eq_Ok decode_iff_reads split: if_splits)

lemma decode_encoded:
  assumes "wf_mut b" "height b \<le> max_recursion opts"
  shows "reads (BencodeMut_encode b) opts 0 0 (ref_of b) (length (BencodeMut_encode b))"
  using reads_encoded [of b 0 opts] assms by (auto simp: reads_at_def dest!: spec [of _ "[]"])

lemma decode_encode:
  assumes "wf_mut b" "height b \<le> max_recursion opts"
  shows "BencodeRef_decode (BencodeMut_encode b) opts = Ok (ref_of b)"
  using decode_encoded [OF assms] by (auto simp: res_simps)

text \<open>
  C1. Encoding a well-formed value and decoding the result gives the value back, for every
  choice of decode options whose recursion limit is at least the nesting depth of the value,
  and the buffer the decoded value reports is the whole encoding.
\<close>

theorem bencode_roundtrip:
  assumes "wf_mut b" "height b \<le> max_recursion opts"
  shows "\<exists>r. BencodeRef_decode (BencodeMut_encode b) opts = Ok r \<and> erase r = b \<and>
    buffer r = BencodeMut_encode b"
  using decode_encode [OF assms] by (simp del: ref_of.simps)

theorem bencode_roundtrip_witness:
  "\<exists>r. BencodeRef_decode (BencodeMut_encode (MutDict [([97], MutList [MutInt 5, MutBytes [0, 255]])]))
      BDecodeOpt_default = Ok r \<and>
    erase r = MutDict [([97], MutList [MutInt 5, MutBytes [0, 255]])] \<and>
    buffer r = BencodeMut_encode (MutDict [([97], MutList [MutInt 5, MutBytes [0, 255]])])"
  by (rule bencode_roundtrip) (simp_all add: height.simps BDecodeOpt_default_def BDecodeOpt_new_def)



text \<open>
  C15. No input makes the decoder panic: every slice it takes is in range and its recursion ends,
  so that every call gives a value or an error.
\<close>

theorem bencode_decode_no_panic: "BencodeRef_decode bytes opts \<noteq> Panic"
  by (auto simp: BencodeRef_decode_def try_res_eq_Panic decode_no_panic split: if_splits)



text \<open>
  The recursion limit is exact: the encoding of a well-formed value is accepted when and only
  when the value is nested no deeper than the limit.
\<close>

theorem bencode_recursion_limit:
  assumes "wf_mut b"
  shows "(\<exists>r. BencodeRef_decode (BencodeMut_encode b) opts = Ok r) \<longleftrightarrow> height b \<le> max_recursion opts"
proof
  let ?bs = "BencodeMut_encode b" and ?m = "max (height b) (max_recursion opts)"
  let ?opts = "opts\<lparr>max_recursion := ?m\<rparr>"
  assume "\<exists>r. BencodeRef_decode ?bs opts = Ok r"
  then obtain r np where r: "reads ?bs opts 0 0 r np" by (auto simp: res_simps)
  then have "reads ?bs ?opts 0 0 r np" by (rule reads_mono(1) [rotated 2]) simp_all
  moreover obtain r' where r': "reads ?bs ?opts 0 0 r' (length ?bs)" "erase r' = b"
    using decode_encoded [OF assms, of ?opts] by auto
  ultimately have "r' = r" using reads_unique by blast
  with reads_height(1) [OF r] r'(2) show "height b \<le> max_recursion opts" by simp
next
  assume "height b \<le> max_recursion opts"
  with decode_encoded [OF assms, of opts] show "\<exists>r. BencodeRef_decode (BencodeMut_encode b) opts = Ok r"
    by (auto simp: res_simps)
qed

theorem bencode_recursion_limit_witness:
  "(\<exists>r. BencodeRef_decode (BencodeMut_encode (MutList [MutList [MutInt 1]])) (BDecodeOpt_new 3 True True) = Ok r) \<and>
   \<not> (\<exists>r. BencodeRef_decode (BencodeMut_encode (MutList [MutList [MutInt 1]])) (BDecodeOpt_new 2 True True) = Ok r)"
  using bencode_recursion_limit [of "MutList [MutList [MutInt 1]]" "BDecodeOpt_new 3 True True"]
    bencode_recursion_limit [of "MutList [MutList [MutInt 1]]" "BDecodeOpt_new 2 True True"]
  by (simp add: height.simps BDecodeOpt_new_def)

lemma set_inserts:
  "set (fold (\<lambda>(k, v) m. fst (btree_dict_insert m k v)) es m) \<subseteq> set es \<union> set m"
proof (induction es arbitrary: m)
  case (Cons e es)
  show ?case
    using Cons.IH [of "btree_insert (fst e) (snd e) m"] set_btree_insert [of _ _ "fst e" "snd e" m]
    by (cases e) (fastforce simp: btree_dict_insert_def)
qed simp

lemma map_of_erase: "map_of (map (\<lambda>(k, v). (k, erase v)) d) k = map_option erase (map_of d k)"
  by (induction d) auto

text \<open>
  A dictionary written with \<open>ben_map!\<close>, encoded, decoded and read with the conversion
  functions answers every key with the last value given for it, and a key that was not given
  with the error for a missing key.
\<close>

theorem ben_map_lookup:
  assumes "\<forall>(k, v) \<in> set es. length k < 2 ^ 63 \<and> wf_mut v \<and> height v < max_recursion opts"
    and "0 < max_recursion opts"
  shows "\<exists>b r d. ben_map es = Ok b \<and> BencodeRef_decode (BencodeMut_encode b) opts = Ok r \<and>
    convert_dict h r error_key = Ok d \<and>
    (\<forall>k. (case map_of (rev es) k of
        None \<Rightarrow> convert_lookup h d k = Err (h (MissingKey k))
      | Some v \<Rightarrow> \<exists>rv. convert_lookup h d k = Ok rv \<and> erase rv = v))"
proof -
  let ?m = "fold (\<lambda>(k, v) m. fst (btree_dict_insert m k v)) es []"
  have inv: "btree_inv ?m" by (rule btree.inv_inserts) simp
  have ok: "\<forall>(k, v) \<in> set ?m. length k < 2 ^ 63 \<and> wf_mut v \<and> height v \<le> max_recursion opts - 1"
    using set_inserts [of es "[]"] assms by fastforce
  then have "height (MutDict ?m) \<le> Suc (max_recursion opts - 1)" unfolding height_dict_le by fastforce
  moreover have "wf_mut (MutDict ?m)" using inv ok by (auto simp: list_all_iff)
  ultimately obtain r where r: "BencodeRef_decode (BencodeMut_encode (MutDict ?m)) opts = Ok r"
      "erase r = MutDict ?m"
    using decode_encode [of "MutDict ?m" opts] assms(2) by (auto simp del: ref_of.simps)
  from r(2) obtain d buf where d: "r = RefDict d buf" "map (\<lambda>(k, v). (k, erase v)) d = ?m"
    by (cases r) auto
  have get: "map_option erase (btree_get d k) = map_of (rev es) k" for k
    using fun_cong [OF btree.lookup_inserts [of "[]" es], of k] map_of_erase [of d k]
    by (simp add: d(2) btree_lookup_def btree_get_def map_add_def split: option.splits)
  have "case map_of (rev es) k of
        None \<Rightarrow> convert_lookup h d k = Err (h (MissingKey k))
      | Some v \<Rightarrow> \<exists>rv. convert_lookup h d k = Ok rv \<and> erase rv = v" for k
    unfolding get [symmetric] by (simp add: convert_lookup_def btree_lookup_def split: option.split)
  with r(1) d(1) show ?thesis by (auto simp: ben_map_def new_dict_def convert_dict_def)
qed

theorem ben_map_lookup_witness:
  "\<exists>b r d. ben_map [([97], MutInt 1), ([97], MutInt 2)] = Ok b \<and>
    BencodeRef_decode (BencodeMut_encode b) BDecodeOpt_default = Ok r \<and>
    convert_dict id r [] = Ok d \<and> (\<exists>rv. convert_lookup id d [97] = Ok rv \<and> erase rv = MutInt 2) \<and>
    convert_lookup id d [98] = Err (MissingKey [98])"
proof -
  let ?es = "[([97], MutInt 1), ([97], MutInt 2)] :: (bytes \<times> BencodeMut) list"
  obtain b r d where brd: "ben_map ?es = Ok b" "BencodeRef_decode (BencodeMut_encode b) BDecodeOpt_default = Ok r"
    "convert_dict id r [] = Ok d"
    and get: "\<And>k. (case map_of (rev ?es) k of
        None \<Rightarrow> convert_lookup id d k = Err (id (MissingKey k))
      | Some v \<Rightarrow> \<exists>rv. convert_lookup id d k = Ok rv \<and> erase rv = v)"
    using ben_map_lookup [of ?es BDecodeOpt_default id "[]"]
    by (auto simp: BDecodeOpt_default_def BDecodeOpt_new_def)
  from brd get [of "[97]"] get [of "[98]"] show ?thesis by auto
qed

text \<open>
  The parser of integers takes a plus sign, and behind it any number of leading zeros: an
  integer so written decodes, although the encoder never writes it.
\<close>

theorem bencode_plus_sign_accepted:
  assumes "ds \<noteq> []" "list_all is_digit ds" "dec_val 0 ds < 2 ^ 63" "0 < max_recursion opts"
  shows "\<exists>r. BencodeRef_decode (INT_START # 43 # ds @ [BEN_END]) opts = Ok r \<and>
    erase r = MutInt (word_of_int (dec_val 0 ds)) \<and>
    BencodeMut_encode (erase r) \<noteq> INT_START # 43 # ds @ [BEN_END]"
proof -
  let ?n = "word_of_int (dec_val 0 ds) :: i64" and ?bs = "INT_START # 43 # ds @ [BEN_END]"
  have "decode_int ([INT_START] @ (43 # ds) @ BEN_END # []) (length [INT_START]) BEN_END =
      Ok (?n, length [INT_START] + length (43 # ds) + 1)"
  proof (rule decode_int_exact)
    show "BEN_END \<notin> set (43 # ds)" using assms(2) by (auto simp: ben_consts list_all_iff is_digit_unat)
    show "from_utf8 (43 # ds)" using digits_ascii [OF assms(2)] by (intro from_utf8_ascii) simp
    show "i64_from_str_radix (43 # ds) = Some ?n"
      using assms(1-3) by (simp add: i64_from_str_radix_def parse_pos_eq)
  qed simp
  then have "reads ?bs opts 0 0 (RefInt ?n (sub_list ?bs 0 (length ?bs))) (length ?bs)"
    using assms(4) by (intro Int) simp_all
  moreover have "i64_to_string ?n ! 0 \<noteq> 43"
    using to_dec_no_minus(2) by (auto simp: i64_to_string_def hd_conv_nth)
  then have "i64_to_string ?n \<noteq> 43 # ds" by auto
  ultimately show ?thesis
    by (intro exI [of _ "RefInt ?n (sub_list ?bs 0 (length ?bs))"])
      (auto simp: res_simps wire_simps append_eq_append_conv2 append_eq_Cons_conv)
qed

theorem bencode_plus_sign_accepted_witness:
  "\<exists>r. BencodeRef_decode [105, 43, 48, 53, 101] BDecodeOpt_default = Ok r \<and> erase r = MutInt 5"
  using bencode_plus_sign_accepted [of "[48, 53]" BDecodeOpt_default]
  by (auto simp: BDecodeOpt_default_def BDecodeOpt_new_def is_digit_def ben_consts)

end
