(* ===== verification/Trans_Ids.thy ===== *)
theory Trans_Ids
  imports Prelude "HOL-Library.Multiset"
begin

text \<open>
  \<open>bip_util/src/trans\<close> and \<open>fisher_shuffle\<close> of \<open>lib.rs\<close>: the generators of transaction ids.
  The integer type is a word of any width; a call of \<open>rand::random\<close> is a value of an argument.
  The trait \<open>TransactionIds\<close> is the locale \<open>transaction_ids\<close>: no id comes back within a
  window, which both generators keep.
\<close>

section \<open>fisher_shuffle\<close>

text \<open>
  One swap: both elements are taken out with \<open>mem::replace\<close>, which leaves a default value
  \<open>d\<close> behind, and put back crosswise. \<open>rnd i\<close> is the number drawn for index \<open>i\<close>.
\<close>

definition swap_step :: "'a \<Rightarrow> (nat \<Rightarrow> u64) \<Rightarrow> nat \<Rightarrow> 'a list \<Rightarrow> 'a list" where
  "swap_step d rnd i list =
     (let swap_index = unat (rnd i) mod (length list - i) + i;
          src_val = list ! i; list1 = list[i := d];
          dst_val = list1 ! swap_index; list2 = list1[swap_index := d];
          list3 = list2[i := dst_val]
      in list3[swap_index := src_val])"

definition fisher_shuffle :: "'a \<Rightarrow> (nat \<Rightarrow> u64) \<Rightarrow> 'a list \<Rightarrow> 'a list" where
  "fisher_shuffle d rnd list = fold (swap_step d rnd) [0..<length list] list"

lemma length_swap_step [simp]: "length (swap_step d rnd i xs) = length xs"
  by (simp add: swap_step_def Let_def)

lemma swap_step_eq:
  assumes "i < length xs" and j_def: "j = unat (rnd i) mod (length xs - i) + i"
  shows "swap_step d rnd i xs = xs[i := xs ! j, j := xs ! i]"
proof -
  have "j < length xs"
    using assms mod_less_divisor [of "length xs - i" "unat (rnd i)"] unfolding j_def by linarith
  have "swap_step d rnd i xs = xs[i := d, j := d, i := xs[i := d] ! j, j := xs ! i]"
    by (simp add: swap_step_def Let_def j_def)
  also have "\<dots> = xs[i := xs ! j, j := xs ! i]"
    using assms(1) \<open>j < length xs\<close> by (intro nth_equalityI) (simp_all add: nth_list_update)
  finally show ?thesis .
qed

lemma mset_swap_step: "i < length xs \<Longrightarrow> mset (swap_step d rnd i xs) = mset xs"
proof -
  assume i: "i < length xs"
  let ?j = "unat (rnd i) mod (length xs - i) + i"
  have "?j < length xs" using i mod_less_divisor [of "length xs - i" "unat (rnd i)"] by linarith
  then show ?thesis using i by (simp add: swap_step_eq [OF i refl] mset_swap)
qed

lemma fold_swap_step:
  "n \<le> length xs \<Longrightarrow> mset (fold (swap_step d rnd) [0..<n] xs) = mset xs \<and>
   length (fold (swap_step d rnd) [0..<n] xs) = length xs"
  by (induction n) (auto simp: mset_swap_step)

lemma mset_fisher_shuffle: "mset (fisher_shuffle d rnd xs) = mset xs"
  by (simp add: fisher_shuffle_def fold_swap_step)

lemma set_fisher_shuffle [simp]: "set (fisher_shuffle d rnd xs) = set xs"
  by (rule mset_eq_setD [OF mset_fisher_shuffle])

lemma length_fisher_shuffle [simp]: "length (fisher_shuffle d rnd xs) = length xs"
  by (rule mset_eq_length [OF mset_fisher_shuffle])

lemma distinct_fisher_shuffle [simp]: "distinct (fisher_shuffle d rnd xs) = distinct xs"
  by (metis mset_fisher_shuffle mset_eq_imp_distinct_iff)

section \<open>SequentialIds\<close>

record 't SequentialIds =
  next_id :: 't

definition SequentialIds_start_at :: "'w::len word \<Rightarrow> 'w word SequentialIds" where
  "SequentialIds_start_at start = \<lparr>next_id = start\<rparr>"

definition SequentialIds_new :: "'w::len word SequentialIds" where
  "SequentialIds_new = SequentialIds_start_at 0"

definition seq_generate :: "'w::len word SequentialIds \<Rightarrow> 'w word \<times> 'w word SequentialIds" where
  "seq_generate self = (let curr_id = next_id self in (curr_id, self\<lparr>next_id := next_id self + 1\<rparr>))"

section \<open>LocallyShuffledIds\<close>

definition TRANSACTION_ID_PREALLOC_LEN :: nat where "TRANSACTION_ID_PREALLOC_LEN = 2048"

record 't LocallyShuffledIds =
  sequential :: "'t SequentialIds"
  stored_ids :: "'t list"

definition LocallyShuffledIds_start_at :: "'w::len word \<Rightarrow> 'w word LocallyShuffledIds" where
  "LocallyShuffledIds_start_at start =
     \<lparr>sequential = SequentialIds_start_at start, stored_ids = []\<rparr>"

definition LocallyShuffledIds_new :: "'w::len word LocallyShuffledIds" where
  "LocallyShuffledIds_new = LocallyShuffledIds_start_at 0"

text \<open>
  The loop of \<open>refill_stored_ids\<close>, with the variables it changes. For an unsigned type the
  smallest value is 0 and the largest has every bit set.
\<close>

function refill_loop ::
  "bool \<Rightarrow> bool \<Rightarrow> nat \<Rightarrow> 'w::len word LocallyShuffledIds \<Rightarrow> 'w word LocallyShuffledIds" where
  "refill_loop contains_min_value contains_max_value num_ids_generated self =
     (if num_ids_generated < TRANSACTION_ID_PREALLOC_LEN \<and> (\<not> contains_min_value \<or> \<not> contains_max_value)
      then (let (next_id, sequential') = seq_generate (sequential self)
            in refill_loop (contains_min_value \<or> next_id = 0) (contains_max_value \<or> next_id = - 1)
                 (num_ids_generated + 1)
                 (self\<lparr>sequential := sequential', stored_ids := stored_ids self @ [next_id]\<rparr>))
      else self)"
  by pat_completeness auto

termination refill_loop
  by (relation "measure (\<lambda>(_, _, n, _). TRANSACTION_ID_PREALLOC_LEN - n)") auto

declare refill_loop.simps [simp del]

definition refill_stored_ids :: "(nat \<Rightarrow> u64) \<Rightarrow> 'w::len word LocallyShuffledIds \<Rightarrow> 'w word LocallyShuffledIds" where
  "refill_stored_ids rnd self =
     (let self = self\<lparr>stored_ids := []\<rparr>;
          self = refill_loop False False 0 self
      in self\<lparr>stored_ids := fisher_shuffle 0 rnd (stored_ids self)\<rparr>)"

section \<open>What one refill stores\<close>

text \<open>The ids \<open>s, s + 1, ...\<close>, \<open>n\<close> of them.\<close>

definition id_run :: "'w::len word \<Rightarrow> nat \<Rightarrow> 'w word list" where
  "id_run s n = map (\<lambda>i. s + of_nat i) [0..<n]"

lemma length_id_run [simp]: "length (id_run s n) = n"
  by (simp add: id_run_def)

lemma id_run_Suc: "id_run s (Suc n) = id_run s n @ [s + of_nat n]"
  by (simp add: id_run_def)

lemma id_run_append: "id_run s (m + n) = id_run s m @ id_run (s + of_nat m) n"
  by (induction n) (simp_all add: id_run_Suc add.assoc, simp add: id_run_def)

lemma of_nat_word_inj:
  "m < 2 ^ LENGTH('w) \<Longrightarrow> n < 2 ^ LENGTH('w) \<Longrightarrow> (of_nat m :: 'w::len word) = of_nat n \<longleftrightarrow> m = n"
proof -
  assume "m < 2 ^ LENGTH('w)" "n < 2 ^ LENGTH('w)"
  then have "unat (of_nat m :: 'w word) = m" "unat (of_nat n :: 'w word) = n"
    by (simp_all add: unat_of_nat take_bit_nat_eq_self)
  then show ?thesis by metis
qed

lemma distinct_id_run: "n \<le> 2 ^ LENGTH('w) \<Longrightarrow> distinct (id_run (s :: 'w::len word) n)"
  unfolding id_run_def by (auto simp: distinct_map inj_on_def of_nat_word_inj)

lemma id_run_UNIV: "n = 2 ^ LENGTH('w) \<Longrightarrow> set (id_run (s :: 'w::len word) n) = UNIV"
proof -
  assume n: "n = 2 ^ LENGTH('w)"
  then have "card (set (id_run s n)) = card (UNIV :: 'w word set)"
    using distinct_card [OF distinct_id_run [of n s]] by (simp add: card_word)
  then show ?thesis by (intro card_subset_eq) auto
qed

text \<open>The state of the loop after \<open>n\<close> ids from \<open>s\<close> on.\<close>

definition refill_state :: "'w::len word \<Rightarrow> nat \<Rightarrow> 'w word LocallyShuffledIds \<Rightarrow> bool" where
  "refill_state s n self \<longleftrightarrow>
     stored_ids self = id_run s n \<and> next_id (sequential self) = s + of_nat n \<and>
     n \<le> TRANSACTION_ID_PREALLOC_LEN \<and> n \<le> 2 ^ LENGTH('w)"

lemma refill_loop_state:
  fixes self :: "'w::len word LocallyShuffledIds"
  assumes "refill_state s n self" "cmin \<longleftrightarrow> 0 \<in> set (id_run s n)" "cmax \<longleftrightarrow> - 1 \<in> set (id_run s n)"
  shows "\<exists>m \<ge> n. refill_state s m (refill_loop cmin cmax n self) \<and> (\<not> cmin \<and> n = 0 \<longrightarrow> 0 < m)"
  using assms
proof (induction cmin cmax n self rule: refill_loop.induct)
  case (1 cmin cmax n self)
  let ?self = "self\<lparr>sequential := \<lparr>next_id = s + of_nat n + 1\<rparr>, stored_ids := stored_ids self @ [s + of_nat n]\<rparr>"
    and ?cmin = "cmin \<or> s + of_nat n = 0" and ?cmax = "cmax \<or> s + of_nat n = - 1"
  have gen: "seq_generate (sequential self) = (s + of_nat n, \<lparr>next_id = s + of_nat n + 1\<rparr>)"
    using "1.prems"(1) by (cases "sequential self") (simp add: refill_state_def seq_generate_def)
  show ?case
  proof (cases "n < TRANSACTION_ID_PREALLOC_LEN \<and> (\<not> cmin \<or> \<not> cmax)")
    case True
    have "n \<noteq> 2 ^ LENGTH('w)" using True "1.prems"(2,3) id_run_UNIV [of n s] by auto
    then have "refill_state s (n + 1) ?self"
      using "1.prems"(1) True by (simp add: refill_state_def id_run_Suc add.assoc)
    moreover have "?cmin \<longleftrightarrow> 0 \<in> set (id_run s (n + 1))" "?cmax \<longleftrightarrow> - 1 \<in> set (id_run s (n + 1))"
      using "1.prems"(2,3) by (auto simp: id_run_Suc)
    ultimately obtain m where "m \<ge> n + 1" "refill_state s m (refill_loop ?cmin ?cmax (n + 1) ?self)"
      using "1.IH" [OF True gen [symmetric] refl] by auto
    moreover have "refill_loop cmin cmax n self = refill_loop ?cmin ?cmax (n + 1) ?self"
      using True gen by (subst refill_loop.simps) simp
    ultimately show ?thesis by (intro exI [of _ m]) simp
  next
    case False
    then have "refill_loop cmin cmax n self = self" by (subst refill_loop.simps) auto
    with "1.prems"(1) False show ?thesis
      by (intro exI [of _ n]) (auto simp: TRANSACTION_ID_PREALLOC_LEN_def)
  qed
qed

text \<open>A refill stores a shuffled run of new ids, none twice, and at least one.\<close>

lemma refill_stored:
  fixes self :: "'w::len word LocallyShuffledIds"
  obtains m where "0 < m" "m \<le> TRANSACTION_ID_PREALLOC_LEN" "m \<le> 2 ^ LENGTH('w)"
    "mset (stored_ids (refill_stored_ids rnd self)) = mset (id_run (next_id (sequential self)) m)"
    "next_id (sequential (refill_stored_ids rnd self)) = next_id (sequential self) + of_nat m"
proof -
  let ?s = "next_id (sequential self)" and ?self = "self\<lparr>stored_ids := []\<rparr>"
  have "refill_state ?s 0 ?self" by (simp add: refill_state_def id_run_def)
  from refill_loop_state [OF this, of False False]
  obtain m where "refill_state ?s m (refill_loop False False 0 ?self)" "0 < m"
    by (auto simp: id_run_def)
  then show thesis
    by (intro that [of m]) (auto simp: refill_state_def refill_stored_ids_def mset_fisher_shuffle)
qed

lemma refill_nonempty: "stored_ids (refill_stored_ids rnd self) \<noteq> []"
proof -
  obtain m where m: "0 < m"
    "mset (stored_ids (refill_stored_ids rnd self)) = mset (id_run (next_id (sequential self)) m)"
    by (rule refill_stored)
  from mset_eq_length [OF m(2)] m(1) show ?thesis by auto
qed

section \<open>Generating shuffled ids\<close>

text \<open>\<open>generate\<close> pops an id, or refills and calls itself.\<close>

function shuffled_generate ::
  "(nat \<Rightarrow> u64) \<Rightarrow> 'w::len word LocallyShuffledIds \<Rightarrow> 'w word \<times> 'w word LocallyShuffledIds" where
  "shuffled_generate rnd self =
     (if stored_ids self \<noteq> []
      then (last (stored_ids self), self\<lparr>stored_ids := butlast (stored_ids self)\<rparr>)
      else shuffled_generate rnd (refill_stored_ids rnd self))"
  by pat_completeness auto

termination shuffled_generate
  by (relation "measure (\<lambda>(_, self). if stored_ids self = [] then 1 else 0)")
    (auto simp: refill_nonempty)

declare shuffled_generate.simps [simp del]

section \<open>TransactionIds\<close>

text \<open>The results of calls of \<open>generate\<close> one after the other; \<open>r\<close> is what a call draws.\<close>

fun generate_all :: "('r \<Rightarrow> 's \<Rightarrow> 'x \<times> 's) \<Rightarrow> 'r list \<Rightarrow> 's \<Rightarrow> 'x list" where
  "generate_all gen [] s = []"
| "generate_all gen (r # rs) s = (case gen r s of (x, s') \<Rightarrow> x # generate_all gen rs s')"

text \<open>
  The contract: \<open>issued I s\<close> says that the ids handed out so far are \<open>I\<close>; as long as fewer
  than \<open>window\<close> are, the next one is new.
\<close>

locale transaction_ids =
  fixes generate :: "'r \<Rightarrow> 's \<Rightarrow> 'x \<times> 's"
    and issued :: "'x set \<Rightarrow> 's \<Rightarrow> bool"
    and window :: nat
  assumes issued_finite: "issued I s \<Longrightarrow> finite I"
    and generate_new: "issued I s \<Longrightarrow> card I < window \<Longrightarrow> generate r s = (x, s') \<Longrightarrow>
      x \<notin> I \<and> issued (insert x I) s'"
begin

lemma generate_all_distinct:
  "issued I s \<Longrightarrow> card I + length rs \<le> window \<Longrightarrow>
   distinct (generate_all generate rs s) \<and> set (generate_all generate rs s) \<inter> I = {}"
proof (induction rs arbitrary: I s)
  case (Cons r rs)
  obtain x s' where gen: "generate r s = (x, s')" by (cases "generate r s")
  have new: "x \<notin> I" "issued (insert x I) s'" using generate_new [OF Cons.prems(1) _ gen] Cons.prems(2) by auto
  have "card (insert x I) = Suc (card I)" using issued_finite [OF Cons.prems(1)] new(1) by simp
  then show ?case using Cons.IH [OF new(2)] Cons.prems(2) gen new(1) by auto
qed simp

end

definition seq_issued :: "'w::len word set \<Rightarrow> 'w word SequentialIds \<Rightarrow> bool" where
  "seq_issued I self \<longleftrightarrow>
     (\<exists>s n. I = set (id_run s n) \<and> n \<le> 2 ^ LENGTH('w) \<and> next_id self = s + of_nat n)"

interpretation seq_ids: transaction_ids "\<lambda>_ :: unit. seq_generate"
  "seq_issued :: 'w::len word set \<Rightarrow> _" "2 ^ LENGTH('w)"
proof unfold_locales
  show "finite I" if "seq_issued I self" for I :: "'w word set" and self
    using that by (auto simp: seq_issued_def)
  fix I :: "'w word set" and self x self'
  assume inv: "seq_issued I self" and card: "card I < 2 ^ LENGTH('w)"
    and gen: "seq_generate self = (x, self')"
  from inv obtain s n where I: "I = set (id_run s n)" "n \<le> 2 ^ LENGTH('w)"
    "next_id self = s + of_nat n" by (auto simp: seq_issued_def)
  have "n < 2 ^ LENGTH('w)" using card I(1) distinct_card [OF distinct_id_run [OF I(2), of s]] by simp
  then have "distinct (id_run s (Suc n))" "next_id self' = s + of_nat (Suc n)" "x = s + of_nat n"
    using gen I(3) by (auto simp: seq_generate_def intro!: distinct_id_run)
  with \<open>n < _\<close> show "x \<notin> I \<and> seq_issued (insert x I) self'"
    unfolding seq_issued_def I(1) by (auto simp: id_run_Suc intro!: exI [of _ s] exI [of _ "Suc n"])
qed

text \<open>The ids a shuffled generator has handed out are a run without the ids still stored.\<close>

definition shuffled_issued :: "'w::len word set \<Rightarrow> 'w word LocallyShuffledIds \<Rightarrow> bool" where
  "shuffled_issued I self \<longleftrightarrow>
     (\<exists>s n. n \<le> 2 ^ LENGTH('w) \<and> next_id (sequential self) = s + of_nat n \<and> finite I \<and>
        mset (id_run s n) = mset_set I + mset (stored_ids self))"

lemma shuffled_issued_refill:
  fixes self :: "'w::len word LocallyShuffledIds"
  assumes "shuffled_issued I self" "stored_ids self = []"
    and "card I + TRANSACTION_ID_PREALLOC_LEN \<le> 2 ^ LENGTH('w)"
  shows "shuffled_issued I (refill_stored_ids rnd self)"
proof -
  from assms(1,2) obtain s n where n: "n \<le> 2 ^ LENGTH('w)" "next_id (sequential self) = s + of_nat n"
    "finite I" "mset (id_run s n) = mset_set I" by (auto simp: shuffled_issued_def)
  have "n = card I" using arg_cong [OF n(4), of size] by simp
  obtain m where m: "m \<le> TRANSACTION_ID_PREALLOC_LEN"
    "mset (stored_ids (refill_stored_ids rnd self)) = mset (id_run (next_id (sequential self)) m)"
    "next_id (sequential (refill_stored_ids rnd self)) = next_id (sequential self) + of_nat m"
    by (rule refill_stored)
  show ?thesis
    unfolding shuffled_issued_def using m n \<open>n = card I\<close> assms(3)
    by (intro exI [of _ s] exI [of _ "n + m"]) (simp add: id_run_append add.assoc)
qed

lemma shuffled_issued_pop:
  assumes "shuffled_issued I self" "stored_ids self \<noteq> []"
  shows "last (stored_ids self) \<notin> I \<and>
    shuffled_issued (insert (last (stored_ids self)) I) (self\<lparr>stored_ids := butlast (stored_ids self)\<rparr>)"
proof -
  from assms(1) obtain s n where n: "n \<le> 2 ^ LENGTH('a)" "next_id (sequential self) = s + of_nat n"
    "finite I" "mset (id_run s n) = mset_set I + mset (stored_ids self)" by (auto simp: shuffled_issued_def)
  let ?x = "last (stored_ids self)"
  have st: "mset (stored_ids self) = add_mset ?x (mset (butlast (stored_ids self)))"
    using assms(2) by (metis append_butlast_last_id mset_append mset.simps add_mset_add_single)
  have "count (mset (id_run s n)) ?x \<le> 1"
    using distinct_id_run [OF n(1), of s] by (simp add: distinct_count_atmost_1)
  then have "?x \<notin> I" using n(3,4) st by auto
  then show ?thesis
    unfolding shuffled_issued_def using n st by (auto intro!: exI [of _ s] exI [of _ n])
qed

interpretation shuffled_ids: transaction_ids shuffled_generate
  "shuffled_issued :: 'w::len word set \<Rightarrow> _" "2 ^ LENGTH('w) - TRANSACTION_ID_PREALLOC_LEN"
proof unfold_locales
  show "finite I" if "shuffled_issued I self" for I :: "'w word set" and self
    using that by (auto simp: shuffled_issued_def)
  fix I :: "'w word set" and self rnd x self'
  assume inv: "shuffled_issued I self"
    and card: "card I < 2 ^ LENGTH('w) - TRANSACTION_ID_PREALLOC_LEN"
    and gen: "shuffled_generate rnd self = (x, self')"
  let ?self = "if stored_ids self = [] then refill_stored_ids rnd self else self"
  have "shuffled_issued I ?self" using shuffled_issued_refill [OF inv] inv card by auto
  moreover have "stored_ids ?self \<noteq> []" by (simp add: refill_nonempty)
  moreover have "x = last (stored_ids ?self)" "self' = ?self\<lparr>stored_ids := butlast (stored_ids ?self)\<rparr>"
    using gen refill_nonempty [of rnd self]
    by (auto simp: shuffled_generate.simps [of rnd self] shuffled_generate.simps [of rnd "refill_stored_ids rnd self"]
        split: if_splits)
  ultimately show "x \<notin> I \<and> shuffled_issued (insert x I) self'" using shuffled_issued_pop by metis
qed

section \<open>Every order can come out of the shuffle\<close>

lemma fold_swap_step_cong:
  assumes "\<forall>i < n. rnd i = rnd' i"
  shows "fold (swap_step d rnd) [0..<n] xs = fold (swap_step d rnd') [0..<n] xs"
  using assms
proof (induction n)
  case (Suc n)
  have "swap_step d rnd n = swap_step d rnd' n" using Suc.prems by (simp add: fun_eq_iff swap_step_def)
  with Suc show ?case by simp
qed simp

text \<open>One more position can be filled with any of the elements that remain.\<close>

lemma swap_step_choose:
  assumes k: "k < length xs" "length xs \<le> 2 ^ 64" and xs: "take k xs = take k ys" "mset xs = mset ys"
  shows "\<exists>r. take (Suc k) (swap_step d (\<lambda>_. r) k xs) = take (Suc k) ys"
proof -
  have len: "length ys = length xs" using xs(2) by (metis mset_eq_length)
  have "mset (take k xs) + mset (drop k xs) = mset (take k ys) + mset (drop k ys)"
    using xs(2) by (metis append_take_drop_id mset_append)
  then have "set (drop k xs) = set (drop k ys)" using xs(1) by (metis add_left_cancel mset_eq_setD)
  moreover have "ys ! k \<in> set (drop k ys)" using k len by (metis Cons_nth_drop_Suc list.set_intros(1))
  ultimately have "ys ! k \<in> set (drop k xs)" by simp
  then obtain i where i: "i < length xs - k" "xs ! (k + i) = ys ! k"
    by (auto simp: in_set_conv_nth)
  have "i < 2 ^ 64" using i(1) k(2) by linarith
  then have "unat (of_nat i :: u64) = i" by (simp add: unat_of_nat take_bit_nat_eq_self)
  then have "swap_step d (\<lambda>_. of_nat i) k xs = xs[k := ys ! k, k + i := xs ! k]"
    using swap_step_eq [OF k(1), of "k + i" "\<lambda>_. of_nat i"] i by (simp add: add.commute)
  then have "take (Suc k) (swap_step d (\<lambda>_. of_nat i) k xs) = take (Suc k) ys"
    using k len i xs(1) by (cases i) (simp_all add: take_Suc_conv_app_nth nth_list_update)
  then show ?thesis by blast
qed

lemma fisher_prefix:
  assumes "mset xs = mset ys" "length xs \<le> 2 ^ 64"
  shows "n \<le> length xs \<Longrightarrow> \<exists>rnd. take n (fold (swap_step d rnd) [0..<n] xs) = take n ys"
proof (induction n)
  case (Suc n)
  then obtain rnd where rnd: "take n (fold (swap_step d rnd) [0..<n] xs) = take n ys" by auto
  let ?zs = "fold (swap_step d rnd) [0..<n] xs"
  have "mset ?zs = mset ys" "length ?zs = length xs" using fold_swap_step [of n xs] assms(1) Suc.prems by simp_all
  then obtain r where r: "take (Suc n) (swap_step d (\<lambda>_. r) n ?zs) = take (Suc n) ys"
    using swap_step_choose [of n ?zs ys] rnd Suc.prems assms(2) by auto
  have "fold (swap_step d (rnd(n := r))) [0..<n] xs = ?zs" by (rule fold_swap_step_cong) simp
  moreover have "swap_step d (rnd(n := r)) n = swap_step d (\<lambda>_. r) n" by (simp add: fun_eq_iff swap_step_def)
  ultimately have "take (Suc n) (fold (swap_step d (rnd(n := r))) [0..<Suc n] xs) = take (Suc n) ys"
    using r by (simp del: fun_upd_apply)
  then show ?case by blast
qed simp

section \<open>Properties\<close>

text \<open>
  Whatever is drawn, the shuffle permutes the list; and every permutation of the list is
  the result for some draw.
\<close>

theorem fisher_shuffle_permutes:
  assumes "length xs \<le> 2 ^ 64"
  shows "mset ys = mset xs \<longleftrightarrow> (\<exists>rnd. fisher_shuffle d rnd xs = ys)"
proof
  assume ys: "mset ys = mset xs"
  then obtain rnd where "take (length xs) (fold (swap_step d rnd) [0..<length xs] xs) = take (length xs) ys"
    using fisher_prefix [of xs ys "length xs" d] assms by auto
  moreover have "length (fold (swap_step d rnd) [0..<length xs] xs) = length xs" "length ys = length xs"
    using fold_swap_step [of "length xs" xs] ys by (auto dest: mset_eq_length)
  ultimately show "\<exists>rnd. fisher_shuffle d rnd xs = ys" by (auto simp: fisher_shuffle_def)
qed (auto simp: mset_fisher_shuffle)

theorem fisher_shuffle_permutes_witness:
  "\<exists>rnd. fisher_shuffle 0 rnd [1, 2, 3 :: u8] = [3, 1, 2]"
  using fisher_shuffle_permutes [of "[1, 2, 3 :: u8]" "[3, 1, 2]" 0] by simp



text \<open>
  For an id type of any width, down to a single bit, a refill stores at least one and at
  most 2048 ids, they are consecutive ids in some order, and none is stored twice.
\<close>

theorem refill_block_distinct:
  "\<exists>m. 0 < m \<and> m \<le> 2048 \<and>
     mset (stored_ids (refill_stored_ids rnd self)) = mset (id_run (next_id (sequential self)) m) \<and>
     distinct (stored_ids (refill_stored_ids rnd self)) \<and>
     next_id (sequential (refill_stored_ids rnd self)) = next_id (sequential self) + of_nat m"
proof -
  obtain m where m: "0 < m" "m \<le> TRANSACTION_ID_PREALLOC_LEN" "m \<le> 2 ^ LENGTH('a)"
    "mset (stored_ids (refill_stored_ids rnd self)) = mset (id_run (next_id (sequential self)) m)"
    "next_id (sequential (refill_stored_ids rnd self)) = next_id (sequential self) + of_nat m"
    by (rule refill_stored)
  moreover have "distinct (stored_ids (refill_stored_ids rnd self))"
    using distinct_id_run [OF m(3)] mset_eq_imp_distinct_iff [OF m(4)] by simp
  ultimately show ?thesis by (intro exI [of _ m]) (simp add: TRANSACTION_ID_PREALLOC_LEN_def)
qed

end
