(* ===== verification/Contiguous.thy ===== *)
theory Contiguous
  imports Prelude
begin

text \<open>
  \<open>bip_util/src/contiguous.rs\<close>: the trait \<open>ContiguousBuffer\<close> as the locale
  \<open>contiguous_buffer\<close>, its implementation for \<open>Vec\<close>, and the implementation for a row of
  buffers, which is proved to keep the contract for every kind of buffer that keeps it. The
  closure a \<open>read\<close> is given is modelled by the list of the slices it is called with.
\<close>

section \<open>The contract\<close>

locale contiguous_buffer =
  fixes ok :: "'b \<Rightarrow> bool"
    and capacity :: "'b \<Rightarrow> nat"
    and len :: "'b \<Rightarrow> nat"
    and clear :: "'b \<Rightarrow> 'b"
    and wr :: "'b \<Rightarrow> 'a list \<Rightarrow> ('b, unit) res"
    and rd :: "'b \<Rightarrow> 'a list list"
  assumes len_le: "ok b \<Longrightarrow> len b \<le> capacity b"
    and read_len: "ok b \<Longrightarrow> length (concat (rd b)) = len b"
    and read_nonempty: "ok b \<Longrightarrow> [] \<notin> set (rd b)"
    and clear_ok: "ok b \<Longrightarrow> ok (clear b) \<and> capacity (clear b) = capacity b \<and> rd (clear b) = []"
    and write_ok: "ok b \<Longrightarrow> len b + length data \<le> capacity b \<Longrightarrow>
      \<exists>b'. wr b data = Ok b' \<and> ok b' \<and> capacity b' = capacity b \<and>
        concat (rd b') = concat (rd b) @ data"
    and write_panic: "ok b \<Longrightarrow> capacity b < len b + length data \<Longrightarrow> wr b data = Panic"

section \<open>Vec\<close>

text \<open>A vector with the capacity it was allocated with.\<close>

record 'a Vec =
  vec_capacity :: nat
  vec_data :: "'a list"

definition vec_ok :: "'a Vec \<Rightarrow> bool" where
  "vec_ok v \<longleftrightarrow> length (vec_data v) \<le> vec_capacity v"

definition vec_length :: "'a Vec \<Rightarrow> nat" where
  "vec_length self = length (vec_data self)"

definition vec_clear :: "'a Vec \<Rightarrow> 'a Vec" where
  "vec_clear self = self\<lparr>vec_data := take 0 (vec_data self)\<rparr>"

definition vec_write :: "'a Vec \<Rightarrow> 'a list \<Rightarrow> ('a Vec, unit) res" where
  "vec_write self data =
     (let available_space = vec_capacity self - vec_length self
      in if length data > available_space then Panic
         else Ok (self\<lparr>vec_data := vec_data self @ data\<rparr>))"

definition vec_read :: "'a Vec \<Rightarrow> 'a list list" where
  "vec_read self = (if vec_length self > 0 then [vec_data self] else [])"

section \<open>ContiguousBuffers\<close>

text \<open>
  The field \<open>buffers\<close>; the operations are parameterised by those of the buffers in the row.
\<close>

type_synonym 'b ContiguousBuffers = "'b list"

definition ContiguousBuffers_new :: "'b ContiguousBuffers" where
  "ContiguousBuffers_new = []"

definition ContiguousBuffers_with_buffer :: "'b \<Rightarrow> 'b ContiguousBuffers" where
  "ContiguousBuffers_with_buffer buffer = [buffer]"

definition ContiguousBuffers_pack :: "'b ContiguousBuffers \<Rightarrow> 'b ContiguousBuffers \<Rightarrow> 'b ContiguousBuffers" where
  "ContiguousBuffers_pack self buffer = self @ buffer"

text \<open>The rows of one buffer that \<open>unpack\<close> hands to the closure, in order.\<close>

definition ContiguousBuffers_unpack :: "'b ContiguousBuffers \<Rightarrow> 'b ContiguousBuffers list" where
  "ContiguousBuffers_unpack self = map ContiguousBuffers_with_buffer self"

definition bufs_capacity :: "('b \<Rightarrow> nat) \<Rightarrow> 'b ContiguousBuffers \<Rightarrow> nat" where
  "bufs_capacity capacity self = sum_list (map capacity self)"

definition bufs_length :: "('b \<Rightarrow> nat) \<Rightarrow> 'b ContiguousBuffers \<Rightarrow> nat" where
  "bufs_length len self = sum_list (map len self)"

definition bufs_clear :: "('b \<Rightarrow> 'b) \<Rightarrow> 'b ContiguousBuffers \<Rightarrow> 'b ContiguousBuffers" where
  "bufs_clear clear self = map clear self"

text \<open>The loop of \<open>write\<close>; it returns the buffers and the number of elements written.\<close>

fun bufs_write_loop ::
  "('b \<Rightarrow> nat) \<Rightarrow> ('b \<Rightarrow> nat) \<Rightarrow> ('b \<Rightarrow> 'a list \<Rightarrow> ('b, unit) res) \<Rightarrow> 'a list \<Rightarrow> nat \<Rightarrow> 'b list
    \<Rightarrow> ('b list \<times> nat, unit) res" where
  "bufs_write_loop capacity len write data bytes_written [] = Ok ([], bytes_written)"
| "bufs_write_loop capacity len write data bytes_written (buffer # rest) =
     (if bytes_written = length data then Ok (buffer # rest, bytes_written)
      else (let available_capacity = capacity buffer - len buffer;
                amount_to_write = min available_capacity (length data - bytes_written);
                start = bytes_written; end' = bytes_written + amount_to_write
            in try_res (slice data start end') (\<lambda>piece.
               try_res (write buffer piece) (\<lambda>buffer'.
               try_res (bufs_write_loop capacity len write data (bytes_written + amount_to_write) rest)
                 (\<lambda>(rest', n). Ok (buffer' # rest', n))))))"

definition bufs_write ::
  "('b \<Rightarrow> nat) \<Rightarrow> ('b \<Rightarrow> nat) \<Rightarrow> ('b \<Rightarrow> 'a list \<Rightarrow> ('b, unit) res) \<Rightarrow> 'b ContiguousBuffers \<Rightarrow> 'a list
    \<Rightarrow> ('b ContiguousBuffers, unit) res" where
  "bufs_write capacity len write self data =
     try_res (bufs_write_loop capacity len write data 0 self) (\<lambda>(self', bytes_written).
     if bytes_written \<noteq> length data then Panic else Ok self')"

definition bufs_read :: "('b \<Rightarrow> 'a list list) \<Rightarrow> 'b ContiguousBuffers \<Rightarrow> 'a list list" where
  "bufs_read read self = concat (map read self)"

text \<open>
  The rows whose order of reading is the order of writing: a buffer that holds something is
  behind full buffers only. Packing rows that are not full leaves this set.
\<close>

fun row_ok :: "('b \<Rightarrow> bool) \<Rightarrow> ('b \<Rightarrow> nat) \<Rightarrow> ('b \<Rightarrow> nat) \<Rightarrow> 'b ContiguousBuffers \<Rightarrow> bool" where
  "row_ok ok capacity len [] = True"
| "row_ok ok capacity len (b # bs) =
     (ok b \<and> row_ok ok capacity len bs \<and> (len b = capacity b \<or> list_all (\<lambda>c. len c = 0) bs))"

lemma piece_bound [simp]: "n \<le> d \<Longrightarrow> n + min a (d - n) \<le> d" for n d :: nat
  by linarith

section \<open>A row of buffers is a buffer\<close>

context contiguous_buffer
begin

lemma all_empty: "list_all (\<lambda>c. len c = 0) bs \<longleftrightarrow> (\<forall>n \<in> set (map len bs). n = 0)"
  by (auto simp: list_all_iff)

lemma row_all_ok: "row_ok ok capacity len bs \<Longrightarrow> list_all ok bs"
  by (induction bs) auto

lemma row_empty: "list_all ok bs \<Longrightarrow> list_all (\<lambda>c. len c = 0) bs \<Longrightarrow> row_ok ok capacity len bs"
  by (induction bs) auto

lemma empty_read: "ok b \<Longrightarrow> len b = 0 \<Longrightarrow> rd b = []"
  using read_len [of b] read_nonempty [of b] by (cases "rd b") auto

lemma bufs_len_le: "list_all ok bs \<Longrightarrow> bufs_length len bs \<le> bufs_capacity capacity bs"
  by (induction bs) (auto simp: bufs_length_def bufs_capacity_def intro: add_mono len_le)

lemma bufs_read_len: "list_all ok bs \<Longrightarrow> length (concat (bufs_read rd bs)) = bufs_length len bs"
  by (induction bs) (auto simp: bufs_read_def bufs_length_def read_len)

lemma bufs_read_nonempty: "list_all ok bs \<Longrightarrow> [] \<notin> set (bufs_read rd bs)"
  by (induction bs) (auto simp: bufs_read_def read_nonempty)

lemma bufs_clear_ok:
  "list_all ok bs \<Longrightarrow> row_ok ok capacity len (bufs_clear clear bs) \<and>
   bufs_capacity capacity (bufs_clear clear bs) = bufs_capacity capacity bs \<and>
   bufs_read rd (bufs_clear clear bs) = []"
proof (induction bs)
  case (Cons b bs)
  have "list_all (\<lambda>c. len c = 0) (bufs_clear clear bs)"
    using Cons.prems clear_ok read_len by (fastforce simp: bufs_clear_def list_all_iff)
  with Cons clear_ok [of b] show ?case
    by (simp add: bufs_clear_def bufs_capacity_def bufs_read_def)
qed (simp add: bufs_clear_def bufs_capacity_def bufs_read_def)

text \<open>One step of the loop: as much as fits is written to the buffer.\<close>

lemma write_piece:
  assumes "ok b" "n \<le> length data" "k = min (capacity b - len b) (length data - n)"
  obtains b' where "wr b (sub_list data n (n + k)) = Ok b'" "ok b'" "capacity b' = capacity b"
    "concat (rd b') = concat (rd b) @ sub_list data n (n + k)" "len b' = len b + k"
proof -
  have "len b + length (sub_list data n (n + k)) \<le> capacity b"
    using assms len_le [OF assms(1)] by simp
  from write_ok [OF assms(1) this] obtain b' where b': "wr b (sub_list data n (n + k)) = Ok b'" "ok b'"
    "capacity b' = capacity b" "concat (rd b') = concat (rd b) @ sub_list data n (n + k)" by blast
  moreover have "len b' = len b + k"
    using arg_cong [OF b'(4), of length] read_len [OF b'(2)] read_len [OF assms(1)] assms(2,3) by simp
  ultimately show thesis by (rule that)
qed

text \<open>Whatever the state of the row, the loop writes what fits and reports how much it wrote.\<close>

lemma bufs_write_loop_count:
  assumes "list_all ok bs" "n \<le> length data"
  shows "\<exists>bs'. bufs_write_loop capacity len wr data n bs =
      Ok (bs', min (length data) (n + (bufs_capacity capacity bs - bufs_length len bs))) \<and>
    list_all ok bs' \<and> bufs_capacity capacity bs' = bufs_capacity capacity bs"
  using assms
proof (induction bs arbitrary: n)
  case Nil
  then show ?case by (simp add: bufs_capacity_def bufs_length_def)
next
  case (Cons b bs)
  show ?case
  proof (cases "n = length data")
    case True
    with Cons.prems show ?thesis by simp
  next
    case False
    let ?k = "min (capacity b - len b) (length data - n)"
    have b: "ok b" "len b \<le> capacity b" using Cons.prems len_le by auto
    obtain b' where b': "wr b (sub_list data n (n + ?k)) = Ok b'" "ok b'" "capacity b' = capacity b"
      using write_piece [OF b(1) Cons.prems(2) refl] by blast
    obtain bs' where bs': "bufs_write_loop capacity len wr data (n + ?k) bs =
        Ok (bs', min (length data) (n + ?k + (bufs_capacity capacity bs - bufs_length len bs)))"
        "list_all ok bs'" "bufs_capacity capacity bs' = bufs_capacity capacity bs"
      using Cons.IH [of "n + ?k"] Cons.prems by auto
    have "bufs_length len bs \<le> bufs_capacity capacity bs" using bufs_len_le Cons.prems by simp
    then have "min (length data) (n + ?k + (bufs_capacity capacity bs - bufs_length len bs)) =
        min (length data) (n + (bufs_capacity capacity (b # bs) - bufs_length len (b # bs)))"
      using b(2) Cons.prems(2) by (simp add: bufs_capacity_def bufs_length_def)
    with b' bs' False Cons.prems(2) show ?thesis
      by (auto simp: Let_def slice_def bufs_capacity_def)
  qed
qed

text \<open>On a row in order, the elements written are appended to what is read.\<close>

lemma bufs_write_loop_appends:
  assumes "row_ok ok capacity len bs" "n \<le> length data"
    and "bufs_write_loop capacity len wr data n bs = Ok (bs', m)"
  shows "n \<le> m \<and> m \<le> length data \<and> row_ok ok capacity len bs' \<and>
    concat (bufs_read rd bs') = concat (bufs_read rd bs) @ sub_list data n m \<and>
    (m = n \<longrightarrow> map len bs' = map len bs)"
  using assms
proof (induction bs arbitrary: n bs')
  case Nil
  then show ?case by simp
next
  case (Cons b bs)
  show ?case
  proof (cases "n = length data")
    case True
    with Cons.prems show ?thesis by auto
  next
    case False
    let ?k = "min (capacity b - len b) (length data - n)"
    have "ok b" and row: "row_ok ok capacity len bs" using Cons.prems(1) by simp_all
    obtain b' where b': "wr b (sub_list data n (n + ?k)) = Ok b'" "ok b'" "capacity b' = capacity b"
      "concat (rd b') = concat (rd b) @ sub_list data n (n + ?k)" "len b' = len b + ?k"
      using write_piece [OF \<open>ok b\<close> Cons.prems(2) refl] by blast
    obtain cs where cs: "bs' = b' # cs" "bufs_write_loop capacity len wr data (n + ?k) bs = Ok (cs, m)"
      using Cons.prems(2,3) False b'(1) by (auto simp: Let_def res_simps)
    have IH: "n + ?k \<le> m \<and> m \<le> length data \<and> row_ok ok capacity len cs \<and>
        concat (bufs_read rd cs) = concat (bufs_read rd bs) @ sub_list data (n + ?k) m \<and>
        (m = n + ?k \<longrightarrow> map len cs = map len bs)"
      using Cons.IH [OF row _ cs(2)] Cons.prems(2) by simp
    have empty: "concat (bufs_read rd bs) = []" if "list_all (\<lambda>c. len c = 0) bs"
      using that row_all_ok [OF row] by (auto simp: bufs_read_def list_all_iff empty_read)
    have "len b' = capacity b' \<or> list_all (\<lambda>c. len c = 0) cs"
    proof (cases "len b = capacity b \<or> ?k = capacity b - len b")
      case False
      then have "m = n + ?k" "list_all (\<lambda>c. len c = 0) bs" using IH Cons.prems(1) by auto
      with IH have "map len cs = map len bs" by simp
      with \<open>list_all _ bs\<close> show ?thesis unfolding all_empty by simp
    qed (use b' len_le [OF \<open>ok b\<close>] in auto)
    moreover have "concat (rd b') @ concat (bufs_read rd cs) =
        concat (rd b) @ concat (bufs_read rd bs) @ sub_list data n m"
    proof (cases "len b = capacity b")
      case True
      with IH b'(4) show ?thesis by simp
    next
      case False
      then have "concat (bufs_read rd bs) = []" using empty Cons.prems(1) by simp
      with IH b'(4) sub_list_append [of n "n + ?k" m data] show ?thesis
        by (simp del: concat_eq_Nil_conv)
    qed
    ultimately show ?thesis
      using IH b' cs(1) by (auto simp: bufs_read_def)
  qed
qed

lemma bufs_contiguous:
  "contiguous_buffer (row_ok ok capacity len) (bufs_capacity capacity) (bufs_length len)
     (bufs_clear clear) (bufs_write capacity len wr) (bufs_read rd)"
proof
  fix bs and data :: "'a list"
  assume row: "row_ok ok capacity len bs"
  note all = row_all_ok [OF row]
  show "bufs_length len bs \<le> bufs_capacity capacity bs"
    "length (concat (bufs_read rd bs)) = bufs_length len bs" "[] \<notin> set (bufs_read rd bs)"
    by (rule bufs_len_le [OF all] bufs_read_len [OF all] bufs_read_nonempty [OF all])+
  show "row_ok ok capacity len (bufs_clear clear bs) \<and>
      bufs_capacity capacity (bufs_clear clear bs) = bufs_capacity capacity bs \<and>
      bufs_read rd (bufs_clear clear bs) = []"
    by (rule bufs_clear_ok [OF all])
  obtain bs' where loop: "bufs_write_loop capacity len wr data 0 bs =
      Ok (bs', min (length data) (bufs_capacity capacity bs - bufs_length len bs))"
      "bufs_capacity capacity bs' = bufs_capacity capacity bs"
    using bufs_write_loop_count [OF all, of 0 data] by auto
  show "\<exists>b'. bufs_write capacity len wr bs data = Ok b' \<and> row_ok ok capacity len b' \<and>
      bufs_capacity capacity b' = bufs_capacity capacity bs \<and>
      concat (bufs_read rd b') = concat (bufs_read rd bs) @ data"
    if "bufs_length len bs + length data \<le> bufs_capacity capacity bs"
    using that bufs_write_loop_appends [OF row _ loop(1)] loop by (auto simp: bufs_write_def)
  show "bufs_write capacity len wr bs data = Panic"
    if "bufs_capacity capacity bs < bufs_length len bs + length data"
    using that loop(1) bufs_len_le [OF all] by (auto simp: bufs_write_def)
qed

end

interpretation vec_buffer: contiguous_buffer vec_ok vec_capacity vec_length vec_clear vec_write vec_read
  by unfold_locales
    (auto simp: vec_ok_def vec_length_def vec_clear_def vec_write_def vec_read_def)

interpretation vec_buffers: contiguous_buffer "row_ok vec_ok vec_capacity vec_length"
  "bufs_capacity vec_capacity" "bufs_length vec_length" "bufs_clear vec_clear"
  "bufs_write vec_capacity vec_length vec_write" "bufs_read vec_read"
  by (rule vec_buffer.bufs_contiguous)

section \<open>Properties\<close>

text \<open>
  C22. A row of vectors in order is one buffer: a write that fits appends to what is read and
  keeps the capacity and the order of the row, a write that does not fit panics, and clearing
  empties the row and keeps its capacity.
\<close>

theorem contiguous_buffers_write:
  assumes "row_ok vec_ok vec_capacity vec_length bs"
  shows "(bufs_length vec_length bs + length data \<le> bufs_capacity vec_capacity bs \<longrightarrow>
      (\<exists>bs'. bufs_write vec_capacity vec_length vec_write bs data = Ok bs' \<and>
        row_ok vec_ok vec_capacity vec_length bs' \<and>
        bufs_capacity vec_capacity bs' = bufs_capacity vec_capacity bs \<and>
        concat (bufs_read vec_read bs') = concat (bufs_read vec_read bs) @ data)) \<and>
    (bufs_capacity vec_capacity bs < bufs_length vec_length bs + length data \<longrightarrow>
      bufs_write vec_capacity vec_length vec_write bs data = Panic) \<and>
    bufs_read vec_read (bufs_clear vec_clear bs) = [] \<and>
    bufs_capacity vec_capacity (bufs_clear vec_clear bs) = bufs_capacity vec_capacity bs"
  using vec_buffers.write_ok [OF assms] vec_buffers.write_panic [OF assms] vec_buffers.clear_ok [OF assms]
  by blast

theorem contiguous_buffers_write_witness:
  "\<exists>bs'. bufs_write vec_capacity vec_length vec_write
      [\<lparr>vec_capacity = 2, vec_data = [1]\<rparr>, \<lparr>vec_capacity = 2, vec_data = []\<rparr>] [2, 3 :: nat] = Ok bs' \<and>
    concat (bufs_read vec_read bs') = [1, 2, 3]"
  using contiguous_buffers_write [of "[\<lparr>vec_capacity = 2, vec_data = [1 :: nat]\<rparr>, \<lparr>vec_capacity = 2, vec_data = []\<rparr>]" "[2, 3]"]
  by (auto simp: vec_ok_def vec_length_def bufs_length_def bufs_capacity_def bufs_read_def vec_read_def)

text \<open>
  After \<open>pack\<close> has put a buffer that holds data behind one that is not full, a later write
  goes into the gap, and \<open>read\<close> gives the data in another order than it was written.
\<close>

theorem packed_write_out_of_order:
  "bufs_write vec_capacity vec_length vec_write
     (ContiguousBuffers_pack (ContiguousBuffers_with_buffer \<lparr>vec_capacity = 2, vec_data = [a]\<rparr>)
        (ContiguousBuffers_with_buffer \<lparr>vec_capacity = 2, vec_data = [b]\<rparr>)) [c] =
   Ok [\<lparr>vec_capacity = 2, vec_data = [a, c]\<rparr>, \<lparr>vec_capacity = 2, vec_data = [b]\<rparr>] \<and>
   concat (bufs_read vec_read
     [\<lparr>vec_capacity = 2, vec_data = [a, c]\<rparr>, \<lparr>vec_capacity = 2, vec_data = [b]\<rparr>]) = [a, c, b]"
  by (simp add: bufs_write_def ContiguousBuffers_pack_def ContiguousBuffers_with_buffer_def
      vec_write_def vec_length_def bufs_read_def vec_read_def slice_def sub_list_def Let_def)

end
