(* ===== verification/Split_Sender.thy ===== *)
theory Split_Sender
  imports Prelude
begin

text \<open>
  \<open>bip_util/src/send\<close>: the trait \<open>TrySender\<close> as the locale \<open>try_sender\<close>, the channels of
  the standard library that implement it, and the \<open>SplitSender\<close> that gives a client a part of
  a channel. The shared counter is first changed call by call, then by interleaved atomic
  operations: the step relation \<open>split_step\<close> has one step per access of the \<open>AtomicUsize\<close>.
\<close>

section \<open>TrySender\<close>

text \<open>
  The contract: a message is either sent or handed back, never both, never neither. \<open>sent c\<close>
  are the messages sent so far. A hang up is a panic.
\<close>

locale try_sender =
  fixes try_send :: "'c \<Rightarrow> 'd \<Rightarrow> ('c \<times> 'd option, unit) res"
    and sent :: "'c \<Rightarrow> 'd list"
  assumes sent_none: "try_send c d = Ok (c', None) \<Longrightarrow> sent c' = sent c @ [d]"
    and sent_some: "try_send c d = Ok (c', Some d') \<Longrightarrow> d' = d \<and> sent c' = sent c"

text \<open>
  A channel of \<open>std::sync::mpsc\<close> as its senders see it: all that was sent, how much of it the
  receiver has not taken yet, the bound of a \<open>SyncSender\<close>, and whether the receiver is alive.
\<close>

record 'd Channel =
  chan_sent :: "'d list"
  chan_queued :: nat
  chan_bound :: nat
  chan_connected :: bool

definition sender_try_send :: "'d Channel \<Rightarrow> 'd \<Rightarrow> ('d Channel \<times> 'd option, unit) res" where
  "sender_try_send self data =
     (if \<not> chan_connected self then Panic
      else Ok (self\<lparr>chan_sent := chan_sent self @ [data], chan_queued := chan_queued self + 1\<rparr>, None))"

definition sync_sender_try_send :: "'d Channel \<Rightarrow> 'd \<Rightarrow> ('d Channel \<times> 'd option, unit) res" where
  "sync_sender_try_send self data =
     (if \<not> chan_connected self then Panic
      else if chan_queued self < chan_bound self
      then Ok (self\<lparr>chan_sent := chan_sent self @ [data], chan_queued := chan_queued self + 1\<rparr>, None)
      else Ok (self, Some data))"

interpretation sender: try_sender sender_try_send chan_sent
  by unfold_locales (auto simp: sender_try_send_def split: if_splits)

interpretation sync_sender: try_sender sync_sender_try_send chan_sent
  by unfold_locales (auto simp: sync_sender_try_send_def split: if_splits)

section \<open>SplitSender\<close>

text \<open>The shared counter is a \<open>usize\<close>: \<open>fetch_add\<close> and \<open>fetch_sub\<close> wrap around.\<close>

record 'c SplitSender =
  split_send :: 'c
  split_count :: u64
  split_capacity :: u64

definition SplitSender_new :: "'c \<Rightarrow> u64 \<Rightarrow> 'c SplitSender" where
  "SplitSender_new send capacity = \<lparr>split_send = send, split_count = 0, split_capacity = capacity\<rparr>"

definition split_sender :: "'c \<Rightarrow> u64 \<Rightarrow> u64 \<Rightarrow> 'c SplitSender \<times> 'c SplitSender" where
  "split_sender send cap_one cap_two = (SplitSender_new send cap_one, SplitSender_new send cap_two)"

definition try_count_increment :: "'c SplitSender \<Rightarrow> bool \<times> 'c SplitSender" where
  "try_count_increment self =
     (let our_count = split_count self; self = self\<lparr>split_count := our_count + 1\<rparr>
      in if our_count < split_capacity self then (True, self)
         else (False, self\<lparr>split_count := split_count self - 1\<rparr>))"

definition split_try_send ::
  "('c \<Rightarrow> 'd \<Rightarrow> ('c \<times> 'd option, unit) res) \<Rightarrow> 'c SplitSender \<Rightarrow> 'd \<Rightarrow> ('c SplitSender \<times> 'd option, unit) res" where
  "split_try_send try_send self data =
     (case try_count_increment self of
        (should_send, self) \<Rightarrow>
          if should_send
          then try_res (try_send (split_send self) data) (\<lambda>(c, r). Ok (self\<lparr>split_send := c\<rparr>, r))
          else Ok (self, Some data))"

text \<open>A \<open>SplitSenderAck\<close> shares the counter.\<close>

definition split_ack :: "'c SplitSender \<Rightarrow> 'c SplitSender" where
  "split_ack self = self\<lparr>split_count := split_count self - 1\<rparr>"

context try_sender
begin

text \<open>A split sender over a channel that keeps the contract keeps it.\<close>

lemma split_try_sender: "try_sender (split_try_send try_send) (\<lambda>self. sent (split_send self))"
proof
  fix c c' d
  assume "split_try_send try_send c d = Ok (c', None)"
  then show "sent (split_send c') = sent (split_send c) @ [d]"
    by (auto simp: split_try_send_def try_count_increment_def Let_def res_simps
        dest: sent_none split: if_splits)
next
  fix c c' d d'
  assume "split_try_send try_send c d = Ok (c', Some d')"
  then show "d' = d \<and> sent (split_send c') = sent (split_send c)"
    by (auto simp: split_try_send_def try_count_increment_def Let_def res_simps
        dest: sent_some split: if_splits)
qed

end

interpretation split_sync: try_sender "split_try_send sync_sender_try_send" "\<lambda>self. chan_sent (split_send self)"
  by (rule sync_sender.split_try_sender)

section \<open>Interleaved senders\<close>

text \<open>
  Where a thread is in \<open>try_send\<close>: not in it; behind the \<open>fetch_add\<close> that passed, before the
  send on the inner channel; behind the \<open>fetch_add\<close> that did not, before the \<open>fetch_sub\<close>.
\<close>

datatype split_pc = Outside | Passed | Failed

text \<open>
  The counter, the program counters of the threads (clones of one sender), the messages that
  were sent and not acknowledged, and the sends that the inner channel refused.
\<close>

record split_state =
  st_count :: u64
  st_pcs :: "split_pc list"
  st_unacked :: nat
  st_refused :: nat

definition split_init :: "nat \<Rightarrow> split_state" where
  "split_init threads =
     \<lparr>st_count = 0, st_pcs = replicate threads Outside, st_unacked = 0, st_refused = 0\<rparr>"

inductive split_step :: "u64 \<Rightarrow> split_state \<Rightarrow> split_state \<Rightarrow> bool" for capacity :: u64 where
  fetch_add: "i < length (st_pcs s) \<Longrightarrow> st_pcs s ! i = Outside \<Longrightarrow>
    split_step capacity s (s\<lparr>st_count := st_count s + 1,
      st_pcs := (st_pcs s)[i := if st_count s < capacity then Passed else Failed]\<rparr>)"
| fetch_sub: "i < length (st_pcs s) \<Longrightarrow> st_pcs s ! i = Failed \<Longrightarrow>
    split_step capacity s (s\<lparr>st_count := st_count s - 1, st_pcs := (st_pcs s)[i := Outside]\<rparr>)"
| send_ok: "i < length (st_pcs s) \<Longrightarrow> st_pcs s ! i = Passed \<Longrightarrow>
    split_step capacity s (s\<lparr>st_pcs := (st_pcs s)[i := Outside], st_unacked := st_unacked s + 1\<rparr>)"
| send_full: "i < length (st_pcs s) \<Longrightarrow> st_pcs s ! i = Passed \<Longrightarrow>
    split_step capacity s (s\<lparr>st_pcs := (st_pcs s)[i := Outside], st_refused := st_refused s + 1\<rparr>)"
| ack: "0 < st_unacked s \<Longrightarrow>
    split_step capacity s (s\<lparr>st_count := st_count s - 1, st_unacked := st_unacked s - 1\<rparr>)"

inductive_cases split_stepE: "split_step capacity s s'"

text \<open>Threads in the middle of \<open>try_send\<close>.\<close>

definition passed :: "split_state \<Rightarrow> nat" where
  "passed s = count_list (st_pcs s) Passed"

definition failed :: "split_state \<Rightarrow> nat" where
  "failed s = count_list (st_pcs s) Failed"

definition split_inv :: "u64 \<Rightarrow> split_state \<Rightarrow> bool" where
  "split_inv capacity s \<longleftrightarrow>
     unat (st_count s) = st_unacked s + st_refused s + passed s + failed s \<and>
     st_unacked s + st_refused s + passed s \<le> unat capacity \<and>
     unat capacity + length (st_pcs s) < 2 ^ 64"

lemma count_list_update:
  "i < length xs \<Longrightarrow> count_list (xs[i := y]) x + (if xs ! i = x then 1 else 0) =
   count_list xs x + (if y = x then 1 else 0)"
proof (induction xs arbitrary: i)
  case (Cons z zs)
  show ?case
  proof (cases i)
    case (Suc j)
    then show ?thesis using Cons.IH [of j] Cons.prems by auto
  qed auto
qed simp

lemma count_list_pcs: "count_list pcs Passed + count_list pcs Failed \<le> length pcs"
  by (induction pcs) (auto intro: le_SucI)

lemma count_list_outside:
  assumes "i < length pcs" "pcs ! i = Outside"
  shows "count_list pcs Passed + count_list pcs Failed < length pcs"
  using count_list_pcs [of "pcs[i := Failed]"] count_list_update [OF assms(1), of Failed Failed]
    count_list_update [OF assms(1), of Failed Passed] assms(2) by simp

lemma unat_inc: "unat w + 1 < 2 ^ 64 \<Longrightarrow> unat (w + 1 :: u64) = unat w + 1"
  by (simp add: unat_word_ariths)

lemma unat_dec: "0 < unat w \<Longrightarrow> unat (w - 1 :: u64) = unat w - 1"
  by (simp add: unat_sub word_le_nat_alt)

lemma split_inv_init: "unat capacity + threads < 2 ^ 64 \<Longrightarrow> split_inv capacity (split_init threads)"
proof -
  have "count_list (replicate n Outside) x = (if x = Outside then n else 0)" for n x
    by (induction n) auto
  then show "unat capacity + threads < 2 ^ 64 \<Longrightarrow> split_inv capacity (split_init threads)"
    by (simp add: split_inv_def split_init_def passed_def failed_def)
qed

lemma split_inv_step:
  assumes "split_inv capacity s" "split_step capacity s s'"
  shows "split_inv capacity s'"
  using assms(2,1)
proof cases
  case (fetch_add i)
  have "st_unacked s + st_refused s + passed s + failed s + 1 < 2 ^ 64"
    using assms(1) count_list_outside [OF fetch_add(2,3)] by (simp add: split_inv_def passed_def failed_def)
  then show ?thesis
    using fetch_add assms(1) count_list_update [of i "st_pcs s" _ Passed] count_list_update [of i "st_pcs s" _ Failed]
    by (auto simp: split_inv_def passed_def failed_def unat_inc word_less_nat_alt split: if_splits)
next
  case (fetch_sub i)
  then show ?thesis
    using assms(1) count_list_update [of i "st_pcs s" Outside Passed] count_list_update [of i "st_pcs s" Outside Failed]
    by (auto simp: split_inv_def passed_def failed_def unat_dec)
next
  case (send_ok i)
  then show ?thesis
    using assms(1) count_list_update [of i "st_pcs s" Outside Passed] count_list_update [of i "st_pcs s" Outside Failed]
    by (auto simp: split_inv_def passed_def failed_def)
next
  case (send_full i)
  then show ?thesis
    using assms(1) count_list_update [of i "st_pcs s" Outside Passed] count_list_update [of i "st_pcs s" Outside Failed]
    by (auto simp: split_inv_def passed_def failed_def)
next
  case ack
  then show ?thesis using assms(1) by (auto simp: split_inv_def passed_def failed_def unat_dec)
qed

lemma split_inv_steps: "(split_step capacity)\<^sup>*\<^sup>* s s' \<Longrightarrow> split_inv capacity s \<Longrightarrow> split_inv capacity s'"
  by (induction rule: rtranclp_induct) (auto intro: split_inv_step)

lemma refused_steps: "(split_step capacity)\<^sup>*\<^sup>* s s' \<Longrightarrow> st_refused s \<le> st_refused s'"
proof (induction rule: rtranclp_induct)
  case (step s' s'')
  from step(2) have "st_refused s' \<le> st_refused s''" by cases auto
  with step(3) show ?case by simp
qed simp

section \<open>Properties\<close>

text \<open>
  C10. However the operations of any number of senders and of the acknowledging receiver are
  interleaved, the messages sent and not acknowledged never exceed the capacity, also counting
  the sends that are about to happen, and the counter never wraps around.
\<close>

theorem split_capacity_safe:
  assumes "(split_step capacity)\<^sup>*\<^sup>* (split_init threads) s" "unat capacity + threads < 2 ^ 64"
  shows "st_unacked s + count_list (st_pcs s) Passed \<le> unat capacity \<and>
    unat (st_count s) = st_unacked s + st_refused s + count_list (st_pcs s) Passed + count_list (st_pcs s) Failed"
  using split_inv_steps [OF assms(1) split_inv_init [OF assms(2)]]
  by (simp add: split_inv_def passed_def failed_def)

theorem split_capacity_safe_witness:
  "(split_step 1)\<^sup>*\<^sup>* (split_init 2) (\<lparr>st_count = 2, st_pcs = [Passed, Failed], st_unacked = 0, st_refused = 0\<rparr>) \<and>
   0 + count_list [Passed, Failed] Passed \<le> unat (1 :: u64)"
proof -
  have s1: "split_step 1 (split_init 2) \<lparr>st_count = 1, st_pcs = [Passed, Outside], st_unacked = 0, st_refused = 0\<rparr>"
    using split_step.fetch_add [of 0 "split_init 2" 1] by (simp add: split_init_def numeral_2_eq_2)
  have s2: "split_step 1 \<lparr>st_count = 1, st_pcs = [Passed, Outside], st_unacked = 0, st_refused = 0\<rparr>
      \<lparr>st_count = 2, st_pcs = [Passed, Failed], st_unacked = 0, st_refused = 0\<rparr>"
    using split_step.fetch_add [of 1 "\<lparr>st_count = 1, st_pcs = [Passed, Outside], st_unacked = 0, st_refused = 0\<rparr>" 1]
    by simp
  have steps: "(split_step 1)\<^sup>*\<^sup>* (split_init 2) \<lparr>st_count = 2, st_pcs = [Passed, Failed], st_unacked = 0, st_refused = 0\<rparr>"
    using s1 s2 by (meson r_into_rtranclp rtranclp_trans)
  from steps split_capacity_safe [OF steps] show ?thesis by simp
qed

text \<open>
  A send that the inner channel refuses is never taken off the counter: once as many sends
  were refused as the capacity is, no interleaving ever lets a message through again.
\<close>

theorem split_refused_leak:
  assumes "split_inv capacity s" "st_refused s = unat capacity" "(split_step capacity)\<^sup>*\<^sup>* s s'"
  shows "st_unacked s' = 0 \<and> count_list (st_pcs s') Passed = 0"
  using split_inv_steps [OF assms(3,1)] refused_steps [OF assms(3)] assms(2)
  by (simp add: split_inv_def passed_def)

theorem split_refused_leak_witness:
  "(\<exists>s. split_step 1 \<lparr>st_count = 1, st_pcs = [Passed], st_unacked = 0, st_refused = 0\<rparr> s \<and> st_refused s = 1 \<and>
     (\<forall>s'. (split_step 1)\<^sup>*\<^sup>* s s' \<longrightarrow> st_unacked s' = 0))"
proof -
  let ?s = "\<lparr>st_count = 1, st_pcs = [Outside], st_unacked = 0, st_refused = 1\<rparr>"
  have "split_inv 1 ?s" by (simp add: split_inv_def passed_def failed_def)
  then have "\<forall>s'. (split_step 1)\<^sup>*\<^sup>* ?s s' \<longrightarrow> st_unacked s' = 0"
    using split_refused_leak [of 1 ?s] by simp
  moreover have "split_step 1 \<lparr>st_count = 1, st_pcs = [Passed], st_unacked = 0, st_refused = 0\<rparr> ?s"
    using split_step.send_full [of 0 "\<lparr>st_count = 1, st_pcs = [Passed], st_unacked = 0, st_refused = 0\<rparr>" 1] by simp
  ultimately show ?thesis by (intro exI [of _ ?s]) simp
qed

text \<open>
  A message given to a split sender over a bounded channel is either sent, once and behind
  all others, or handed back and not sent.
\<close>

theorem split_try_send_once:
  "split_try_send sync_sender_try_send s d = Ok (s', r) \<Longrightarrow>
   (r = None \<and> chan_sent (split_send s') = chan_sent (split_send s) @ [d]) \<or>
   (r = Some d \<and> chan_sent (split_send s') = chan_sent (split_send s))"
  using split_sync.sent_none [of s d s'] split_sync.sent_some [of s d s'] by (cases r) auto

theorem split_try_send_once_witness:
  "(case split_try_send sync_sender_try_send
      (SplitSender_new \<lparr>chan_sent = [7], chan_queued = 0, chan_bound = 1, chan_connected = True\<rparr> 1) (8 :: nat) of
      Ok (s', r) \<Rightarrow> r = None \<and> chan_sent (split_send s') = [7, 8] | _ \<Rightarrow> False)"
proof -
  let ?s = "SplitSender_new \<lparr>chan_sent = [7], chan_queued = 0, chan_bound = 1, chan_connected = True\<rparr> 1"
  obtain s' where s': "split_try_send sync_sender_try_send ?s (8 :: nat) = Ok (s', None)"
    by (simp add: split_try_send_def try_count_increment_def SplitSender_new_def sync_sender_try_send_def)
  from split_try_send_once [OF this] s' show ?thesis by (simp add: SplitSender_new_def)
qed

end
