(* ===== verification/Sha.thy ===== *)
theory Sha
  imports Prelude
begin

text \<open>
  \<open>bip_util/src/sha\<close>, \<open>bt.rs\<close> and \<open>error.rs\<close>: the 20 byte hashes that name nodes, peers and
  torrents, their xor, and the iterators over the bits of one. The theorems: the count of
  leading equal bits that the routing table takes is the length of the longest common bit
  prefix, and what the bit iterator really yields.
\<close>

section \<open>Length errors\<close>

datatype LengthErrorKind = LengthExceeded | LengthExpected | LengthMultipleExpected

record LengthError =
  err_kind :: LengthErrorKind
  err_length :: nat
  err_index :: "nat option"

definition LengthError_new :: "LengthErrorKind \<Rightarrow> nat \<Rightarrow> LengthError" where
  "LengthError_new kind len = \<lparr>err_kind = kind, err_length = len, err_index = None\<rparr>"

definition LengthError_with_index :: "LengthErrorKind \<Rightarrow> nat \<Rightarrow> nat \<Rightarrow> LengthError" where
  "LengthError_with_index kind len index =
     \<lparr>err_kind = kind, err_length = len, err_index = Some index\<rparr>"

section \<open>ShaHash\<close>

definition SHA_HASH_LEN :: nat where "SHA_HASH_LEN = 20"

text \<open>
  The field \<open>hash: [u8; SHA_HASH_LEN]\<close> is a list of bytes whose length is the one the array
  type fixes, which is the invariant \<open>sha_ok\<close>.
\<close>

type_synonym ShaHash = bytes

definition sha_ok :: "ShaHash \<Rightarrow> bool" where
  "sha_ok h \<longleftrightarrow> length h = SHA_HASH_LEN"

text \<open>
  The loops that walk two slices with \<open>zip\<close> and assign through the second iterator: the
  elements that have a partner are replaced, the rest stay.
\<close>

definition zip_assign :: "('a \<Rightarrow> 'b \<Rightarrow> 'b) \<Rightarrow> 'a list \<Rightarrow> 'b list \<Rightarrow> 'b list" where
  "zip_assign f src dst = map (\<lambda>(s, d). f s d) (zip src dst) @ drop (length src) dst"

lemma length_zip_assign [simp]: "length (zip_assign f src dst) = length dst"
  by (simp add: zip_assign_def)

lemma zip_assign_copy: "length src = length dst \<Longrightarrow> zip_assign (\<lambda>s d. s) src dst = src"
  by (simp add: zip_assign_def case_prod_unfold)

lemma nth_zip_assign:
  "i < length src \<Longrightarrow> i < length dst \<Longrightarrow> zip_assign f src dst ! i = f (src ! i) (dst ! i)"
  by (simp add: zip_assign_def nth_append)

definition ShaHash_from_hash :: "bytes \<Rightarrow> (ShaHash, LengthError) res" where
  "ShaHash_from_hash hash =
     (if length hash \<noteq> SHA_HASH_LEN then Err (LengthError_new LengthExpected SHA_HASH_LEN)
      else (let my_hash = replicate SHA_HASH_LEN 0
            in Ok (zip_assign (\<lambda>src dst. src) hash my_hash)))"

definition sha_eq_bytes :: "ShaHash \<Rightarrow> bytes \<Rightarrow> bool" where
  "sha_eq_bytes hash other =
     (let is_equal = (length other = length hash)
      in fold (\<lambda>(h, o') prev. prev \<and> h = o') (zip hash other) is_equal)"

definition sha_bitxor :: "ShaHash \<Rightarrow> ShaHash \<Rightarrow> ShaHash" where
  "sha_bitxor self rhs = zip_assign (\<lambda>src dst. src XOR dst) rhs self"

definition NODE_ID_LEN :: nat where "NODE_ID_LEN = SHA_HASH_LEN"
definition PEER_ID_LEN :: nat where "PEER_ID_LEN = SHA_HASH_LEN"
definition INFO_HASH_LEN :: nat where "INFO_HASH_LEN = SHA_HASH_LEN"

lemma from_hash_eq [res_simps]:
  "ShaHash_from_hash hash = (if sha_ok hash then Ok hash else Err (LengthError_new LengthExpected 20))"
  by (simp add: ShaHash_from_hash_def sha_ok_def zip_assign_copy SHA_HASH_LEN_def)

lemma sha_ok_bitxor [inv_intros]: "sha_ok a \<Longrightarrow> sha_ok (sha_bitxor a b)"
  by (simp add: sha_ok_def sha_bitxor_def)

lemma fold_and: "fold (\<lambda>(h, o') prev. prev \<and> h = o') ps b \<longleftrightarrow> b \<and> (\<forall>(h, o') \<in> set ps. h = o')"
  by (induction ps arbitrary: b) auto

lemma sha_eq_bytes_iff: "sha_eq_bytes hash other \<longleftrightarrow> hash = other"
proof -
  have "sha_eq_bytes hash other \<longleftrightarrow> list_all2 (=) hash other"
    unfolding sha_eq_bytes_def Let_def fold_and list_all2_iff by auto
  then show ?thesis by (simp add: list.rel_eq)
qed

section \<open>The iterators over bits\<close>

datatype BitRep = BitSet | BitUnset

datatype XorRep = Diff | Same

fun bitrep_eq_xor :: "BitRep \<Rightarrow> XorRep \<Rightarrow> bool" where
  "bitrep_eq_xor BitSet Diff = True"
| "bitrep_eq_xor BitUnset Same = True"
| "bitrep_eq_xor _ _ = False"

record Bits =
  bits_bytes :: bytes
  bit_pos :: nat

definition Bits_new :: "bytes \<Rightarrow> Bits" where
  "Bits_new bytes = \<lparr>bits_bytes = bytes, bit_pos = 0\<rparr>"

definition Bits_next :: "Bits \<Rightarrow> BitRep option \<times> Bits" where
  "Bits_next self =
     (if bit_pos self < length (bits_bytes self) * 8 then
        (let byte_index = bit_pos self div 8;
             bit_offset = 7 - (bit_pos self mod 8);
             bit_value = drop_bit bit_offset (bits_bytes self ! byte_index)
         in (Some (if bit_value = 1 then BitSet else BitUnset),
             self\<lparr>bit_pos := bit_pos self + 1\<rparr>))
      else (None, self))"

definition XorBits_next :: "Bits \<Rightarrow> XorRep option \<times> Bits" where
  "XorBits_next self =
     (case Bits_next self of
        (n, self') \<Rightarrow> (map_option (\<lambda>n. case n of BitSet \<Rightarrow> Diff | BitUnset \<Rightarrow> Same) n, self'))"

text \<open>All the items an iterator yields, by calling \<open>next\<close> until it is exhausted.\<close>

function bits_list :: "Bits \<Rightarrow> BitRep list" where
  "bits_list self = (case Bits_next self of (None, _) \<Rightarrow> [] | (Some b, self') \<Rightarrow> b # bits_list self')"
  by pat_completeness auto

termination bits_list
  by (relation "measure (\<lambda>self. length (bits_bytes self) * 8 - bit_pos self)")
    (auto simp: Bits_next_def Let_def split: if_splits)

declare bits_list.simps [simp del]

text \<open>The true value of the bit at a position, the most significant bit of each byte first.\<close>

definition bit_at :: "bytes \<Rightarrow> nat \<Rightarrow> bool" where
  "bit_at bs k = bit (bs ! (k div 8)) (7 - k mod 8)"

definition yields_set :: "bytes \<Rightarrow> nat \<Rightarrow> bool" where
  "yields_set bs k \<longleftrightarrow> drop_bit (7 - k mod 8) (bs ! (k div 8)) = 1"

lemma bits_list_from:
  "bits_list self =
   map (\<lambda>k. if yields_set (bits_bytes self) k then BitSet else BitUnset)
     [bit_pos self..<length (bits_bytes self) * 8]"
proof (induction self rule: bits_list.induct)
  case (1 self)
  show ?case
  proof (cases "bit_pos self < length (bits_bytes self) * 8")
    case True
    let ?b = "if yields_set (bits_bytes self) (bit_pos self) then BitSet else BitUnset"
      and ?self' = "self\<lparr>bit_pos := bit_pos self + 1\<rparr>"
    from True have "Bits_next self = (Some ?b, ?self')"
      by (simp add: Bits_next_def Let_def yields_set_def)
    with 1 [of "Some ?b" ?self' ?b] True show ?thesis
      by (subst bits_list.simps) (simp add: upt_conv_Cons)
  next
    case False
    then show ?thesis by (subst bits_list.simps) (simp add: Bits_next_def)
  qed
qed

lemma bits_list_new:
  "bits_list (Bits_new bs) = map (\<lambda>k. if yields_set bs k then BitSet else BitUnset) [0..<length bs * 8]"
  by (simp add: bits_list_from Bits_new_def)

text \<open>A shifted byte is one exactly when the lowest bit left is its leading set bit.\<close>

lemma drop_bit_eq_1: "drop_bit n w = 1 \<longleftrightarrow> bit w n \<and> (\<forall>m > n. \<not> bit w m)" for w :: "'a::len word"
proof
  assume "drop_bit n w = 1"
  then have bits: "bit w (n + m) \<longleftrightarrow> m = 0" for m
    by (metis bit_drop_bit_eq bit_1_iff comp_apply)
  have "\<not> bit w m" if "m > n" for m using bits [of "m - n"] that by simp
  with bits [of 0] show "bit w n \<and> (\<forall>m > n. \<not> bit w m)" by simp
next
  assume w: "bit w n \<and> (\<forall>m > n. \<not> bit w m)"
  show "drop_bit n w = 1"
  proof (rule bit_word_eqI)
    fix k
    show "bit (drop_bit n w) k \<longleftrightarrow> bit (1 :: 'a word) k"
      using w by (cases k) (auto simp: bit_drop_bit_eq bit_1_iff)
  qed
qed

lemma yields_set_iff:
  assumes "k < length bs * 8"
  shows "yields_set bs k \<longleftrightarrow> bit_at bs k \<and> (\<forall>j < k. j div 8 = k div 8 \<longrightarrow> \<not> bit_at bs j)"
proof -
  let ?b = "bs ! (k div 8)" and ?n = "7 - k mod 8"
  have "(\<forall>m > ?n. \<not> bit ?b m) \<longleftrightarrow> (\<forall>j < k. j div 8 = k div 8 \<longrightarrow> \<not> bit_at bs j)"
  proof (intro iffI allI impI)
    fix j assume *: "\<forall>m > ?n. \<not> bit ?b m" "j < k" "j div 8 = k div 8"
    then have "j mod 8 < k mod 8" using div_mult_mod_eq [of j 8] div_mult_mod_eq [of k 8] by linarith
    moreover have "k mod 8 < 8" by simp
    ultimately have "7 - j mod 8 > ?n" by linarith
    with * show "\<not> bit_at bs j" by (simp add: bit_at_def)
  next
    fix m assume *: "\<forall>j < k. j div 8 = k div 8 \<longrightarrow> \<not> bit_at bs j" "m > ?n"
    show "\<not> bit ?b m"
    proof (cases "m < 8")
      case True
      let ?j = "8 * (k div 8) + (7 - m)"
      have "?j div 8 = k div 8" "?j mod 8 = 7 - m" by simp_all
      moreover have "?j < k" using True *(2) div_mult_mod_eq [of k 8] by linarith
      ultimately show ?thesis using *(1) True by (auto simp: bit_at_def)
    next
      case False
      then show ?thesis using bit_imp_le_length [of ?b m] by auto
    qed
  qed
  then show ?thesis by (simp add: yields_set_def drop_bit_eq_1 bit_at_def)
qed

section \<open>Leading equal bits\<close>

text \<open>The expression of the routing table and of the bucket tests.\<close>

definition leading_bit_count :: "ShaHash \<Rightarrow> ShaHash \<Rightarrow> nat" where
  "leading_bit_count local_node remote_node =
     (let diff_id = sha_bitxor local_node remote_node
      in length (takeWhile (\<lambda>x. bitrep_eq_xor x Same) (bits_list (Bits_new diff_id))))"

text \<open>The length of the longest common prefix of the two bit strings.\<close>

definition common_prefix_bits :: "ShaHash \<Rightarrow> ShaHash \<Rightarrow> nat" where
  "common_prefix_bits a b = length (takeWhile (\<lambda>k. bit_at a k = bit_at b k) [0..<SHA_HASH_LEN * 8])"

lemma takeWhile_upt_cong:
  assumes "\<And>k. k < n \<Longrightarrow> (\<And>j. j < k \<Longrightarrow> q j) \<Longrightarrow> p k \<longleftrightarrow> q k"
  shows "takeWhile p [0..<n] = takeWhile q [0..<n]"
proof -
  have "takeWhile p [i..<n] = takeWhile q [i..<n]" if "\<And>j. j < i \<Longrightarrow> q j" for i
    using that
  proof (induction "n - i" arbitrary: i)
    case (Suc m)
    then have i: "i < n" "p i \<longleftrightarrow> q i" using assms [of i] by auto
    have "takeWhile p [Suc i..<n] = takeWhile q [Suc i..<n]" if "q i"
      using Suc.hyps(2) Suc.prems that by (intro Suc.hyps(1)) (auto simp: less_Suc_eq)
    with i show ?case by (simp add: upt_conv_Cons)
  qed simp
  from this [of 0] show ?thesis by simp
qed

lemma bit_at_xor:
  assumes "sha_ok a" "sha_ok b" "k < SHA_HASH_LEN * 8"
  shows "bit_at (sha_bitxor a b) k \<longleftrightarrow> bit_at a k \<noteq> bit_at b k"
proof -
  have "k div 8 < SHA_HASH_LEN" using assms(3) by (simp add: SHA_HASH_LEN_def)
  with assms(1,2) show ?thesis
    by (auto simp: bit_at_def sha_bitxor_def nth_zip_assign sha_ok_def bit_xor_iff)
qed

lemma leading_bit_count_eq:
  assumes "sha_ok a" "sha_ok b"
  shows "leading_bit_count a b = common_prefix_bits a b"
proof -
  let ?x = "sha_bitxor a b"
  have len: "length ?x = SHA_HASH_LEN" using assms sha_ok_bitxor [of a b] by (simp add: sha_ok_def)
  have eq: "bitrep_eq_xor (if y then BitSet else BitUnset) Same \<longleftrightarrow> \<not> y" for y by simp
  have "leading_bit_count a b = length (takeWhile (\<lambda>k. \<not> yields_set ?x k) [0..<SHA_HASH_LEN * 8])"
    unfolding leading_bit_count_def Let_def bits_list_new len takeWhile_map comp_def eq by simp
  also have "takeWhile (\<lambda>k. \<not> yields_set ?x k) [0..<SHA_HASH_LEN * 8] =
      takeWhile (\<lambda>k. bit_at a k = bit_at b k) [0..<SHA_HASH_LEN * 8]"
    by (rule takeWhile_upt_cong) (use len bit_at_xor [OF assms] in \<open>auto simp: yields_set_iff\<close>)
  finally show ?thesis by (simp add: common_prefix_bits_def)
qed

lemma common_prefix_le: "common_prefix_bits a b \<le> SHA_HASH_LEN * 8"
  unfolding common_prefix_bits_def by (rule order_trans [OF length_takeWhile_le]) simp

lemma common_prefix_sym: "common_prefix_bits a b = common_prefix_bits b a"
  unfolding common_prefix_bits_def by (rule arg_cong [where f = length], rule takeWhile_cong) auto

text \<open>What the count says of the bits: equal below it, different at it.\<close>

lemma common_prefix_equal: "k < common_prefix_bits a b \<Longrightarrow> bit_at a k = bit_at b k"
proof -
  assume k: "k < common_prefix_bits a b"
  then have "takeWhile (\<lambda>k. bit_at a k = bit_at b k) [0..<SHA_HASH_LEN * 8] ! k = k"
    using common_prefix_le [of a b] by (simp add: common_prefix_bits_def takeWhile_nth)
  with k show ?thesis
    using nth_mem [of k "takeWhile (\<lambda>k. bit_at a k = bit_at b k) [0..<SHA_HASH_LEN * 8]"]
    by (auto simp: common_prefix_bits_def dest: set_takeWhileD)
qed

lemma common_prefix_differ:
  "common_prefix_bits a b < SHA_HASH_LEN * 8 \<Longrightarrow>
   bit_at a (common_prefix_bits a b) \<noteq> bit_at b (common_prefix_bits a b)"
  using nth_length_takeWhile [of "\<lambda>k. bit_at a k = bit_at b k" "[0..<SHA_HASH_LEN * 8]"]
  by (simp add: common_prefix_bits_def)

lemma bits_equal_bytes_equal:
  assumes "sha_ok a" "sha_ok b" "\<forall>k < SHA_HASH_LEN * 8. bit_at a k = bit_at b k"
  shows "a = b"
proof (rule nth_equalityI)
  fix i assume i: "i < length a"
  show "a ! i = b ! i"
  proof (rule bit_word_eqI)
    fix n assume n: "n < LENGTH(8)"
    then obtain m where m: "m < 8" "n = 7 - m" by (intro that [of "7 - n"]) auto
    then have "(8 * i + m) div 8 = i" "(8 * i + m) mod 8 = m" "8 * i + m < SHA_HASH_LEN * 8"
      using i assms(1) by (simp_all add: sha_ok_def)
    with assms(3) m show "bit (a ! i) n \<longleftrightarrow> bit (b ! i) n" by (auto simp: bit_at_def)
  qed
qed (use assms in \<open>simp add: sha_ok_def\<close>)

lemma common_prefix_full:
  assumes "sha_ok a" "sha_ok b"
  shows "common_prefix_bits a b = SHA_HASH_LEN * 8 \<longleftrightarrow> a = b"
proof
  assume "common_prefix_bits a b = SHA_HASH_LEN * 8"
  then show "a = b" using bits_equal_bytes_equal [OF assms] common_prefix_equal [of _ a b] by auto
next
  assume "a = b"
  then show "common_prefix_bits a b = SHA_HASH_LEN * 8"
    by (simp add: common_prefix_bits_def takeWhile_eq_all_conv [THEN iffD2])
qed

lemma common_prefix_unique:
  assumes "k < SHA_HASH_LEN * 8" "\<forall>j < k. bit_at a j = bit_at b j" "bit_at a k \<noteq> bit_at b k"
  shows "common_prefix_bits a b = k"
proof (rule ccontr)
  assume "common_prefix_bits a b \<noteq> k"
  then consider "common_prefix_bits a b < k" | "k < common_prefix_bits a b" by linarith
  then show False
    using assms common_prefix_equal [of k a b] common_prefix_differ [of a b] by cases auto
qed

text \<open>Of three identifiers, the two shorter common prefixes are equally long.\<close>

lemma common_prefix_third:
  assumes "common_prefix_bits a m \<noteq> common_prefix_bits a b"
  shows "common_prefix_bits b m = min (common_prefix_bits a m) (common_prefix_bits a b)"
proof -
  let ?k = "min (common_prefix_bits a m) (common_prefix_bits a b)"
  have "?k < SHA_HASH_LEN * 8"
    using assms common_prefix_le [of a m] common_prefix_le [of a b] by (auto simp: min_def)
  moreover have "\<forall>j < ?k. bit_at b j = bit_at m j"
    using common_prefix_equal [of _ a m] common_prefix_equal [of _ a b] by auto
  moreover have "bit_at b ?k \<noteq> bit_at m ?k"
    using assms common_prefix_equal [of ?k a m] common_prefix_equal [of ?k a b]
      common_prefix_differ [of a m] common_prefix_differ [of a b] \<open>?k < SHA_HASH_LEN * 8\<close>
    by (cases "common_prefix_bits a m < common_prefix_bits a b") (auto simp: min_def)
  ultimately show ?thesis by (rule common_prefix_unique)
qed

section \<open>ShaHashBuilder\<close>

text \<open>
  The digest \<open>crypto::sha1::Sha1\<close> is a parameter: its state, \<open>new\<close>, \<open>input\<close> and \<open>result\<close>.
\<close>

record 's Sha1 =
  sha1_new :: 's
  sha1_input :: "'s \<Rightarrow> bytes \<Rightarrow> 's"
  sha1_result :: "'s \<Rightarrow> bytes"

definition ShaHashBuilder_new :: "'s Sha1 \<Rightarrow> 's" where
  "ShaHashBuilder_new D = sha1_new D"

definition ShaHashBuilder_add_bytes :: "'s Sha1 \<Rightarrow> 's \<Rightarrow> bytes \<Rightarrow> 's" where
  "ShaHashBuilder_add_bytes D self bytes = sha1_input D self bytes"

definition ShaHashBuilder_build :: "'s Sha1 \<Rightarrow> 's \<Rightarrow> ShaHash" where
  "ShaHashBuilder_build D self = sha1_result D self"

definition ShaHash_from_bytes :: "'s Sha1 \<Rightarrow> bytes \<Rightarrow> ShaHash" where
  "ShaHash_from_bytes D bytes =
     ShaHashBuilder_build D (ShaHashBuilder_add_bytes D (ShaHashBuilder_new D) bytes)"

text \<open>
  The documented behaviour of a digest: inputs are concatenated, and the result of a SHA-1
  digest fills the 20 byte buffer it is given.
\<close>

definition digest_streams :: "'s Sha1 \<Rightarrow> bool" where
  "digest_streams D \<longleftrightarrow>
     (\<forall>s a b. sha1_input D (sha1_input D s a) b = sha1_input D s (a @ b)) \<and>
     (\<forall>s. sha1_input D s [] = s) \<and> (\<forall>s. length (sha1_result D s) = SHA_HASH_LEN)"

lemma fold_add_bytes:
  "digest_streams D \<Longrightarrow>
   fold (\<lambda>c s. ShaHashBuilder_add_bytes D s c) chunks s = ShaHashBuilder_add_bytes D s (concat chunks)"
  by (induction chunks arbitrary: s) (simp_all add: digest_streams_def ShaHashBuilder_add_bytes_def)

section \<open>Properties\<close>

text \<open>
  C26. The count of leading equal bits that the routing table uses is the length of the longest
  common bit prefix of the two identifiers: the bits below it agree, the bit at it (if any)
  differs, and it reaches 160 only for equal identifiers. So the wrong items the bit iterator
  yields behind the leading bit of a byte never change the count.
\<close>

theorem leading_bit_count_correct:
  assumes "sha_ok a" "sha_ok b"
  shows "leading_bit_count a b \<le> 160 \<and> (\<forall>k < leading_bit_count a b. bit_at a k = bit_at b k) \<and>
    (leading_bit_count a b < 160 \<longrightarrow>
      bit_at a (leading_bit_count a b) \<noteq> bit_at b (leading_bit_count a b)) \<and>
    (leading_bit_count a b = 160 \<longleftrightarrow> a = b)"
  using common_prefix_le [of a b] common_prefix_equal [of _ a b] common_prefix_differ [of a b]
    common_prefix_full [OF assms]
  by (simp add: leading_bit_count_eq [OF assms] SHA_HASH_LEN_def)

theorem leading_bit_count_correct_witness:
  "leading_bit_count (255 # replicate 19 0) (240 # replicate 19 7) \<le> 160 \<and>
   leading_bit_count (255 # replicate 19 0) (240 # replicate 19 7) \<noteq> 160"
  using leading_bit_count_correct [of "255 # replicate 19 0" "240 # replicate 19 7"]
  by (simp add: sha_ok_def SHA_HASH_LEN_def)

text \<open>
  C40. The iterator over the bits of a hash yields one item per bit, but an item says \<open>Set\<close> only
  for the leading set bit of its byte: the value it tests is shifted and not masked.
\<close>

theorem bits_iterator_items:
  "length (bits_list (Bits_new bs)) = 8 * length bs \<and>
   (\<forall>k < 8 * length bs. bits_list (Bits_new bs) ! k = BitSet \<longleftrightarrow>
      bit_at bs k \<and> (\<forall>j < k. j div 8 = k div 8 \<longrightarrow> \<not> bit_at bs j))"
  by (auto simp: bits_list_new yields_set_iff)

text \<open>The two lowest bits of the byte 3 are set; only one of them is reported.\<close>

theorem bits_iterator_items_witness:
  "bits_list (Bits_new [3]) ! 6 = BitSet \<and> bits_list (Bits_new [3]) ! 7 = BitUnset \<and> bit_at [3] 7"
proof -
  have low: "\<forall>j \<in> set [0..<6]. \<not> bit_at [3] j" and bits: "bit_at [3] 6" "bit_at [3] 7"
    by code_simp+
  have item: "bits_list (Bits_new [3]) ! k = BitSet \<longleftrightarrow>
      bit_at [3] k \<and> (\<forall>j < k. j div 8 = k div 8 \<longrightarrow> \<not> bit_at [3] j)" if "k < 8" for k
    using bits_iterator_items [of "[3]"] that by simp
  have "bits_list (Bits_new [3]) ! 6 = BitSet" using item [of 6] low bits by simp
  moreover have "bits_list (Bits_new [3]) ! 7 \<noteq> BitSet" using item [of 7] bits by auto
  ultimately show ?thesis using bits(2) by (metis BitRep.exhaust)
qed

text \<open>
  Hashing a buffer in pieces gives the hash of the whole buffer, and a hash of 20 bytes
  read back with \<open>from_hash\<close> is the same hash.
\<close>

theorem sha_chunked:
  assumes "digest_streams D"
  shows "ShaHashBuilder_build D (fold (\<lambda>c s. ShaHashBuilder_add_bytes D s c) chunks (ShaHashBuilder_new D)) =
      ShaHash_from_bytes D (concat chunks) \<and>
    ShaHash_from_hash (ShaHash_from_bytes D (concat chunks)) = Ok (ShaHash_from_bytes D (concat chunks))"
  using assms
  by (simp add: fold_add_bytes ShaHash_from_bytes_def from_hash_eq sha_ok_def digest_streams_def
      ShaHashBuilder_build_def)

text \<open>A digest with the assumed behaviour: the length of the input, in unary.\<close>

definition toy_digest :: "nat Sha1" where
  "toy_digest = \<lparr>sha1_new = 0, sha1_input = (\<lambda>s bs. s + length bs),
     sha1_result = (\<lambda>s. replicate 20 (of_nat s))\<rparr>"

theorem sha_chunked_witness:
  "ShaHashBuilder_build toy_digest
     (fold (\<lambda>c s. ShaHashBuilder_add_bytes toy_digest s c) [[1, 2], [3]] (ShaHashBuilder_new toy_digest)) =
   ShaHash_from_bytes toy_digest [1, 2, 3]"
  using sha_chunked [of toy_digest "[[1, 2], [3]]"]
  by (simp add: digest_streams_def toy_digest_def SHA_HASH_LEN_def)

end
