(* ===== verification/Convert.thy ===== *)
theory Convert
  imports Prelude
begin

text \<open>
  \<open>bip_util/src/convert.rs\<close> and \<open>net.rs\<close>: integers, addresses and ports as big endian bytes.
  Fixed size arrays are lists; the length their type fixes is a hypothesis where a function
  takes one. The theorem: every conversion of an address has an inverse, both ways.
\<close>

section \<open>Addresses\<close>

text \<open>The types of \<open>std::net\<close>: the octets of a version 4 address, the segments of a version 6 one.\<close>

datatype Ipv4Addr = Ipv4Addr u8 u8 u8 u8

datatype Ipv6Addr = Ipv6Addr u16 u16 u16 u16 u16 u16 u16 u16

fun octets :: "Ipv4Addr \<Rightarrow> bytes" where
  "octets (Ipv4Addr a b c d) = [a, b, c, d]"

fun segments :: "Ipv6Addr \<Rightarrow> u16 list" where
  "segments (Ipv6Addr a b c d e f g h) = [a, b, c, d, e, f, g, h]"

record SocketAddrV4 =
  v4_ip :: Ipv4Addr
  v4_port :: u16

record SocketAddrV6 =
  v6_ip :: Ipv6Addr
  v6_port :: u16
  v6_flowinfo :: u32
  v6_scope_id :: u32

datatype SocketAddr = SockV4 SocketAddrV4 | SockV6 SocketAddrV6

datatype IpAddr = V4 Ipv4Addr | V6 Ipv6Addr

fun IpAddr_from_socket_addr :: "SocketAddr \<Rightarrow> IpAddr" where
  "IpAddr_from_socket_addr (SockV4 v4_sock_addr) = V4 (v4_ip v4_sock_addr)"
| "IpAddr_from_socket_addr (SockV6 v6_sock_addr) = V6 (v6_ip v6_sock_addr)"

definition default_route_v4 :: SocketAddr where
  "default_route_v4 =
     (let v4_addr = Ipv4Addr 0 0 0 0; v4_sock = \<lparr>v4_ip = v4_addr, v4_port = 0\<rparr>
      in SockV4 v4_sock)"

section \<open>Integers\<close>

definition eight_bytes_to_array :: "u64 \<Rightarrow> bytes" where
  "eight_bytes_to_array bytes =
     [byte_shift 56 bytes, byte_shift 48 bytes, byte_shift 40 bytes, byte_shift 32 bytes,
      byte_shift 24 bytes, byte_shift 16 bytes, byte_shift 8 bytes, ucast bytes]"

definition four_bytes_to_array :: "u32 \<Rightarrow> bytes" where
  "four_bytes_to_array bytes =
     (let eight_bytes = eight_bytes_to_array (ucast bytes)
      in [eight_bytes ! 4, eight_bytes ! 5, eight_bytes ! 6, eight_bytes ! 7])"

definition port_to_bytes_be :: "u16 \<Rightarrow> bytes" where
  "port_to_bytes_be port = [byte_shift 8 port, byte_shift 0 port]"

definition bytes_be_to_port :: "bytes \<Rightarrow> u16" where
  "bytes_be_to_port bytes =
     (let high_byte = ucast (bytes ! 0) :: u16; low_byte = ucast (bytes ! 1) :: u16
      in push_bit 8 high_byte OR low_byte)"

section \<open>Addresses to bytes\<close>

definition ipv4_to_bytes_be :: "Ipv4Addr \<Rightarrow> bytes" where
  "ipv4_to_bytes_be v4_addr = octets v4_addr"

definition ipv6_to_bytes_be :: "Ipv6Addr \<Rightarrow> bytes" where
  "ipv6_to_bytes_be v6_addr =
     fold (\<lambda>index bytes.
        let segment_index = index div 2;
            segment_byte_index = index mod 2;
            byte_shift_bits = 8 - segment_byte_index * 8;
            byte = byte_shift byte_shift_bits (segments v6_addr ! segment_index)
        in bytes[index := byte]) [0..<16] (replicate 16 0)"

text \<open>The loops that copy the address bytes, then the port bytes, into the result.\<close>

definition copy_into :: "bytes \<Rightarrow> bytes \<Rightarrow> bytes" where
  "copy_into src dst = map fst (zip src dst) @ drop (length src) dst"

definition sock_v4_to_bytes_be :: "SocketAddrV4 \<Rightarrow> bytes" where
  "sock_v4_to_bytes_be v4_sock =
     (let ip_bytes = ipv4_to_bytes_be (v4_ip v4_sock);
          port_bytes = port_to_bytes_be (v4_port v4_sock)
      in copy_into (ip_bytes @ port_bytes) (replicate 6 0))"

definition sock_v6_to_bytes_be :: "SocketAddrV6 \<Rightarrow> bytes" where
  "sock_v6_to_bytes_be v6_sock =
     (let ip_bytes = ipv6_to_bytes_be (v6_ip v6_sock);
          port_bytes = port_to_bytes_be (v6_port v6_sock)
      in copy_into (ip_bytes @ port_bytes) (replicate 18 0))"

section \<open>Bytes to addresses\<close>

definition bytes_be_to_ipv4 :: "bytes \<Rightarrow> Ipv4Addr" where
  "bytes_be_to_ipv4 bytes = Ipv4Addr (bytes ! 0) (bytes ! 1) (bytes ! 2) (bytes ! 3)"

definition bytes_be_to_ipv6 :: "bytes \<Rightarrow> Ipv6Addr" where
  "bytes_be_to_ipv6 bytes =
     (let combined_bytes =
        fold (\<lambda>(index, value) combined.
           let combined_index = index div 2;
               should_shift = (index mod 2 = 0);
               adjusted_value = (if should_shift then push_bit 8 (ucast value) else ucast value) :: u16
           in combined[combined_index := combined ! combined_index OR adjusted_value])
          (enumerate 0 bytes) (replicate 8 0)
      in Ipv6Addr (combined_bytes ! 0) (combined_bytes ! 1) (combined_bytes ! 2) (combined_bytes ! 3)
           (combined_bytes ! 4) (combined_bytes ! 5) (combined_bytes ! 6) (combined_bytes ! 7))"

definition bytes_be_to_sock_v4 :: "bytes \<Rightarrow> SocketAddrV4" where
  "bytes_be_to_sock_v4 bytes =
     (let ip_bytes = [bytes ! 0, bytes ! 1, bytes ! 2, bytes ! 3];
          port_bytes = [bytes ! 4, bytes ! 5]
      in \<lparr>v4_ip = bytes_be_to_ipv4 ip_bytes, v4_port = bytes_be_to_port port_bytes\<rparr>)"

definition bytes_be_to_sock_v6 :: "bytes \<Rightarrow> SocketAddrV6" where
  "bytes_be_to_sock_v6 bytes =
     (let port_bytes = [bytes ! 16, bytes ! 17];
          ip_bytes = copy_into (take 16 bytes) (replicate 16 0)
      in \<lparr>v6_ip = bytes_be_to_ipv6 ip_bytes, v6_port = bytes_be_to_port port_bytes,
          v6_flowinfo = 0, v6_scope_id = 0\<rparr>)"

section \<open>Halves of a 16 bit word\<close>

definition join_halves :: "u8 \<Rightarrow> u8 \<Rightarrow> u16" where
  "join_halves hi lo = push_bit 8 (ucast hi) OR ucast lo"

lemma join_halves_shift [wire_simps]: "join_halves (byte_shift 8 w) (byte_shift 0 w) = w"
proof (rule bit_word_eqI)
  fix n assume "n < LENGTH(16)"
  then show "bit (join_halves (byte_shift 8 w) (byte_shift 0 w)) n \<longleftrightarrow> bit w n"
    by (auto simp: join_halves_def bit_simps wire_simps)
qed

lemma shift_join_halves [wire_simps]:
  "byte_shift 8 (join_halves hi lo) = hi" "byte_shift 0 (join_halves hi lo) = lo"
proof -
  show "byte_shift 8 (join_halves hi lo) = hi"
    by (rule bit_word_eqI) (auto simp: join_halves_def bit_simps wire_simps dest: bit_imp_le_length)
  show "byte_shift 0 (join_halves hi lo) = lo"
    by (rule bit_word_eqI) (auto simp: join_halves_def bit_simps wire_simps dest: bit_imp_le_length)
qed

lemma bytes_be_to_port_join: "bytes_be_to_port [hi, lo] = join_halves hi lo"
  by (simp add: bytes_be_to_port_def join_halves_def)

lemma copy_into_prefix: "length src \<le> length dst \<Longrightarrow> copy_into src dst = src @ drop (length src) dst"
  by (simp add: copy_into_def map_fst_zip_take)

lemma copy_into_all: "length src = length dst \<Longrightarrow> copy_into src dst = src"
  by (simp add: copy_into_prefix)

lemma ipv6_bytes:
  "ipv6_to_bytes_be (Ipv6Addr a b c d e f g h) =
   [byte_shift 8 a, byte_shift 0 a, byte_shift 8 b, byte_shift 0 b, byte_shift 8 c, byte_shift 0 c,
    byte_shift 8 d, byte_shift 0 d, byte_shift 8 e, byte_shift 0 e, byte_shift 8 f, byte_shift 0 f,
    byte_shift 8 g, byte_shift 0 g, byte_shift 8 h, byte_shift 0 h]"
  unfolding ipv6_to_bytes_be_def Let_def
  by (subst fold_update_map) (simp_all add: upt_rec)

lemma bytes_ipv6:
  "bytes_be_to_ipv6 [a, a', b, b', c, c', d, d', e, e', f, f', g, g', h, h'] =
   Ipv6Addr (join_halves a a') (join_halves b b') (join_halves c c') (join_halves d d')
     (join_halves e e') (join_halves f f') (join_halves g g') (join_halves h h')"
proof -
  have "replicate 8 (0 :: u16) = [0, 0, 0, 0, 0, 0, 0, 0]" by (simp add: numeral_eq_Suc)
  then show ?thesis by (simp add: bytes_be_to_ipv6_def Let_def join_halves_def)
qed

text \<open>The address bytes of a list of 18 are the first 16 of them.\<close>

lemma bytes_sock_v6:
  "length bs = 18 \<Longrightarrow>
   bytes_be_to_sock_v6 bs =
     \<lparr>v6_ip = bytes_be_to_ipv6 (take 16 bs), v6_port = bytes_be_to_port (drop 16 bs),
      v6_flowinfo = 0, v6_scope_id = 0\<rparr>"
proof -
  assume "length bs = 18"
  then have "drop 16 bs = [bs ! 16, bs ! 17]"
    by (simp add: Cons_nth_drop_Suc [symmetric] numeral_eq_Suc)
  with \<open>length bs = 18\<close> show ?thesis by (simp add: bytes_be_to_sock_v6_def copy_into_all Let_def)
qed

lemma ipv6_roundtrip: "bytes_be_to_ipv6 (ipv6_to_bytes_be ip) = ip" "length (ipv6_to_bytes_be ip) = 16"
  by (cases ip; simp add: ipv6_bytes bytes_ipv6 wire_simps)+

lemma ipv6_roundtrip_bytes: "length bs = 16 \<Longrightarrow> ipv6_to_bytes_be (bytes_be_to_ipv6 bs) = bs"
proof -
  assume "length bs = 16"
  then obtain a a' b b' c c' d d' e e' f f' g g' h h'
    where "bs = [a, a', b, b', c, c', d, d', e, e', f, f', g, g', h, h']"
    by (auto simp: numeral_eq_Suc length_Suc_conv)
  then show ?thesis by (simp only: bytes_ipv6 ipv6_bytes wire_simps)
qed

lemma sock_v6_bytes: "sock_v6_to_bytes_be s = ipv6_to_bytes_be (v6_ip s) @ port_to_bytes_be (v6_port s)"
  unfolding sock_v6_to_bytes_be_def Let_def
  by (rule copy_into_all) (simp add: ipv6_roundtrip port_to_bytes_be_def)

lemma port_roundtrip: "bytes_be_to_port (port_to_bytes_be p) = p"
  by (simp add: port_to_bytes_be_def bytes_be_to_port_join wire_simps)

lemma port_roundtrip_bytes: "length bs = 2 \<Longrightarrow> port_to_bytes_be (bytes_be_to_port bs) = bs"
proof -
  assume "length bs = 2"
  then obtain hi lo where "bs = [hi, lo]" by (auto simp: numeral_eq_Suc length_Suc_conv)
  then show ?thesis by (simp only: bytes_be_to_port_join port_to_bytes_be_def wire_simps)
qed

lemma sock_v4_bytes: "sock_v4_to_bytes_be s = octets (v4_ip s) @ port_to_bytes_be (v4_port s)"
  unfolding sock_v4_to_bytes_be_def ipv4_to_bytes_be_def Let_def
  by (rule copy_into_all) (cases "v4_ip s"; simp add: port_to_bytes_be_def)

lemma sock_v4_roundtrip: "bytes_be_to_sock_v4 (sock_v4_to_bytes_be s) = s"
proof -
  obtain a b c d where "v4_ip s = Ipv4Addr a b c d" by (cases "v4_ip s")
  then show ?thesis
    using port_roundtrip [of "v4_port s"]
    by (simp add: sock_v4_bytes bytes_be_to_sock_v4_def bytes_be_to_ipv4_def port_to_bytes_be_def)
qed

lemma sock_v4_roundtrip_bytes:
  assumes "length bs = 6"
  shows "sock_v4_to_bytes_be (bytes_be_to_sock_v4 bs) = bs"
proof -
  from assms obtain a b c d e f where "bs = [a, b, c, d, e, f]"
    by (auto simp: numeral_eq_Suc length_Suc_conv)
  then show ?thesis
    using port_roundtrip_bytes [of "[e, f]"]
    by (simp add: sock_v4_bytes bytes_be_to_sock_v4_def bytes_be_to_ipv4_def)
qed

section \<open>Integers as bytes\<close>

lemma byte_shift_0: "byte_shift 0 w = ucast w"
  by (simp add: byte_shift_def)

lemma eight_bytes_val: "be_val (eight_bytes_to_array m) = unat m"
proof -
  have "rev [0..<8] = [7, 6, 5, 4, 3, 2, 1, 0 :: nat]" by (simp add: upt_rec)
  moreover have "unat m < 256 ^ 8" using unat_less [of m] by simp
  ultimately show ?thesis
    using be_val_byte_shift [of m 0 8]
    by (simp add: eight_bytes_to_array_def byte_shift_0 flip: One_nat_def)
qed

lemma four_bytes_eq:
  "four_bytes_to_array n = [byte_shift 24 n, byte_shift 16 n, byte_shift 8 n, byte_shift 0 n]"
proof -
  have "byte_shift k (ucast n :: u64) = byte_shift k n" for k
    by (rule bit_word_eqI) (auto simp: wire_simps bit_simps dest: bit_imp_le_length)
  moreover have "(ucast (ucast n :: u64) :: u8) = byte_shift 0 n"
    by (rule bit_word_eqI) (auto simp: wire_simps bit_simps)
  ultimately show ?thesis by (simp add: four_bytes_to_array_def eight_bytes_to_array_def Let_def)
qed

lemma four_bytes_val: "be_val (four_bytes_to_array n) = unat n"
proof -
  have "rev [0..<4] = [3, 2, 1, 0 :: nat]" by (simp add: upt_rec)
  moreover have "unat n < 256 ^ 4" using unat_less [of n] by simp
  ultimately show ?thesis
    using be_val_byte_shift [of n 0 4] by (simp add: four_bytes_eq flip: One_nat_def)
qed

lemma port_bytes_val: "be_val (port_to_bytes_be p) = unat p"
proof -
  have "rev [0..<2] = [1, 0 :: nat]" by (simp add: upt_rec)
  moreover have "unat p < 256 ^ 2" using unat_less [of p] by simp
  ultimately show ?thesis
    using be_val_byte_shift [of p 0 2] by (simp add: port_to_bytes_be_def flip: One_nat_def)
qed

lemma length_int_arrays [simp]:
  "length (eight_bytes_to_array m) = 8" "length (four_bytes_to_array n) = 4" "length (port_to_bytes_be p) = 2"
  by (simp_all add: eight_bytes_to_array_def four_bytes_eq port_to_bytes_be_def)

text \<open>Reading the bytes back, and writing what was read.\<close>

lemma be_word_arrays [wire_simps]:
  "be_word (eight_bytes_to_array m) = m" "be_word (four_bytes_to_array n) = n" "be_word (port_to_bytes_be p) = p"
  by (simp_all add: be_word_val eight_bytes_val four_bytes_val port_bytes_val)

lemma arrays_be_word [wire_simps]:
  "length bs = 8 \<Longrightarrow> eight_bytes_to_array (be_word bs) = bs"
  "length bs = 4 \<Longrightarrow> four_bytes_to_array (be_word bs) = bs"
  "length bs = 2 \<Longrightarrow> port_to_bytes_be (be_word bs) = bs"
  by (rule be_val_inj; simp add: eight_bytes_val four_bytes_val port_bytes_val unat_be_word)+

section \<open>Properties\<close>



text \<open>
  The arrays of 4 and 8 bytes are big endian: read most significant byte first, they denote
  the integer they were made from.
\<close>

theorem int_arrays_big_endian:
  "be_val (four_bytes_to_array n) = unat n \<and> be_val (eight_bytes_to_array m) = unat m \<and>
   be_val (port_to_bytes_be p) = unat p"
  by (simp add: four_bytes_val eight_bytes_val port_bytes_val)

end
