(* ===== verification/Dht_Node.thy ===== *)
theory Dht_Node
  imports Sha Convert "HOL-Library.Multiset"
begin

text \<open>
  \<open>bip_dht/src/routing/node.rs\<close> and \<open>bucket.rs\<close>: a node of the distributed hash table, its
  status, and a bucket of eight nodes. \<open>UTC::now()\<close> is the argument \<open>now\<close> of the operations
  that read the clock.
\<close>

section \<open>Node\<close>

definition MAX_LAST_SEEN_MINS :: int where "MAX_LAST_SEEN_MINS = 15"
definition MAX_REFRESH_REQUESTS :: nat where "MAX_REFRESH_REQUESTS = 2"

datatype NodeStatus = Bad | Questionable | Good

text \<open>The derived order: variants further up are less than those further down.\<close>

fun status_rank :: "NodeStatus \<Rightarrow> nat" where
  "status_rank Bad = 0"
| "status_rank Questionable = 1"
| "status_rank Good = 2"

lemma status_rank_eq [simp]: "status_rank a = status_rank b \<longleftrightarrow> a = b"
  by (cases a; cases b) auto

instantiation NodeStatus :: linorder
begin

definition less_eq_NodeStatus :: "NodeStatus \<Rightarrow> NodeStatus \<Rightarrow> bool" where
  "less_eq_NodeStatus a b \<longleftrightarrow> status_rank a \<le> status_rank b"

definition less_NodeStatus :: "NodeStatus \<Rightarrow> NodeStatus \<Rightarrow> bool" where
  "less_NodeStatus a b \<longleftrightarrow> status_rank a < status_rank b"

instance
  by standard (auto simp: less_eq_NodeStatus_def less_NodeStatus_def dest: antisym)

end

lemma status_le [simp]: "Bad \<le> s" "s \<le> Good" "s < Bad \<longleftrightarrow> False" "Good < s \<longleftrightarrow> False"
  "Questionable < s \<longleftrightarrow> s = Good" "s < Questionable \<longleftrightarrow> s = Bad" "s < Good \<longleftrightarrow> s \<noteq> Good" "Bad < s \<longleftrightarrow> s \<noteq> Bad"
  by (cases s; simp add: less_eq_NodeStatus_def less_NodeStatus_def)+

record Node =
  nd_id :: ShaHash
  nd_addr :: SocketAddr
  last_request :: "time option"
  last_response :: "time option"
  refresh_requests :: nat

definition Node_as_good :: "time \<Rightarrow> ShaHash \<Rightarrow> SocketAddr \<Rightarrow> Node" where
  "Node_as_good now id' addr =
     \<lparr>nd_id = id', nd_addr = addr, last_request = None, last_response = Some now, refresh_requests = 0\<rparr>"

definition Node_as_questionable :: "time \<Rightarrow> ShaHash \<Rightarrow> SocketAddr \<Rightarrow> Node" where
  "Node_as_questionable now id' addr =
     (let last_response_offset = minutes MAX_LAST_SEEN_MINS;
          last_response = now - last_response_offset
      in \<lparr>nd_id = id', nd_addr = addr, last_request = None, last_response = Some last_response,
          refresh_requests = 0\<rparr>)"

definition Node_as_bad :: "ShaHash \<Rightarrow> SocketAddr \<Rightarrow> Node" where
  "Node_as_bad id' addr =
     \<lparr>nd_id = id', nd_addr = addr, last_request = None, last_response = None, refresh_requests = 0\<rparr>"

definition recently_responded :: "Node \<Rightarrow> time \<Rightarrow> NodeStatus" where
  "recently_responded node curr_time =
     (case last_response node of
        None \<Rightarrow> Bad
      | Some response_time \<Rightarrow>
          (let since_response = curr_time - response_time;
               max_last_response = minutes MAX_LAST_SEEN_MINS
           in if since_response < max_last_response then Good else Questionable))"

definition recently_requested :: "Node \<Rightarrow> time \<Rightarrow> NodeStatus" where
  "recently_requested node curr_time =
     (let max_last_request = minutes MAX_LAST_SEEN_MINS
      in if (case last_request node of
               Some request_time \<Rightarrow> curr_time - request_time < max_last_request
             | None \<Rightarrow> False) then Good
         else if refresh_requests node < MAX_REFRESH_REQUESTS then Questionable else Bad)"

definition status :: "time \<Rightarrow> Node \<Rightarrow> NodeStatus" where
  "status now self =
     (case recently_responded self now of
        Good \<Rightarrow> Good
      | Bad \<Rightarrow> Bad
      | Questionable \<Rightarrow> recently_requested self now)"

definition local_request :: "time \<Rightarrow> Node \<Rightarrow> Node" where
  "local_request now self =
     (if status now self \<noteq> Good
      then (let num_requests = refresh_requests self + 1 in self\<lparr>refresh_requests := num_requests\<rparr>)
      else self)"

definition remote_request :: "time \<Rightarrow> Node \<Rightarrow> Node" where
  "remote_request now self = self\<lparr>last_request := Some now\<rparr>"

definition remote_response :: "time \<Rightarrow> Node \<Rightarrow> Node" where
  "remote_response now self = self\<lparr>last_response := Some now, refresh_requests := 0\<rparr>"

text \<open>Equality compares the id and the address.\<close>

definition node_eq :: "Node \<Rightarrow> Node \<Rightarrow> bool" where
  "node_eq self other \<longleftrightarrow> nd_id self = nd_id other \<and> nd_addr self = nd_addr other"

text \<open>The contact information of a node: id, address and port; a version 6 address panics.\<close>

definition Node_encode :: "Node \<Rightarrow> (bytes, unit) res" where
  "Node_encode self =
     (case nd_addr self of
        SockV4 v4 \<Rightarrow>
          (let encoded = copy_into (nd_id self @ octets (v4_ip v4)) (replicate 26 0);
               port = v4_port v4
           in Ok (encoded[24 := byte_shift 8 port, 25 := ucast port]))
      | SockV6 _ \<Rightarrow> Panic)"

lemma node_eq_refl [simp]: "node_eq n n"
  by (simp add: node_eq_def)

lemma node_eq_sym: "node_eq a b \<longleftrightarrow> node_eq b a"
  by (auto simp: node_eq_def)

lemma node_eq_trans: "node_eq a b \<Longrightarrow> node_eq b c \<Longrightarrow> node_eq a c"
  by (simp add: node_eq_def)

text \<open>Only a node that has responded once is ever better than bad.\<close>

lemma status_responded: "status now n \<noteq> Bad \<Longrightarrow> last_response n \<noteq> None"
  by (cases "last_response n") (auto simp: status_def recently_responded_def)

section \<open>Bucket\<close>

definition MAX_BUCKET_SIZE :: nat where "MAX_BUCKET_SIZE = 8"

text \<open>The array of nodes of a bucket; the placeholder stands in every unused place.\<close>

type_synonym Bucket = "Node list"

definition placeholder :: Node where
  "placeholder =
     (let id' = replicate NODE_ID_LEN 0; ip = Ipv4Addr 127 0 0 1;
          addr = SockV4 \<lparr>v4_ip = ip, v4_port = 0\<rparr>
      in Node_as_bad id' addr)"

definition Bucket_new :: Bucket where
  "Bucket_new = replicate MAX_BUCKET_SIZE placeholder"

definition good_nodes_filter :: "time \<Rightarrow> Node \<Rightarrow> bool" where
  "good_nodes_filter now node \<longleftrightarrow> status now node = Good"

definition pingable_nodes_filter :: "time \<Rightarrow> Node \<Rightarrow> bool" where
  "pingable_nodes_filter now node \<longleftrightarrow> (let status = status now node in status = Good \<or> status = Questionable)"

definition good_nodes :: "time \<Rightarrow> Bucket \<Rightarrow> Node list" where
  "good_nodes now self = filter (good_nodes_filter now) self"

definition pingable_nodes :: "time \<Rightarrow> Bucket \<Rightarrow> Node list" where
  "pingable_nodes now self = filter (pingable_nodes_filter now) self"

definition needs_refresh :: "time \<Rightarrow> Bucket \<Rightarrow> bool" where
  "needs_refresh now self = fold (\<lambda>node prev. prev \<and> status now node \<noteq> Good) self True"

definition Bucket_add_node :: "time \<Rightarrow> Node \<Rightarrow> Bucket \<Rightarrow> bool \<times> Bucket" where
  "Bucket_add_node now new_node self =
     (let new_node_status = status now new_node
      in if new_node_status = Bad then (True, self)
         else case position (\<lambda>node. node_eq node new_node) self of
           Some index \<Rightarrow>
             (let other_node_status = status now (self ! index)
              in (True, if new_node_status \<ge> other_node_status then self[index := new_node] else self))
         | None \<Rightarrow>
             (case position (\<lambda>node. status now node < new_node_status) self of
                Some index \<Rightarrow> (True, self[index := new_node])
              | None \<Rightarrow> (False, self)))"

section \<open>What adding a node does to a bucket\<close>

text \<open>
  The places of a bucket: eight; a node that never responded is the placeholder; no two
  others are equal.
\<close>

definition bucket_ok :: "Bucket \<Rightarrow> bool" where
  "bucket_ok b \<longleftrightarrow> length b = MAX_BUCKET_SIZE \<and>
     (\<forall>m \<in> set b. last_response m = None \<longrightarrow> m = placeholder) \<and>
     (\<forall>i < length b. \<forall>j < length b. i \<noteq> j \<longrightarrow> node_eq (b ! i) (b ! j) \<longrightarrow>
        last_response (b ! i) = None \<or> last_response (b ! j) = None)"

lemma bucket_ok_new [simp]: "bucket_ok Bucket_new"
  by (auto simp: bucket_ok_def Bucket_new_def placeholder_def Node_as_bad_def Let_def)

text \<open>
  The outcomes: the bucket is as it was, or one place was given to the new node, which
  held an equal node of no better status, or a node of lower status.
\<close>

lemma Bucket_add_cases:
  assumes "Bucket_add_node now n b = (r, b')"
  obtains (same) "b' = b" "r" "status now n = Bad"
    | (full) "b' = b" "\<not> r" "status now n \<noteq> Bad" "\<forall>m \<in> set b. \<not> node_eq m n \<and> status now n \<le> status now m"
    | (better) i where "b' = b" "r" "i < length b" "node_eq (b ! i) n" "status now n < status now (b ! i)"
        "status now n \<noteq> Bad"
    | (update) i where "r" "i < length b" "b' = b[i := n]" "node_eq (b ! i) n"
        "status now (b ! i) \<le> status now n" "status now n \<noteq> Bad"
    | (replace) i where "r" "i < length b" "b' = b[i := n]" "\<forall>m \<in> set b. \<not> node_eq m n"
        "status now (b ! i) < status now n" "status now n \<noteq> Bad"
proof (cases "status now n = Bad")
  case True
  with assms have "b' = b" "r" by (simp_all add: Bucket_add_node_def)
  with True show ?thesis by (intro same)
next
  case bad: False
  show ?thesis
  proof (cases "position (\<lambda>node. node_eq node n) b")
    case (Some i)
    then have i: "i < length b" "node_eq (b ! i) n" by (auto simp: position_Some)
    from Some assms bad
    have r: "r" "b' = (if status now (b ! i) \<le> status now n then b[i := n] else b)"
      by (auto simp: Bucket_add_node_def)
    show ?thesis
    proof (cases "status now (b ! i) \<le> status now n")
      case True
      show ?thesis by (rule update [of i]) (use True r i bad in auto)
    next
      case False
      show ?thesis by (rule better [of i]) (use False r i bad in auto)
    qed
  next
    case None
    then have new: "\<forall>m \<in> set b. \<not> node_eq m n" by (simp add: position_None)
    show ?thesis
    proof (cases "position (\<lambda>node. status now node < status now n) b")
      case (Some i)
      then have i: "i < length b" "status now (b ! i) < status now n" by (auto simp: position_Some)
      from None Some assms bad have r: "r" "b' = b[i := n]" by (auto simp: Bucket_add_node_def)
      show ?thesis by (rule replace [of i]) (use r i new bad in auto)
    next
      case None': None
      then have le: "\<forall>m \<in> set b. status now n \<le> status now m" by (auto simp: position_None not_less)
      from None None' assms bad have r: "\<not> r" "b' = b" by (auto simp: Bucket_add_node_def)
      show ?thesis by (rule full) (use r le new bad in auto)
    qed
  qed
qed

lemma Bucket_add_length [simp]: "length (snd (Bucket_add_node now n b)) = length b"
proof (cases "Bucket_add_node now n b")
  case (Pair r b')
  then show ?thesis by (cases rule: Bucket_add_cases) (simp_all add: Pair)
qed

lemma Bucket_add_subset: "set (snd (Bucket_add_node now n b)) \<subseteq> insert n (set b)"
proof (cases "Bucket_add_node now n b")
  case (Pair r b')
  then show ?thesis by (cases rule: Bucket_add_cases) (auto simp: Pair dest: set_update_subset)
qed

text \<open>A good node is never lost: it stays, or an equal good node takes its place.\<close>

lemma in_set_update_other: "x \<in> set xs \<Longrightarrow> xs ! i \<noteq> x \<Longrightarrow> x \<in> set (xs[i := y])"
  by (metis in_set_conv_nth length_list_update nth_list_update_neq)

lemma Bucket_add_keeps_good:
  assumes "m \<in> set b" "status now m = Good"
  shows "\<exists>m' \<in> set (snd (Bucket_add_node now n b)). node_eq m' m \<and> status now m' = Good"
proof (cases "Bucket_add_node now n b")
  case (Pair r b')
  then show ?thesis
  proof (cases rule: Bucket_add_cases)
    case (update i)
    show ?thesis
    proof (cases "b ! i = m")
      case True
      then have "status now n = Good" using update(5) assms(2) by (cases "status now n") (auto simp: less_eq_NodeStatus_def)
      with True update Pair show ?thesis by (auto intro!: bexI [of _ n] simp: set_update_memI node_eq_sym)
    next
      case False
      with update Pair assms show ?thesis by (auto intro!: bexI [of _ m] in_set_update_other)
    qed
  next
    case (replace i)
    then have "b ! i \<noteq> m" using assms(2) by auto
    with replace Pair assms show ?thesis by (auto intro!: bexI [of _ m] in_set_update_other)
  qed (use assms Pair in \<open>auto intro!: bexI [of _ m]\<close>)
qed

text \<open>Unless the bucket is full, the node is in it afterwards, or an equal one that is better.\<close>

lemma Bucket_add_adds:
  assumes "fst (Bucket_add_node now n b)" "status now n \<noteq> Bad"
  shows "\<exists>m \<in> set (snd (Bucket_add_node now n b)). node_eq m n \<and> status now n \<le> status now m"
proof (cases "Bucket_add_node now n b")
  case (Pair r b')
  then show ?thesis
  proof (cases rule: Bucket_add_cases)
    case (better i)
    then show ?thesis using Pair by (auto intro!: bexI [of _ "b ! i"] less_imp_le)
  next
    case (update i)
    then show ?thesis using Pair by (auto intro!: bexI [of _ n] simp: set_update_memI)
  next
    case (replace i)
    then show ?thesis using Pair by (auto intro!: bexI [of _ n] simp: set_update_memI)
  qed (use assms Pair in auto)
qed

lemma Bucket_add_full:
  "\<not> fst (Bucket_add_node now n b) \<longleftrightarrow>
   status now n \<noteq> Bad \<and> (\<forall>m \<in> set b. \<not> node_eq m n \<and> status now n \<le> status now m)"
proof (cases "Bucket_add_node now n b")
  case (Pair r b')
  then show ?thesis
    by (cases rule: Bucket_add_cases) (auto simp: Pair not_le dest: nth_mem)
qed

lemma bucket_ok_add [inv_intros]:
  assumes "bucket_ok b" "\<not> node_eq n placeholder"
  shows "bucket_ok (snd (Bucket_add_node now n b))"
proof (cases "Bucket_add_node now n b")
  case (Pair r b')
  have upd: "bucket_ok (b[i := n])" if i: "i < length b" "status now n \<noteq> Bad"
    and other: "\<forall>j < length b. j \<noteq> i \<longrightarrow> last_response (b ! j) \<noteq> None \<longrightarrow> \<not> node_eq (b ! j) n" for i
    using i status_responded [OF i(2)] other assms(1)
    by (auto simp: bucket_ok_def nth_list_update node_eq_sym dest!: set_update_subset)
  from Pair show ?thesis
  proof (cases rule: Bucket_add_cases)
    case (update i)
    have "last_response (b ! i) \<noteq> None"
      using assms update(2,4) by (auto simp: bucket_ok_def node_eq_sym)
    moreover have "node_eq (b ! i) (b ! j)" if "node_eq (b ! j) n" for j
      using that update(4) by (simp add: node_eq_def)
    ultimately have "bucket_ok (b[i := n])"
      using update assms(1) by (intro upd) (auto simp: bucket_ok_def)
    with update Pair show ?thesis by simp
  next
    case (replace i)
    then have "bucket_ok (b[i := n])" by (intro upd) auto
    with replace Pair show ?thesis by simp
  qed (use assms Pair in auto)
qed

text \<open>Adding one node raises the number of nodes that are not bad by at most one.\<close>

definition not_bad :: "time \<Rightarrow> Bucket \<Rightarrow> nat" where
  "not_bad now b = length (filter (\<lambda>m. status now m \<noteq> Bad) b)"

lemma length_filter_update:
  "i < length xs \<Longrightarrow> length (filter P (xs[i := y])) \<le> Suc (length (filter P xs))"
proof (induction xs arbitrary: i)
  case (Cons x xs)
  then show ?case by (cases i) (auto intro: le_SucI)
qed simp

lemma not_bad_add: "not_bad now (snd (Bucket_add_node now n b)) \<le> Suc (not_bad now b)"
proof (cases "Bucket_add_node now n b")
  case (Pair r b')
  then show ?thesis
    by (cases rule: Bucket_add_cases) (auto simp: Pair not_bad_def length_filter_update)
qed

lemma not_bad_new [simp]: "not_bad now Bucket_new = 0"
  by (simp add: not_bad_def Bucket_new_def status_def recently_responded_def placeholder_def
      Node_as_bad_def Let_def)

lemma not_bad_room: "not_bad now b < length b \<Longrightarrow> fst (Bucket_add_node now n b)"
proof (rule ccontr)
  assume b: "not_bad now b < length b" and "\<not> fst (Bucket_add_node now n b)"
  then have "\<forall>m \<in> set b. status now m \<noteq> Bad"
    unfolding Bucket_add_full by (auto simp: order.antisym)
  then have "not_bad now b = length b" by (simp add: not_bad_def filter_id_conv)
  with b show False by simp
qed

section \<open>Properties\<close>

text \<open>
  The life of a node that makes no requests: for 15 minutes after a response it is good,
  then questionable, and bad once two requests to it went unanswered; a new response makes it
  good again. A node that responded once and requests from us is good for 15 minutes.
\<close>

theorem node_status_life:
  assumes "last_request n = None" and "t - now \<ge> minutes 15"
  shows "(\<forall>u. u - now < minutes 15 \<longrightarrow> status u (remote_response now n) = Good) \<and>
    status t (remote_response now n) = Questionable \<and>
    status t (local_request t (remote_response now n)) = Questionable \<and>
    status t (local_request t (local_request t (remote_response now n))) = Bad \<and>
    status t (remote_response t m) = Good \<and>
    (last_response m \<noteq> None \<longrightarrow> (\<forall>u. u - t < minutes 15 \<longrightarrow> status u (remote_request t m) = Good))"
  using assms
  by (auto simp: status_def recently_responded_def recently_requested_def remote_response_def
      local_request_def remote_request_def MAX_LAST_SEEN_MINS_def MAX_REFRESH_REQUESTS_def
      minutes_def split: option.splits)

theorem node_status_life_witness:
  "status (minutes 20) (local_request (minutes 20) (local_request (minutes 20)
     (remote_response 0 (Node_as_bad [] default_route_v4)))) = Bad"
  using node_status_life [of "Node_as_bad [] default_route_v4" "minutes 20" 0]
  by (simp add: Node_as_bad_def minutes_def)



text \<open>
  A good node takes the first place of lower status: it evicts a questionable node although
  all other places of the bucket are unused.
\<close>

theorem bucket_evicts_questionable:
  assumes "status now n = Good" "status now q = Questionable" "\<not> node_eq q n" "\<not> node_eq n placeholder"
  shows "Bucket_add_node now n (q # replicate 7 placeholder) = (True, n # replicate 7 placeholder)"
proof -
  have "position (\<lambda>m. node_eq m n) (q # replicate 7 placeholder) = None"
    using assms(3,4) by (auto simp: position_None node_eq_sym)
  with assms(1,2) show ?thesis by (simp add: Bucket_add_node_def)
qed

theorem bucket_evicts_questionable_witness:
  "Bucket_add_node (minutes 20)
     (Node_as_good (minutes 20) [1] default_route_v4) (Node_as_good 0 [2] default_route_v4 # replicate 7 placeholder) =
   (True, Node_as_good (minutes 20) [1] default_route_v4 # replicate 7 placeholder)"
  by (rule bucket_evicts_questionable)
    (simp_all add: status_def recently_responded_def recently_requested_def Node_as_good_def node_eq_def
      MAX_LAST_SEEN_MINS_def MAX_REFRESH_REQUESTS_def minutes_def placeholder_def Node_as_bad_def Let_def
      NODE_ID_LEN_def SHA_HASH_LEN_def numeral_eq_Suc)

end
