(* ===== verification/Dht_Table.thy ===== *)
theory Dht_Table
  imports Dht_Node
begin

text \<open>
  \<open>bip_dht/src/routing/table.rs\<close>, the part that changes the table: a node goes into the
  bucket of its common prefix with our id, the last bucket is split when it is full. The
  theorems: the recursion ends, every node stays in the bucket its prefix asks for, the table
  never has more than 160 buckets, and no good node is lost.
\<close>

section \<open>The table\<close>

definition MAX_BUCKETS :: nat where "MAX_BUCKETS = SHA_HASH_LEN * 8"

record RoutingTable =
  buckets :: "Bucket list"
  tbl_id :: ShaHash

definition RoutingTable_new :: "ShaHash \<Rightarrow> RoutingTable" where
  "RoutingTable_new node_id = \<lparr>buckets = [Bucket_new], tbl_id = node_id\<rparr>"

definition can_split_bucket :: "nat \<Rightarrow> nat \<Rightarrow> bool" where
  "can_split_bucket num_buckets bucket_index \<longleftrightarrow>
     bucket_index = num_buckets - 1 \<and> bucket_index \<noteq> MAX_BUCKETS - 1"

definition bucket_placement :: "nat \<Rightarrow> nat \<Rightarrow> nat" where
  "bucket_placement num_same_bits num_buckets =
     (let ideal_index = num_same_bits
      in if ideal_index \<ge> num_buckets then num_buckets - 1 else ideal_index)"

text \<open>\<open>rnd i\<close> is the \<open>i\<close>-th byte \<open>rand::random\<close> returns.\<close>

definition random_node_id :: "(nat \<Rightarrow> u8) \<Rightarrow> ShaHash" where
  "random_node_id rnd = fold (\<lambda>i hash. hash[i := rnd i]) [0..<SHA_HASH_LEN] (replicate SHA_HASH_LEN 0)"

section \<open>Adding a node\<close>

text \<open>\<open>self.buckets[bucket_index].add_node(node)\<close>.\<close>

definition add_to_bucket :: "time \<Rightarrow> Node \<Rightarrow> nat \<Rightarrow> RoutingTable \<Rightarrow> bool \<times> RoutingTable" where
  "add_to_bucket now node bucket_index self =
     (case Bucket_add_node now node (buckets self ! bucket_index) of
        (added, bucket) \<Rightarrow> (added, self\<lparr>buckets := (buckets self)[bucket_index := bucket]\<rparr>))"

text \<open>The last bucket is taken out and two new ones are pushed.\<close>

definition pop_and_push :: "RoutingTable \<Rightarrow> Bucket \<times> RoutingTable" where
  "pop_and_push self =
     (let split_bucket = last (buckets self);
          self = self\<lparr>buckets := butlast (buckets self)\<rparr>;
          self = self\<lparr>buckets := buckets self @ [Bucket_new]\<rparr>;
          self = self\<lparr>buckets := buckets self @ [Bucket_new]\<rparr>
      in (split_bucket, self))"

text \<open>
  \<open>add_node\<close>, \<open>bucket_node\<close> and \<open>split_bucket\<close> call each other. The first two are functions of
  the recursion, and so is the loop of \<open>split_bucket\<close> over the nodes of the bucket it took
  out; \<open>split_bucket\<close> itself is defined behind them, and \<open>bucket_node_eq\<close> shows that
  \<open>bucket_node\<close> calls it. The buckets are never empty, so that all indices are in range.
\<close>

function (sequential) table_add_node :: "time \<Rightarrow> Node \<Rightarrow> RoutingTable \<Rightarrow> RoutingTable"
  and bucket_node :: "time \<Rightarrow> Node \<Rightarrow> nat \<Rightarrow> RoutingTable \<Rightarrow> RoutingTable"
  and add_each :: "time \<Rightarrow> Node list \<Rightarrow> RoutingTable \<Rightarrow> RoutingTable" where
  "table_add_node now node self =
     (if status now node = Bad then self
      else (let num_same_bits = leading_bit_count (tbl_id self) (nd_id node)
            in if num_same_bits \<noteq> MAX_BUCKETS then bucket_node now node num_same_bits self else self))"
| "bucket_node now node num_same_bits self =
     (let bucket_index = bucket_placement num_same_bits (length (buckets self))
      in case add_to_bucket now node bucket_index self of
           (added, self) \<Rightarrow>
             if \<not> added \<and> can_split_bucket (length (buckets self)) bucket_index
             then (case pop_and_push self of
                     (split_bucket, self) \<Rightarrow>
                       bucket_node now node num_same_bits (add_each now split_bucket self))
             else self)"
| "add_each now [] self = self"
| "add_each now (node # nodes) self = add_each now nodes (table_add_node now node self)"
  by pat_completeness auto

lemma leading_bit_count_bound: "leading_bit_count a b \<le> 8 * length a"
proof -
  have "leading_bit_count a b \<le> length (bits_list (Bits_new (sha_bitxor a b)))"
    unfolding leading_bit_count_def Let_def by (rule length_takeWhile_le)
  then show ?thesis by (simp add: bits_list_new sha_bitxor_def)
qed

lemma table_grows:
  "table_add_node_bucket_node_add_each_dom (Inl (now, n, t)) \<Longrightarrow>
     tbl_id (table_add_node now n t) = tbl_id t \<and> length (buckets t) \<le> length (buckets (table_add_node now n t))"
  "table_add_node_bucket_node_add_each_dom (Inr (Inl (now, n, k, t))) \<Longrightarrow>
     tbl_id (bucket_node now n k t) = tbl_id t \<and> length (buckets t) \<le> length (buckets (bucket_node now n k t))"
  "table_add_node_bucket_node_add_each_dom (Inr (Inr (now, ns, t))) \<Longrightarrow>
     tbl_id (add_each now ns t) = tbl_id t \<and> length (buckets t) \<le> length (buckets (add_each now ns t))"
proof (induction now n t and now n k t and now ns t rule: table_add_node_bucket_node_add_each.pinduct)
  case (1 now node self)
  then show ?case by (simp add: table_add_node.psimps Let_def)
next
  case (2 now node k self)
  let ?i = "bucket_placement k (length (buckets self))"
  obtain added self1 where add: "add_to_bucket now node ?i self = (added, self1)"
    by (cases "add_to_bucket now node ?i self")
  then have self1: "length (buckets self1) = length (buckets self)" "tbl_id self1 = tbl_id self"
    by (auto simp: add_to_bucket_def split: prod.splits)
  obtain split self2 where pop: "pop_and_push self1 = (split, self2)" by (cases "pop_and_push self1")
  then have self2: "length (buckets self) \<le> length (buckets self2)" "tbl_id self2 = tbl_id self"
    using self1 by (auto simp: pop_and_push_def Let_def)
  show ?case
  proof (cases "\<not> added \<and> can_split_bucket (length (buckets self1)) ?i")
    case True
    note IH = "2.IH"(1) [OF refl add [symmetric] True pop [symmetric]]
      "2.IH"(2) [OF refl add [symmetric] True pop [symmetric]]
    have "bucket_node now node k self = bucket_node now node k (add_each now split self2)"
      using True add pop by (simp add: bucket_node.psimps [OF "2.hyps"])
    with IH self2 show ?thesis by auto
  next
    case False
    then have "bucket_node now node k self = self1" using add by (auto simp: bucket_node.psimps [OF "2.hyps"])
    with self1 show ?thesis by simp
  qed
next
  case (3 now self)
  then show ?case by (simp add: add_each.psimps)
next
  case (4 now node nodes self)
  then show ?case by (simp add: add_each.psimps)
qed

text \<open>
  A split needs the number of equal bits to reach the last bucket, and adds a bucket: the
  buckets that may still be added are counted down.
\<close>

definition table_room :: "nat \<Rightarrow> RoutingTable \<Rightarrow> nat" where
  "table_room k t = max k (8 * length (tbl_id t)) + 3 - length (buckets t)"

lemma length_add_to_bucket:
  "add_to_bucket now n i t = (added, t') \<Longrightarrow> length (buckets t') = length (buckets t) \<and> tbl_id t' = tbl_id t"
  by (auto simp: add_to_bucket_def split: prod.splits)

lemma length_pop_and_push:
  "pop_and_push t = (b, t') \<Longrightarrow> length (buckets t) < length (buckets t') \<and> tbl_id t' = tbl_id t"
  by (auto simp: pop_and_push_def Let_def)

lemma table_room_split:
  assumes "can_split_bucket (length (buckets t)) (bucket_placement k (length (buckets t)))"
    and "length (buckets t) < length (buckets t')" "tbl_id t' = tbl_id t" "k' \<le> max k (8 * length (tbl_id t))"
  shows "table_room k' t' < table_room k t"
proof -
  have "length (buckets t) \<le> k + 1"
    using assms(1) by (auto simp: can_split_bucket_def bucket_placement_def Let_def split: if_splits)
  with assms show ?thesis by (simp add: table_room_def)
qed

lemma table_room_mono:
  "length (buckets t) \<le> length (buckets t') \<Longrightarrow> tbl_id t' = tbl_id t \<Longrightarrow> table_room k t' \<le> table_room k t"
  by (simp add: table_room_def)

lemma table_room_leading: "table_room (leading_bit_count (tbl_id t) x) t = table_room 0 t"
  using leading_bit_count_bound [of "tbl_id t" x] by (simp add: table_room_def max_def)

termination table_add_node
proof (relation "measures [\<lambda>x. case x of Inl (now, n, t) \<Rightarrow> table_room 0 t
        | Inr (Inl (now, n, k, t)) \<Rightarrow> table_room k t | Inr (Inr (now, ns, t)) \<Rightarrow> table_room 0 t,
      \<lambda>x. case x of Inl _ \<Rightarrow> 1 | Inr (Inl _) \<Rightarrow> 0 | Inr (Inr (now, ns, t)) \<Rightarrow> 2 + length ns]",
    goal_cases)
  case (2 now node self k)
  then show ?case by (simp add: table_room_leading)
next
  case (3 now node k self i added self1 split self2)
  then have "table_room 0 self2 < table_room k self"
    using length_add_to_bucket [of now node i self added self1] length_pop_and_push [of self1 split self2]
    by (intro table_room_split) (simp_all add: eq_commute)
  then show ?case by simp
next
  case (4 now node k self i added self1 split self2)
  then have "table_room k (add_each now split self2) < table_room k self"
    using length_add_to_bucket [of now node i self added self1] length_pop_and_push [of self1 split self2]
      table_grows(3) [of now split self2]
    by (intro table_room_split) (simp_all add: eq_commute)
  then show ?case by simp
next
  case (6 now node nodes self)
  then show ?case
    using table_grows(1) [of now node self] table_room_mono [of self "table_add_node now node self" 0]
    by (auto simp: le_less)
qed simp_all

declare table_add_node.simps [simp del] bucket_node.simps [simp del]

definition split_bucket :: "time \<Rightarrow> nat \<Rightarrow> RoutingTable \<Rightarrow> bool \<times> RoutingTable" where
  "split_bucket now bucket_index self =
     (if \<not> can_split_bucket (length (buckets self)) bucket_index then (False, self)
      else (case pop_and_push self of (split_bucket, self) \<Rightarrow> (True, add_each now split_bucket self)))"

lemma bucket_node_eq:
  "bucket_node now node num_same_bits self =
     (let bucket_index = bucket_placement num_same_bits (length (buckets self))
      in case add_to_bucket now node bucket_index self of
           (added, self) \<Rightarrow>
             if \<not> added
             then (case split_bucket now bucket_index self of
                     (split, self) \<Rightarrow> if split then bucket_node now node num_same_bits self else self)
             else self)"
  by (subst bucket_node.simps) (auto simp: split_bucket_def Let_def split: prod.split)

section \<open>The invariant\<close>

text \<open>The bucket a node belongs to, and the nodes that may be asked to go there.\<close>

definition home :: "RoutingTable \<Rightarrow> Node \<Rightarrow> nat" where
  "home t n = bucket_placement (leading_bit_count (tbl_id t) (nd_id n)) (length (buckets t))"

definition addable :: "RoutingTable \<Rightarrow> Node \<Rightarrow> bool" where
  "addable t n \<longleftrightarrow> leading_bit_count (tbl_id t) (nd_id n) \<noteq> MAX_BUCKETS \<and> \<not> node_eq n placeholder"

text \<open>
  Between 1 and 160 buckets, each well formed; a node that responded once is in the bucket of
  its common prefix with our id, and that prefix is not the whole id.
\<close>

definition table_ok :: "RoutingTable \<Rightarrow> bool" where
  "table_ok t \<longleftrightarrow> sha_ok (tbl_id t) \<and> buckets t \<noteq> [] \<and> length (buckets t) \<le> MAX_BUCKETS \<and>
     (\<forall>i < length (buckets t). bucket_ok (buckets t ! i) \<and>
        (\<forall>m \<in> set (buckets t ! i). last_response m \<noteq> None \<longrightarrow> addable t m \<and> home t m = i))"

lemma table_okD:
  assumes "table_ok t" "i < length (buckets t)"
  shows "bucket_ok (buckets t ! i)"
    and "m \<in> set (buckets t ! i) \<Longrightarrow> last_response m \<noteq> None \<Longrightarrow> addable t m \<and> home t m = i"
  using assms by (auto simp: table_ok_def)

lemma placement_less: "0 < n \<Longrightarrow> bucket_placement k n < n"
  by (simp add: bucket_placement_def)

lemma home_less: "table_ok t \<Longrightarrow> home t n < length (buckets t)"
  by (simp add: home_def placement_less table_ok_def)

lemma new_never_responded: "m \<in> set Bucket_new \<Longrightarrow> last_response m = None"
  by (auto simp: Bucket_new_def placeholder_def Node_as_bad_def Let_def)

lemma table_ok_new: "sha_ok node_id \<Longrightarrow> table_ok (RoutingTable_new node_id)"
  by (auto simp: table_ok_def RoutingTable_new_def MAX_BUCKETS_def SHA_HASH_LEN_def
      dest: new_never_responded)

lemma add_to_bucket_simps:
  "fst (add_to_bucket now n i t) = fst (Bucket_add_node now n (buckets t ! i))"
  "tbl_id (snd (add_to_bucket now n i t)) = tbl_id t"
  "buckets (snd (add_to_bucket now n i t)) = (buckets t)[i := snd (Bucket_add_node now n (buckets t ! i))]"
  by (simp_all add: add_to_bucket_def split: prod.split)

lemma table_ok_add_to_bucket:
  assumes "table_ok t" "addable t n"
  shows "table_ok (snd (add_to_bucket now n (home t n) t))"
proof -
  let ?i = "home t n" and ?t = "snd (add_to_bucket now n (home t n) t)"
  have same: "home ?t m = home t m" "addable ?t m = addable t m" for m
    by (simp_all add: home_def addable_def add_to_bucket_simps)
  have "bucket_ok (buckets ?t ! j) \<and> (\<forall>m \<in> set (buckets ?t ! j). last_response m \<noteq> None \<longrightarrow>
      addable ?t m \<and> home ?t m = j)" if j: "j < length (buckets t)" for j
  proof (cases "j = ?i")
    case True
    then have "bucket_ok (buckets ?t ! j)"
      using assms j bucket_ok_add [of "buckets t ! j" n now]
      by (simp add: add_to_bucket_simps table_ok_def addable_def)
    with True assms j Bucket_add_subset [of now n "buckets t ! j"] show ?thesis
      unfolding same by (auto simp: add_to_bucket_simps table_ok_def)
  next
    case False
    with assms(1) j show ?thesis unfolding same by (simp add: add_to_bucket_simps table_ok_def)
  qed
  with assms(1) show ?thesis by (simp add: table_ok_def add_to_bucket_simps)
qed

lemma table_ok_pop_and_push:
  assumes "table_ok t" "can_split_bucket (length (buckets t)) i" "pop_and_push t = (b, t')"
  shows "table_ok t' \<and> b = last (buckets t) \<and> buckets t' = butlast (buckets t) @ [Bucket_new, Bucket_new]"
proof -
  let ?n = "length (buckets t)"
  have t': "buckets t' = butlast (buckets t) @ [Bucket_new, Bucket_new]" "tbl_id t' = tbl_id t" "b = last (buckets t)"
    using assms(3) by (auto simp: pop_and_push_def Let_def)
  have n: "0 < ?n" "?n < MAX_BUCKETS" "length (buckets t') = Suc ?n"
    using assms(1,2) t' by (auto simp: table_ok_def can_split_bucket_def)
  have old: "home t' m = home t m" if "home t m < ?n - 1" for m
    using that n by (auto simp: home_def t' bucket_placement_def Let_def split: if_splits)
  have "bucket_ok (buckets t' ! j) \<and> (\<forall>m \<in> set (buckets t' ! j). last_response m \<noteq> None \<longrightarrow>
      addable t' m \<and> home t' m = j)" if j: "j < Suc ?n" for j
  proof (cases "j < ?n - 1")
    case True
    then have "buckets t' ! j = buckets t ! j" using n by (simp add: t' nth_append nth_butlast)
    moreover have "addable t' m = addable t m" for m by (simp add: addable_def t'(2))
    ultimately show ?thesis using True old table_okD [OF assms(1), of j] by auto
  next
    case False
    then have "buckets t' ! j = Bucket_new" using j n by (auto simp: t' nth_append nth_Cons')
    then show ?thesis by (auto dest: new_never_responded)
  qed
  with assms(1) n t' show ?thesis by (simp add: table_ok_def)
qed

text \<open>How one call of \<open>bucket_node\<close> goes on: it is done, or splits and calls itself.\<close>

lemma bucket_node_cases:
  assumes "table_ok t" "addable t n" "k = leading_bit_count (tbl_id t) (nd_id n)"
  obtains (ends) t1 where "bucket_node now n k t = t1" "t1 = snd (add_to_bucket now n (home t n) t)"
      "fst (add_to_bucket now n (home t n) t) \<or> \<not> can_split_bucket (length (buckets t)) (home t n)"
    | (splits) t1 t2 where "\<not> fst (add_to_bucket now n (home t n) t)" "t1 = snd (add_to_bucket now n (home t n) t)"
      "can_split_bucket (length (buckets t1)) (home t n)" "pop_and_push t1 = (last (buckets t1), t2)"
      "table_ok t1" "table_ok t2" "buckets t2 = butlast (buckets t1) @ [Bucket_new, Bucket_new]"
      "bucket_node now n k t = bucket_node now n k (add_each now (last (buckets t1)) t2)"
proof -
  obtain added t1 where add: "add_to_bucket now n (home t n) t = (added, t1)"
    by (cases "add_to_bucket now n (home t n) t")
  have home: "home t n = bucket_placement k (length (buckets t))" by (simp add: home_def assms(3))
  have len: "length (buckets t1) = length (buckets t)" using length_add_to_bucket [OF add] by simp
  show thesis
  proof (cases "\<not> added \<and> can_split_bucket (length (buckets t1)) (home t n)")
    case True
    obtain b t2 where pop: "pop_and_push t1 = (b, t2)" by (cases "pop_and_push t1")
    have "table_ok t1" using table_ok_add_to_bucket [OF assms(1,2), of now] add by simp
    from table_ok_pop_and_push [OF this _ pop] True this show thesis
      using True add pop home len by (intro splits [of t1 t2]) (auto simp: bucket_node.simps [of now n k t])
  next
    case False
    with add home len show thesis by (intro ends [of t1]) (auto simp: bucket_node.simps [of now n k t])
  qed
qed

lemma addable_same_id: "tbl_id t' = tbl_id t \<Longrightarrow> addable t' n = addable t n"
  by (simp add: addable_def)

lemma tbl_id_add [simp]:
  "tbl_id (table_add_node now n t) = tbl_id t" "tbl_id (bucket_node now n k t) = tbl_id t"
  "tbl_id (add_each now ns t) = tbl_id t"
proof (induction now n t and now n k t and now ns t rule: table_add_node_bucket_node_add_each.induct)
  case (1 now node self)
  then show ?case by (simp add: table_add_node.simps [of now node self] Let_def)
next
  case (2 now node k self)
  then show ?case
    using length_add_to_bucket [of now node _ self] length_pop_and_push
    by (auto simp: bucket_node.simps [of now node k self] Let_def split: prod.splits)
qed simp_all

lemma table_ok_adds:
  "table_ok t \<Longrightarrow> status now n \<noteq> Bad \<longrightarrow> \<not> node_eq n placeholder \<Longrightarrow> table_ok (table_add_node now n t)"
  "table_ok t \<Longrightarrow> addable t n \<Longrightarrow> k = leading_bit_count (tbl_id t) (nd_id n) \<Longrightarrow>
     table_ok (bucket_node now n k t)"
  "table_ok t \<Longrightarrow> \<forall>n \<in> set ns. status now n \<noteq> Bad \<longrightarrow> \<not> node_eq n placeholder \<Longrightarrow>
     table_ok (add_each now ns t)"
proof (induction now n t and now n k t and now ns t rule: table_add_node_bucket_node_add_each.induct)
  case (1 now node self)
  then show ?case by (auto simp: table_add_node.simps [of now node self] Let_def addable_def)
next
  case (2 now node k self)
  from "2.prems" show ?case
  proof (cases rule: bucket_node_cases [where now = now])
    case (ends t1)
    then show ?thesis using table_ok_add_to_bucket "2.prems" by simp
  next
    case (splits t1 t2)
    have home: "bucket_placement k (length (buckets self)) = home self node" by (simp add: home_def "2.prems"(3))
    have step: "add_to_bucket now node (bucket_placement k (length (buckets self))) self = (False, t1)"
      "\<not> False \<and> can_split_bucket (length (buckets t1)) (bucket_placement k (length (buckets self)))"
      using splits by (simp_all add: home prod_eq_iff)
    have last: "last (buckets t1) \<in> set (buckets t1)" using splits(5) by (auto simp: table_ok_def)
    then have "\<forall>n \<in> set (last (buckets t1)). status now n \<noteq> Bad \<longrightarrow> \<not> node_eq n placeholder"
      using table_okD(2) [OF splits(5)] status_responded by (auto simp: in_set_conv_nth addable_def)
    with "2.IH"(1) [OF refl step(1) [symmetric] step(2) splits(4) [symmetric] splits(6)]
    have ok: "table_ok (add_each now (last (buckets t1)) t2)" .
    have id: "tbl_id t2 = tbl_id self"
      using length_pop_and_push [OF splits(4)] splits(2) by (simp add: add_to_bucket_simps)
    from "2.IH"(2) [OF refl step(1) [symmetric] step(2) splits(4) [symmetric] ok] "2.prems"(2,3) id splits(8)
    show ?thesis by (simp add: addable_def)
  qed
qed simp_all

section \<open>No good node is lost\<close>

definition table_nodes :: "RoutingTable \<Rightarrow> Node list" where
  "table_nodes t = concat (buckets t)"

definition holds_good :: "time \<Rightarrow> RoutingTable \<Rightarrow> Node \<Rightarrow> bool" where
  "holds_good now t m \<longleftrightarrow> (\<exists>m' \<in> set (table_nodes t). node_eq m' m \<and> status now m' = Good)"

lemma holds_goodI:
  "i < length (buckets t) \<Longrightarrow> m' \<in> set (buckets t ! i) \<Longrightarrow> node_eq m' m \<Longrightarrow> status now m' = Good \<Longrightarrow>
   holds_good now t m"
  by (auto simp: holds_good_def table_nodes_def)

lemma holds_goodE:
  assumes "holds_good now t m"
  obtains i m' where "i < length (buckets t)" "m' \<in> set (buckets t ! i)" "node_eq m' m" "status now m' = Good"
proof -
  from assms obtain b m' where b: "b \<in> set (buckets t)" "m' \<in> set b" "node_eq m' m" "status now m' = Good"
    by (auto simp: holds_good_def table_nodes_def)
  from b(1) obtain i where "i < length (buckets t)" "b = buckets t ! i" by (auto simp: in_set_conv_nth)
  with b show thesis by (intro that [of i m']) simp_all
qed

lemma add_to_bucket_holds_good:
  assumes "i < length (buckets t)" "holds_good now t m"
  shows "holds_good now (snd (add_to_bucket now n i t)) m"
proof -
  let ?t = "snd (add_to_bucket now n i t)"
  obtain j m' where j: "j < length (buckets t)" "m' \<in> set (buckets t ! j)" "node_eq m' m" "status now m' = Good"
    using assms(2) by (rule holds_goodE)
  show ?thesis
  proof (cases "j = i")
    case True
    with Bucket_add_keeps_good [OF j(2,4), of n] obtain m'' where
      "m'' \<in> set (snd (Bucket_add_node now n (buckets t ! i)))" "node_eq m'' m'" "status now m'' = Good" by auto
    with j True show ?thesis
      by (intro holds_goodI [of i ?t m'']) (auto simp: add_to_bucket_simps dest: node_eq_trans)
  next
    case False
    with j show ?thesis by (intro holds_goodI [of j ?t m']) (auto simp: add_to_bucket_simps)
  qed
qed

text \<open>
  The loop of a split: as long as fewer than eight nodes went into each of the two new
  buckets, every further node finds room, so that all of them are taken over.
\<close>

lemma table_add_room:
  assumes "table_ok t" "status now n \<noteq> Bad" "addable t n" "not_bad now (buckets t ! home t n) < 8"
  shows "table_add_node now n t = snd (add_to_bucket now n (home t n) t)"
    and "fst (Bucket_add_node now n (buckets t ! home t n))"
proof -
  have "length (buckets t ! home t n) = 8"
    using table_okD(1) [OF assms(1) home_less [OF assms(1)]] by (simp add: bucket_ok_def MAX_BUCKET_SIZE_def)
  with assms(4) show room: "fst (Bucket_add_node now n (buckets t ! home t n))" by (intro not_bad_room) simp
  have "bucket_node now n (leading_bit_count (tbl_id t) (nd_id n)) t = snd (add_to_bucket now n (home t n) t)"
    using room unfolding add_to_bucket_simps(1) [symmetric]
    by (cases "add_to_bucket now n (home t n) t")
      (simp add: bucket_node.simps [of now n "leading_bit_count (tbl_id t) (nd_id n)" t] Let_def flip: home_def)
  with assms show "table_add_node now n t = snd (add_to_bucket now n (home t n) t)"
    by (simp add: table_add_node.simps [of now n t] addable_def)
qed

lemma add_each_holds_good:
  assumes "table_ok t" "\<forall>n \<in> set ns. status now n \<noteq> Bad \<longrightarrow> addable t n \<and>
      not_bad now (buckets t ! home t n) \<le> c" "length ns + c \<le> 8"
  shows "(\<forall>n \<in> set ns. status now n = Good \<longrightarrow> holds_good now (add_each now ns t) n) \<and>
    (\<forall>m. holds_good now t m \<longrightarrow> holds_good now (add_each now ns t) m)"
  using assms
proof (induction ns arbitrary: t c)
  case (Cons n ns)
  let ?t = "table_add_node now n t"
  have IH: "(\<forall>n \<in> set ns. status now n = Good \<longrightarrow> holds_good now (add_each now ns ?t) n) \<and>
    (\<forall>m. holds_good now ?t m \<longrightarrow> holds_good now (add_each now ns ?t) m)" if bad: "status now n = Bad"
    using Cons.IH [of t c] Cons.prems bad by (simp add: table_add_node.simps)
  show ?case
  proof (cases "status now n = Bad")
    case True
    with IH show ?thesis by (simp add: table_add_node.simps)
  next
    case False
    then have n: "addable t n" "not_bad now (buckets t ! home t n) < 8" using Cons.prems(2,3) by auto
    note add = table_add_room [OF Cons.prems(1) False n]
    have ok: "table_ok ?t" using table_ok_add_to_bucket [OF Cons.prems(1) n(1)] add(1) by simp
    have same: "home ?t m = home t m" "addable ?t m = addable t m" for m
      by (simp_all add: home_def addable_def add(1) add_to_bucket_simps)
    have "not_bad now (buckets ?t ! home t m) \<le> Suc (not_bad now (buckets t ! home t m))" for m
      using not_bad_add [of now n "buckets t ! home t n"] home_less [OF Cons.prems(1), of n]
      by (auto simp: add(1) add_to_bucket_simps nth_list_update)
    then have "\<forall>m \<in> set ns. status now m \<noteq> Bad \<longrightarrow> addable ?t m \<and> not_bad now (buckets ?t ! home ?t m) \<le> Suc c"
      unfolding same using Cons.prems(2) by (auto intro: order_trans)
    with Cons.IH [OF ok, of "Suc c"] Cons.prems(3) have IH:
      "(\<forall>n \<in> set ns. status now n = Good \<longrightarrow> holds_good now (add_each now ns ?t) n) \<and>
       (\<forall>m. holds_good now ?t m \<longrightarrow> holds_good now (add_each now ns ?t) m)" by simp
    have keep: "holds_good now ?t m" if "holds_good now t m" for m
      unfolding add(1) by (rule add_to_bucket_holds_good [OF home_less [OF Cons.prems(1)] that])
    have new: "holds_good now ?t n" if good: "status now n = Good"
    proof -
      obtain m where "m \<in> set (snd (Bucket_add_node now n (buckets t ! home t n)))" "node_eq m n" "Good \<le> status now m"
        using Bucket_add_adds [OF add(2) False] good by auto
      then show ?thesis
        using home_less [OF Cons.prems(1), of n]
        by (intro holds_goodI [of "home t n" ?t m]) (auto simp: add(1) add_to_bucket_simps intro: antisym)
    qed
    from IH keep new show ?thesis by auto
  qed
qed simp

text \<open>After a split, the nodes of the bucket taken out belong to one of the two new buckets.\<close>

lemma split_nodes_room:
  assumes "table_ok t" "can_split_bucket (length (buckets t)) i" "pop_and_push t = (b, t')"
    and "n \<in> set b" "status now n \<noteq> Bad"
  shows "addable t' n \<and> not_bad now (buckets t' ! home t' n) = 0"
proof -
  let ?l = "length (buckets t) - 1"
  note split = table_ok_pop_and_push [OF assms(1-3)]
  have l: "?l < length (buckets t)" "b = buckets t ! ?l"
    using assms(1) split by (auto simp: table_ok_def last_conv_nth)
  have n: "addable t n" "home t n = ?l"
    using table_okD(2) [OF assms(1) l(1), of n] assms(4) status_responded [OF assms(5)] l(2) by auto
  have id: "tbl_id t' = tbl_id t" using length_pop_and_push [OF assms(3)] by simp
  have len: "length (buckets t') = Suc (length (buckets t))" using split l(1) by simp
  have "home t' n \<ge> ?l" "home t' n \<le> Suc ?l"
    using n(2) l(1) unfolding home_def id len by (auto simp: bucket_placement_def Let_def split: if_splits)
  then have "buckets t' ! home t' n = Bucket_new"
    using split l(1) by (cases "home t' n = ?l") (auto simp: nth_append nth_Cons')
  with n(1) show ?thesis by (simp add: addable_same_id [OF id])
qed

lemma pop_and_push_holds_good:
  assumes "table_ok t" "can_split_bucket (length (buckets t)) i" "pop_and_push t = (b, t')" "holds_good now t m"
  shows "holds_good now t' m \<or> (\<exists>m' \<in> set b. node_eq m' m \<and> status now m' = Good)"
proof -
  obtain j m' where j: "j < length (buckets t)" "m' \<in> set (buckets t ! j)" "node_eq m' m" "status now m' = Good"
    using assms(4) by (rule holds_goodE)
  note split = table_ok_pop_and_push [OF assms(1-3)]
  show ?thesis
  proof (cases "j = length (buckets t) - 1")
    case True
    then have "b = buckets t ! j" using split assms(1) by (auto simp: table_ok_def last_conv_nth)
    with j show ?thesis by auto
  next
    case False
    with j(1) have "j < length (buckets t) - 1" by simp
    with split have "buckets t' ! j = buckets t ! j" by (simp add: nth_append nth_butlast)
    with j False split show ?thesis by (intro disjI1 holds_goodI [of j t' m']) auto
  qed
qed

lemma split_holds_good:
  assumes "table_ok t" "can_split_bucket (length (buckets t)) i" "pop_and_push t = (b, t')" "holds_good now t m"
  shows "holds_good now (add_each now b t') m"
proof -
  note split = table_ok_pop_and_push [OF assms(1-3)]
  have "length b = 8"
    using table_okD(1) [OF assms(1), of "length (buckets t) - 1"] split assms(1)
    by (auto simp: table_ok_def bucket_ok_def MAX_BUCKET_SIZE_def last_conv_nth)
  with add_each_holds_good [of t' b now 0] split split_nodes_room [OF assms(1-3)]
  have each: "(\<forall>n \<in> set b. status now n = Good \<longrightarrow> holds_good now (add_each now b t') n) \<and>
    (\<forall>m. holds_good now t' m \<longrightarrow> holds_good now (add_each now b t') m)" by simp
  from pop_and_push_holds_good [OF assms] show ?thesis
  proof
    assume "\<exists>m' \<in> set b. node_eq m' m \<and> status now m' = Good"
    then obtain m' where "node_eq m' m" "holds_good now (add_each now b t') m'" using each by blast
    then show ?thesis by (auto simp: holds_good_def dest: node_eq_trans)
  qed (use each in blast)
qed

text \<open>Induction over the splits one call of \<open>bucket_node\<close> makes, on a well-formed table.\<close>

lemma bucket_node_rec:
  fixes n0 :: Node and t0 t1 :: RoutingTable and ns :: "Node list"
  assumes ends: "\<And>t. table_ok t \<Longrightarrow> addable t n \<Longrightarrow>
      fst (add_to_bucket now n (home t n) t) \<or> \<not> can_split_bucket (length (buckets t)) (home t n) \<Longrightarrow>
      P t (snd (add_to_bucket now n (home t n) t))"
    and splits: "\<And>t t1 t2 t'. table_ok t \<Longrightarrow> t1 = snd (add_to_bucket now n (home t n) t) \<Longrightarrow> table_ok t1 \<Longrightarrow>
      can_split_bucket (length (buckets t1)) (home t n) \<Longrightarrow> pop_and_push t1 = (last (buckets t1), t2) \<Longrightarrow>
      P (add_each now (last (buckets t1)) t2) t' \<Longrightarrow> P t t'"
  shows "True"
    and "now' = now \<Longrightarrow> n' = n \<Longrightarrow> table_ok t \<Longrightarrow> addable t n \<Longrightarrow>
      k = leading_bit_count (tbl_id t) (nd_id n) \<Longrightarrow> P t (bucket_node now' n' k t)"
    and "True"
proof (induction now' n0 t0 and now' n' k t and now' ns t1 rule: table_add_node_bucket_node_add_each.induct)
  case (2 now' node k self)
  from "2.prems" have *: "table_ok self" "addable self n" "k = leading_bit_count (tbl_id self) (nd_id n)"
    and eq: "now' = now" "node = n" by simp_all
  from * show ?case
  proof (cases rule: bucket_node_cases [where now = now])
    case (ends t1)
    then show ?thesis using assms(1) * eq by simp
  next
    case (splits t1 t2)
    have home: "bucket_placement k (length (buckets self)) = home self n" by (simp add: home_def *(3))
    have step: "add_to_bucket now' node (bucket_placement k (length (buckets self))) self = (False, t1)"
      "\<not> False \<and> can_split_bucket (length (buckets t1)) (bucket_placement k (length (buckets self)))"
      using splits by (simp_all add: home prod_eq_iff eq)
    have "\<forall>m \<in> set (last (buckets t1)). status now m \<noteq> Bad \<longrightarrow> \<not> node_eq m placeholder"
      using split_nodes_room [OF splits(5,3,4)] by (auto simp: addable_def)
    then have "table_ok (add_each now (last (buckets t1)) t2)" by (rule table_ok_adds(3) [OF splits(6)])
    moreover have "tbl_id t2 = tbl_id self"
      using length_pop_and_push [OF splits(4)] by (simp add: splits(2) add_to_bucket_simps)
    ultimately have "P (add_each now (last (buckets t1)) t2) (bucket_node now n k (add_each now (last (buckets t1)) t2))"
      using "2.IH"(2) [OF refl step(1) [symmetric] step(2) splits(4) [symmetric]] * eq by (simp add: addable_def)
    then show ?thesis using assms(2) [OF *(1) splits(2,5,3,4)] splits(8) eq by simp
  qed
qed simp_all

lemma bucket_node_holds_good:
  assumes "table_ok t" "addable t n" "k = leading_bit_count (tbl_id t) (nd_id n)" "holds_good now t m"
  shows "holds_good now (bucket_node now n k t) m"
proof -
  have "holds_good now t m \<longrightarrow> holds_good now (bucket_node now n k t) m"
    by (rule bucket_node_rec(2) [where P = "\<lambda>t t'. holds_good now t m \<longrightarrow> holds_good now t' m",
          OF _ _ refl refl assms(1-3)])
      (use add_to_bucket_holds_good home_less split_holds_good in blast)+
  with assms(4) show ?thesis by blast
qed

text \<open>
  At the end the node, or an equal one that is no worse, is in its bucket, or that bucket holds
  no node of lower status.
\<close>

definition settled :: "time \<Rightarrow> Node \<Rightarrow> RoutingTable \<Rightarrow> bool" where
  "settled now n t \<longleftrightarrow>
     (\<exists>m \<in> set (buckets t ! home t n). node_eq m n \<and> status now n \<le> status now m) \<or>
     (\<forall>m \<in> set (buckets t ! home t n). status now n \<le> status now m)"

lemma add_to_bucket_settled:
  assumes "table_ok t"
  shows "settled now n (snd (add_to_bucket now n (home t n) t))"
proof -
  let ?t = "snd (add_to_bucket now n (home t n) t)"
  have "home ?t n = home t n" by (simp add: home_def add_to_bucket_simps)
  then have b: "buckets ?t ! home ?t n = snd (Bucket_add_node now n (buckets t ! home t n))"
    using home_less [OF assms, of n] by (simp add: add_to_bucket_simps)
  obtain r b' where Pair: "Bucket_add_node now n (buckets t ! home t n) = (r, b')"
    by (cases "Bucket_add_node now n (buckets t ! home t n)")
  then show ?thesis
    using Bucket_add_adds [of now n "buckets t ! home t n"] unfolding settled_def b
    by (cases rule: Bucket_add_cases) (auto simp: Pair)
qed

lemma bucket_node_settled:
  assumes "table_ok t" "addable t n" "k = leading_bit_count (tbl_id t) (nd_id n)"
  shows "settled now n (bucket_node now n k t)"
  by (rule bucket_node_rec(2) [where P = "\<lambda>t t'. settled now n t'", OF _ _ refl refl assms])
    (simp_all add: add_to_bucket_settled)

section \<open>Properties\<close>

text \<open>
  C9. Whatever nodes are added to a new table, at whatever times, the table has between 1 and
  160 buckets of eight places each, no node twice in a bucket, every node in the bucket of its
  common prefix with our id (the last bucket taking all longer prefixes), and never our own id.
\<close>

theorem routing_table_invariant:
  assumes "sha_ok node_id" "\<forall>(now, n) \<in> set adds. \<not> node_eq n placeholder"
  shows "table_ok (fold (\<lambda>(now, n). table_add_node now n) adds (RoutingTable_new node_id))"
proof -
  have "table_ok (fold (\<lambda>(now, n). table_add_node now n) adds t)" if "table_ok t" for t
    using that assms(2) by (induction adds arbitrary: t) (auto intro!: table_ok_adds(1))
  with table_ok_new [OF assms(1)] show ?thesis by blast
qed

theorem routing_table_invariant_witness:
  "table_ok (table_add_node 0 (Node_as_good 0 (replicate 20 1) default_route_v4) (RoutingTable_new (replicate 20 0)))"
  using routing_table_invariant [of "replicate 20 0" "[(0, Node_as_good 0 (replicate 20 1) default_route_v4)]"]
  by (simp add: sha_ok_def SHA_HASH_LEN_def node_eq_def Node_as_good_def placeholder_def Node_as_bad_def
      NODE_ID_LEN_def Let_def)

text \<open>
  C4. Adding a node, with all the splits it causes, never drops a good node from the table: it
  is still there, or an equal node that is good. The node itself is in its bucket afterwards,
  or an equal node of no lower status, or that bucket has no node of lower status.
\<close>

theorem routing_table_add_node:
  assumes "table_ok t" "\<not> node_eq n placeholder" "status now n \<noteq> Bad"
    and "leading_bit_count (tbl_id t) (nd_id n) \<noteq> MAX_BUCKETS"
  shows "settled now n (table_add_node now n t) \<and>
    (\<forall>m. holds_good now t m \<longrightarrow> holds_good now (table_add_node now n t) m)"
proof -
  let ?k = "leading_bit_count (tbl_id t) (nd_id n)"
  have "addable t n" using assms by (simp add: addable_def)
  moreover have "table_add_node now n t = bucket_node now n ?k t"
    using assms by (simp add: table_add_node.simps [of now n t])
  ultimately show ?thesis
    using bucket_node_settled [OF assms(1) _ refl] bucket_node_holds_good [OF assms(1) _ refl] by simp
qed

theorem routing_table_add_node_witness:
  "settled 0 (Node_as_good 0 (1 # replicate 19 0) default_route_v4)
     (table_add_node 0 (Node_as_good 0 (1 # replicate 19 0) default_route_v4) (RoutingTable_new (replicate 20 0)))"
proof -
  let ?n = "Node_as_good 0 (1 # replicate 19 0) default_route_v4" and ?t = "RoutingTable_new (replicate 20 0)"
  have "table_ok ?t" by (rule table_ok_new) (simp add: sha_ok_def SHA_HASH_LEN_def)
  moreover have "\<not> node_eq ?n placeholder" "status 0 ?n \<noteq> Bad"
    by (simp_all add: node_eq_def Node_as_good_def placeholder_def Node_as_bad_def NODE_ID_LEN_def SHA_HASH_LEN_def
        Let_def numeral_eq_Suc status_def recently_responded_def MAX_LAST_SEEN_MINS_def minutes_def)
  moreover have "leading_bit_count (tbl_id ?t) (nd_id ?n) \<noteq> MAX_BUCKETS"
    unfolding RoutingTable_new_def Node_as_good_def by code_simp
  ultimately show ?thesis using routing_table_add_node [of ?t ?n 0] by blast
qed

end
