(* ===== verification/Dht_Closest.thy ===== *)
theory Dht_Closest
  imports Dht_Table
begin

text \<open>
  \<open>bip_dht/src/routing/table.rs\<close>, the part that reads the table: the iterator over all
  buckets, \<open>find_node\<close>, and the iterator over the nodes closest to an id, which walks the
  buckets outwards from the one of the id and hands out the nodes of the last bucket as if the
  buckets still to be split off were already there. The clock is read each time a node's
  status is asked for; the theorems are about an iteration at one time \<open>now\<close>.
\<close>

section \<open>The iterator over the buckets\<close>

datatype BucketContents = Empty | Sorted Bucket | Assorted Bucket

fun contents_is_empty :: "BucketContents \<Rightarrow> bool" where
  "contents_is_empty Empty = True"
| "contents_is_empty _ = False"

fun contents_is_sorted :: "BucketContents \<Rightarrow> bool" where
  "contents_is_sorted (Sorted _) = True"
| "contents_is_sorted _ = False"

fun contents_is_assorted :: "BucketContents \<Rightarrow> bool" where
  "contents_is_assorted (Assorted _) = True"
| "contents_is_assorted _ = False"

record Buckets =
  bks_buckets :: "Bucket list"
  bks_index :: nat

definition Buckets_new :: "Bucket list \<Rightarrow> Buckets" where
  "Buckets_new bs = \<lparr>bks_buckets = bs, bks_index = 0\<rparr>"

definition Buckets_next :: "Buckets \<Rightarrow> BucketContents option \<times> Buckets" where
  "Buckets_next self =
     (let bs = bks_buckets self; self' = self\<lparr>bks_index := bks_index self + 1\<rparr>
      in if bks_index self > MAX_BUCKETS then (None, self)
         else if bks_index self = MAX_BUCKETS then
           (if length bs = MAX_BUCKETS \<or> bs = [] then None else Some (Assorted (bs ! (length bs - 1))), self')
         else if bks_index self + 1 < length bs \<or> length bs = MAX_BUCKETS then
           (Some (Sorted (bs ! (bks_index self' - 1))), self')
         else (Some Empty, self'))"

text \<open>What the iterator yields until it first returns \<open>None\<close>.\<close>

function buckets_list :: "Buckets \<Rightarrow> BucketContents list" where
  "buckets_list it =
     (case Buckets_next it of (None, _) \<Rightarrow> [] | (Some c, it') \<Rightarrow> c # buckets_list it')"
  by pat_completeness auto

termination buckets_list
  by (relation "measure (\<lambda>it. MAX_BUCKETS + 1 - bks_index it)")
    (auto simp: Buckets_next_def Let_def split: if_splits)

declare buckets_list.simps [simp del]

definition table_buckets :: "RoutingTable \<Rightarrow> Buckets" where
  "table_buckets self = Buckets_new (buckets self)"

text \<open>The place of a bucket in the iteration; buckets not yet created are empty.\<close>

definition contents_at :: "Bucket list \<Rightarrow> nat \<Rightarrow> BucketContents" where
  "contents_at bs i = (if i + 1 < length bs \<or> length bs = MAX_BUCKETS then Sorted (bs ! i) else Empty)"

definition assorted_at_end :: "Bucket list \<Rightarrow> BucketContents list" where
  "assorted_at_end bs = (if length bs = MAX_BUCKETS \<or> bs = [] then [] else [Assorted (last bs)])"

lemma buckets_list_from:
  "i \<le> MAX_BUCKETS \<Longrightarrow> buckets_list \<lparr>bks_buckets = bs, bks_index = i\<rparr> =
     map (contents_at bs) [i..<MAX_BUCKETS] @ assorted_at_end bs"
proof (induction "MAX_BUCKETS - i" arbitrary: i)
  case 0
  then have "i = MAX_BUCKETS" by simp
  then show ?case
    by (auto simp: buckets_list.simps [of "\<lparr>bks_buckets = bs, bks_index = _\<rparr>"] Buckets_next_def Let_def
        assorted_at_end_def last_conv_nth buckets_list.simps)
next
  case (Suc d)
  then have i: "i < MAX_BUCKETS" by simp
  then have "buckets_list \<lparr>bks_buckets = bs, bks_index = i\<rparr> =
      contents_at bs i # buckets_list \<lparr>bks_buckets = bs, bks_index = Suc i\<rparr>"
    by (subst buckets_list.simps) (simp add: Buckets_next_def Let_def contents_at_def)
  moreover have "buckets_list \<lparr>bks_buckets = bs, bks_index = Suc i\<rparr> =
      map (contents_at bs) [Suc i..<MAX_BUCKETS] @ assorted_at_end bs"
    using Suc i by (intro Suc.hyps(1)) auto
  moreover have "[i..<MAX_BUCKETS] = i # [Suc i..<MAX_BUCKETS]" using i by (rule upt_conv_Cons)
  ultimately show ?case by simp
qed

lemma buckets_list_table:
  "buckets_list (table_buckets t) = map (contents_at (buckets t)) [0..<MAX_BUCKETS] @ assorted_at_end (buckets t)"
  using buckets_list_from [of 0 "buckets t"] by (simp add: table_buckets_def Buckets_new_def)

section \<open>Finding a node\<close>

definition find_node :: "time \<Rightarrow> Node \<Rightarrow> RoutingTable \<Rightarrow> Node option" where
  "find_node now node self =
     (let bucket_index = leading_bit_count (tbl_id self) (nd_id node);
          opt_bucket_contents =
            (case get_at (buckets_list (table_buckets self)) bucket_index of
               Some c \<Rightarrow> Some c
             | None \<Rightarrow> find (\<lambda>c. case c of Empty \<Rightarrow> False | Sorted _ \<Rightarrow> False | Assorted _ \<Rightarrow> True)
                          (buckets_list (table_buckets self)))
      in case opt_bucket_contents of
           Some (Sorted b) \<Rightarrow> find (\<lambda>n. node_eq n node) (pingable_nodes now b)
         | Some (Assorted b) \<Rightarrow> find (\<lambda>n. node_eq n node) (pingable_nodes now b)
         | _ \<Rightarrow> None)"

lemma find_node_eq:
  assumes "leading_bit_count (tbl_id t) (nd_id n) < MAX_BUCKETS"
  shows "find_node now n t =
    (let k = leading_bit_count (tbl_id t) (nd_id n); bs = buckets t
     in if k + 1 < length bs \<or> length bs = MAX_BUCKETS
        then find (\<lambda>m. node_eq m n) (pingable_nodes now (bs ! k)) else None)"
proof -
  let ?k = "leading_bit_count (tbl_id t) (nd_id n)"
  have "get_at (buckets_list (table_buckets t)) ?k = Some (contents_at (buckets t) ?k)"
    using assms by (simp add: buckets_list_table nth_append)
  then have "find_node now n t = (case contents_at (buckets t) ?k of
      Sorted b \<Rightarrow> find (\<lambda>m. node_eq m n) (pingable_nodes now b)
    | Assorted b \<Rightarrow> find (\<lambda>m. node_eq m n) (pingable_nodes now b) | Empty \<Rightarrow> None)"
    by (simp only: find_node_def Let_def option.case)
  then show ?thesis by (simp add: Let_def contents_at_def)
qed

section \<open>The order in which the buckets are visited\<close>

definition index_is_in_bounds :: "nat \<Rightarrow> nat option \<Rightarrow> bool" where
  "index_is_in_bounds len checked_index \<longleftrightarrow>
     (case checked_index of Some index \<Rightarrow> index < len | None \<Rightarrow> False)"

text \<open>
  \<open>usize\<close> subtraction and addition; the indices stay below 400, so that \<open>checked_add\<close>
  never fails.
\<close>

definition checked_sub :: "nat \<Rightarrow> nat \<Rightarrow> nat option" where
  "checked_sub a b = (if b \<le> a then Some (a - b) else None)"

definition checked_add :: "nat \<Rightarrow> nat \<Rightarrow> nat option" where
  "checked_add a b = Some (a + b)"

definition next_bucket_index :: "nat \<Rightarrow> nat \<Rightarrow> nat \<Rightarrow> nat option" where
  "next_bucket_index num_buckets start_index curr_index =
     (if curr_index = start_index then
        (let right_index = checked_add start_index 1; left_index = checked_sub start_index 1
         in if index_is_in_bounds num_buckets right_index then right_index
            else if index_is_in_bounds num_buckets left_index then left_index
            else None)
      else if curr_index > start_index then
        (let offset = curr_index - start_index;
             left_index = checked_sub start_index offset; right_index = checked_add curr_index 1
         in if index_is_in_bounds num_buckets left_index then left_index
            else if index_is_in_bounds num_buckets right_index then right_index
            else None)
      else
        (let offset = (start_index - curr_index) + 1;
             right_index = checked_add start_index offset; left_index = checked_sub curr_index 1
         in if index_is_in_bounds num_buckets right_index then right_index
            else if index_is_in_bounds num_buckets left_index then left_index
            else None))"

text \<open>
  The rank of an index: the start first, then by distance, the right one of two at the same
  distance first. The next index is the one of the next rank.
\<close>

definition index_rank :: "nat \<Rightarrow> nat \<Rightarrow> nat" where
  "index_rank s i = (if s \<le> i then 2 * (i - s) else 2 * (s - i) + 1)"

lemma index_rank_inj [simp]: "index_rank s i = index_rank s j \<longleftrightarrow> i = j"
proof
  assume eq: "index_rank s i = index_rank s j"
  then have "even (index_rank s i) = even (index_rank s j)" by simp
  then have "s \<le> i \<longleftrightarrow> s \<le> j" by (simp add: index_rank_def split: if_splits)
  with eq show "i = j" by (simp add: index_rank_def split: if_splits)
qed simp

lemma index_rank_start [simp]: "index_rank s s = 0"
  by (simp add: index_rank_def)

lemmas next_index_defs = next_bucket_index_def checked_sub_def checked_add_def index_is_in_bounds_def Let_def

lemma next_bucket_Some:
  assumes "next_bucket_index n s c = Some d"
  shows "d < n" "index_rank s c < index_rank s d" "i < n \<Longrightarrow> index_rank s c < index_rank s i \<Longrightarrow> index_rank s d \<le> index_rank s i"
  using assms by (auto simp: next_index_defs index_rank_def split: if_splits)

lemma next_bucket_None:
  "next_bucket_index n s c = None \<Longrightarrow> s \<le> n \<Longrightarrow> i < n \<Longrightarrow> index_rank s i \<le> index_rank s c"
  by (auto simp: next_index_defs index_rank_def split: if_splits)

definition rank_left :: "nat \<Rightarrow> nat \<Rightarrow> nat \<Rightarrow> nat" where
  "rank_left n s c = 2 * (n + s) + 2 - index_rank s c"

lemma rank_left_next: "next_bucket_index n s c = Some d \<Longrightarrow> rank_left n s d < rank_left n s c"
proof -
  assume d: "next_bucket_index n s c = Some d"
  have "d - s \<le> n + s" "s - d \<le> n + s" using next_bucket_Some(1) [OF d] by simp_all
  then have "index_rank s d \<le> 2 * (n + s) + 1" unfolding index_rank_def by simp
  with next_bucket_Some(2) [OF d] show ?thesis by (simp add: rank_left_def)
qed

text \<open>The indices visited from \<open>c\<close> on.\<close>

function visits :: "nat \<Rightarrow> nat \<Rightarrow> nat \<Rightarrow> nat list" where
  "visits n s c = c # (case next_bucket_index n s c of None \<Rightarrow> [] | Some d \<Rightarrow> visits n s d)"
  by pat_completeness auto

termination visits
  by (relation "measure (\<lambda>(n, s, c). rank_left n s c)") (auto simp: rank_left_next)

declare visits.simps [simp del]

lemma visits_sorted:
  "s \<le> n \<Longrightarrow> sorted_wrt (\<lambda>i j. index_rank s i < index_rank s j) (visits n s c) \<and>
   set (visits n s c) = insert c {i. i < n \<and> index_rank s c < index_rank s i}"
proof (induction n s c rule: visits.induct)
  case (1 n s c)
  show ?case
  proof (cases "next_bucket_index n s c")
    case None
    then show ?thesis using next_bucket_None [OF None "1.prems"]
      by (auto simp: visits.simps [of n s c] dest: leD)
  next
    case (Some d)
    note IH = "1.IH" [OF Some "1.prems"]
    have "insert d {i. i < n \<and> index_rank s d < index_rank s i} = {i. i < n \<and> index_rank s c < index_rank s i}"
      using next_bucket_Some [OF Some] by (auto simp: order.order_iff_strict)
    with IH show ?thesis by (simp add: visits.simps [of n s c] Some)
  qed
qed

lemma visits_distinct: "s \<le> n \<Longrightarrow> distinct (visits n s c)"
proof -
  assume "s \<le> n"
  then have "sorted_wrt (<) (map (index_rank s) (visits n s c))"
    using visits_sorted [of s n c] by (simp add: sorted_wrt_map)
  then show ?thesis by (simp add: strict_sorted_iff distinct_map)
qed

lemma visits_Cons: "visits n s c = c # tl (visits n s c)"
  by (subst (1 2) visits.simps) simp

lemma index_rank_pos: "0 < index_rank s i \<longleftrightarrow> i \<noteq> s"
  by (auto simp: index_rank_def)

lemma visits_start: "s \<le> n \<Longrightarrow> set (visits n s s) = insert s {0..<n}"
proof -
  assume "s \<le> n"
  then have "set (visits n s s) = insert s {i. i < n \<and> i \<noteq> s}"
    using conjunct2 [OF visits_sorted [of s n s]] by (simp add: index_rank_pos)
  also have "\<dots> = insert s {0..<n}" by auto
  finally show ?thesis .
qed

section \<open>The iterator over the closest nodes\<close>

record ClosestNodes =
  cn_buckets :: "Bucket list"
  current_iter :: "Node list option"
  current_index :: nat
  start_index :: nat
  assorted_nodes :: "(nat \<times> Node \<times> bool) list option"

definition is_good_node :: "time \<Rightarrow> Node \<Rightarrow> bool" where
  "is_good_node now node \<longleftrightarrow> (let status = status now node in status = Good \<or> status = Questionable)"

text \<open>
  The filter is lazy: an iterator of good nodes is the rest of the bucket, and \<open>next\<close> skips the
  nodes that are not good at that time.
\<close>

definition good_iter_next :: "time \<Rightarrow> Node list \<Rightarrow> Node option \<times> Node list" where
  "good_iter_next now iter =
     (case dropWhile (\<lambda>node. \<not> is_good_node now node) iter of [] \<Rightarrow> (None, []) | node # rest \<Rightarrow> (Some node, rest))"

text \<open>The table, and so the slice of buckets, is never empty.\<close>

definition bucket_iterator :: "Bucket list \<Rightarrow> nat \<Rightarrow> Node list option" where
  "bucket_iterator bs index =
     get_at (if length bs = MAX_BUCKETS then bs else sub_list bs 0 (length bs - 1)) index"

definition precompute_assorted_nodes :: "Bucket list \<Rightarrow> ShaHash \<Rightarrow> (nat \<times> Node \<times> bool) list option" where
  "precompute_assorted_nodes bs self_node_id =
     (if length bs = MAX_BUCKETS then None
      else (let assorted_bucket = bs ! (length bs - 1)
            in case assorted_bucket of
                 [] \<Rightarrow> None
               | init_reference # _ \<Rightarrow>
                   Some (fold (\<lambda>index assorted_nodes.
                            let node = assorted_bucket ! index;
                                bucket_index = leading_bit_count self_node_id (nd_id node)
                            in assorted_nodes[index := (bucket_index, node, False)])
                          [0..<length assorted_bucket] (replicate MAX_BUCKET_SIZE (0, init_reference, True)))))"

definition ClosestNodes_new :: "Bucket list \<Rightarrow> ShaHash \<Rightarrow> ShaHash \<Rightarrow> ClosestNodes" where
  "ClosestNodes_new bs self_node_id other_node_id =
     (let start_index = leading_bit_count self_node_id other_node_id;
          current_iter = bucket_iterator bs start_index;
          assorted_nodes = precompute_assorted_nodes bs self_node_id
      in \<lparr>cn_buckets = bs, current_iter = current_iter, current_index = start_index,
          start_index = start_index, assorted_nodes = assorted_nodes\<rparr>)"

definition closest_nodes :: "ShaHash \<Rightarrow> RoutingTable \<Rightarrow> ClosestNodes" where
  "closest_nodes node_id self = ClosestNodes_new (buckets self) (tbl_id self) node_id"

text \<open>The first two steps of \<open>next\<close>: the current bucket, then the nodes of the last bucket.\<close>

definition next_in_bucket :: "time \<Rightarrow> ClosestNodes \<Rightarrow> Node option \<times> ClosestNodes" where
  "next_in_bucket now self =
     (case current_iter self of
        Some iter \<Rightarrow> (case good_iter_next now iter of (node, rest) \<Rightarrow> (node, self\<lparr>current_iter := Some rest\<rparr>))
      | None \<Rightarrow> (None, self))"

definition next_assorted :: "time \<Rightarrow> ClosestNodes \<Rightarrow> Node option \<times> ClosestNodes" where
  "next_assorted now self =
     (case assorted_nodes self of
        Some nodes \<Rightarrow>
          (case position (\<lambda>(index, node, given). is_good_node now node \<and> index = current_index self \<and> \<not> given) nodes of
             Some i \<Rightarrow>
               (case nodes ! i of
                  (index, node, given) \<Rightarrow> (Some node, self\<lparr>assorted_nodes := Some (nodes[i := (index, node, True)])\<rparr>))
           | None \<Rightarrow> (None, self))
      | None \<Rightarrow> (None, self))"

function ClosestNodes_next :: "time \<Rightarrow> ClosestNodes \<Rightarrow> Node option \<times> ClosestNodes" where
  "ClosestNodes_next now self =
     (case next_in_bucket now self of
        (Some node, self) \<Rightarrow> (Some node, self)
      | (None, self) \<Rightarrow>
          (case next_assorted now self of
             (Some node, self) \<Rightarrow> (Some node, self)
           | (None, self) \<Rightarrow>
               (case next_bucket_index MAX_BUCKETS (start_index self) (current_index self) of
                  Some new_index \<Rightarrow>
                    ClosestNodes_next now (self\<lparr>current_index := new_index,
                      current_iter := bucket_iterator (cn_buckets self) new_index\<rparr>)
                | None \<Rightarrow> (None, self))))"
  by pat_completeness auto

lemma next_in_bucket_index:
  "next_in_bucket now st = (r, st') \<Longrightarrow> start_index st' = start_index st"
  "next_in_bucket now st = (r, st') \<Longrightarrow> current_index st' = current_index st"
  "next_in_bucket now st = (r, st') \<Longrightarrow> cn_buckets st' = cn_buckets st"
  "next_in_bucket now st = (r, st') \<Longrightarrow> assorted_nodes st' = assorted_nodes st"
  by (auto simp: next_in_bucket_def split: option.splits prod.splits)

lemma next_assorted_index:
  "next_assorted now st = (r, st') \<Longrightarrow> start_index st' = start_index st"
  "next_assorted now st = (r, st') \<Longrightarrow> current_index st' = current_index st"
  "next_assorted now st = (r, st') \<Longrightarrow> cn_buckets st' = cn_buckets st"
  "next_assorted now st = (r, st') \<Longrightarrow> current_iter st' = current_iter st"
  by (auto simp: next_assorted_def split: option.splits prod.splits)

definition cn_rank :: "ClosestNodes \<Rightarrow> nat" where
  "cn_rank st = rank_left MAX_BUCKETS (start_index st) (current_index st)"

termination ClosestNodes_next
proof (relation "measure (\<lambda>(now, st). cn_rank st)", goal_cases)
  case (2 now self r1 st1 r2 st2 new_index)
  have "start_index st2 = start_index self" "current_index st2 = current_index self"
    using 2 by (metis next_in_bucket_index(1) next_assorted_index(1), metis next_in_bucket_index(2) next_assorted_index(2))
  with 2 rank_left_next show ?case by (simp add: cn_rank_def)
qed simp

declare ClosestNodes_next.simps [simp del]

section \<open>What the iterator yields\<close>

lemma ClosestNodes_next_cases:
  obtains (bucket) node st1 where "next_in_bucket now st = (Some node, st1)"
      "ClosestNodes_next now st = (Some node, st1)"
    | (assorted) node st1 st2 where "next_in_bucket now st = (None, st1)" "next_assorted now st1 = (Some node, st2)"
      "ClosestNodes_next now st = (Some node, st2)"
    | (move) st1 d where "next_in_bucket now st = (None, st1)" "next_assorted now st1 = (None, st1)"
      "next_bucket_index MAX_BUCKETS (start_index st) (current_index st) = Some d"
      "ClosestNodes_next now st =
         ClosestNodes_next now (st1\<lparr>current_index := d, current_iter := bucket_iterator (cn_buckets st) d\<rparr>)"
    | (exhausted) st1 where "next_in_bucket now st = (None, st1)" "next_assorted now st1 = (None, st1)"
      "next_bucket_index MAX_BUCKETS (start_index st) (current_index st) = None"
      "ClosestNodes_next now st = (None, st1)"
proof -
  obtain r1 st1 where 1: "next_in_bucket now st = (r1, st1)" by (cases "next_in_bucket now st")
  obtain r2 st2 where 2: "next_assorted now st1 = (r2, st2)" by (cases "next_assorted now st1")
  have same: "st2 = st1" if "r2 = None"
    using 2 that by (auto simp: next_assorted_def split: option.splits prod.splits)
  show thesis
  proof (cases r1)
    case (Some node)
    then show thesis using 1 by (intro bucket [of node st1]) (simp_all add: ClosestNodes_next.simps [of now st])
  next
    case r1: None
    show thesis
    proof (cases r2)
      case (Some node)
      then show thesis
        using 1 2 r1 by (intro assorted [of st1 node st2]) (simp_all add: ClosestNodes_next.simps [of now st])
    next
      case r2: None
      note nx = ClosestNodes_next.simps [of now st] 1 2 r1 r2 same [OF r2]
      show thesis
      proof (cases "next_bucket_index MAX_BUCKETS (start_index st) (current_index st)")
        case None
        then show thesis using 1 2 r1 r2 same [OF r2]
          by (intro exhausted [of st1]) (simp_all add: nx next_in_bucket_index [OF 1])
      next
        case (Some d)
        then show thesis using 1 2 r1 r2 same [OF r2]
          by (intro move [of st1 d]) (simp_all add: nx next_in_bucket_index [OF 1])
      qed
    qed
  qed
qed

definition opt_list :: "'a list option \<Rightarrow> 'a list" where
  "opt_list x = (case x of None \<Rightarrow> [] | Some xs \<Rightarrow> xs)"

text \<open>The nodes of the last bucket that are still to be handed out at an index.\<close>

definition assorted_at :: "time \<Rightarrow> nat \<Rightarrow> (nat \<times> Node \<times> bool) list \<Rightarrow> Node list" where
  "assorted_at now i as =
     map (\<lambda>(j, n, given). n) (filter (\<lambda>(j, n, given). is_good_node now n \<and> j = i \<and> \<not> given) as)"

definition cn_size :: "ClosestNodes \<Rightarrow> nat" where
  "cn_size st = length (opt_list (current_iter st)) +
     length (filter (\<lambda>(j, n, given). \<not> given) (opt_list (assorted_nodes st)))"

lemma next_in_bucket_spec:
  "next_in_bucket now st = (Some node, st1) \<Longrightarrow>
     filter (is_good_node now) (opt_list (current_iter st)) = node # filter (is_good_node now) (opt_list (current_iter st1)) \<and>
     length (opt_list (current_iter st1)) < length (opt_list (current_iter st))"
  "next_in_bucket now st = (None, st1) \<Longrightarrow>
     filter (is_good_node now) (opt_list (current_iter st)) = [] \<and> opt_list (current_iter st1) = []"
proof -
  have good: "case good_iter_next now xs of
      (Some n, ys) \<Rightarrow> filter (is_good_node now) xs = n # filter (is_good_node now) ys \<and> length ys < length xs
    | (None, ys) \<Rightarrow> filter (is_good_node now) xs = [] \<and> ys = []" for xs
  proof -
    have "filter (is_good_node now) (dropWhile (\<lambda>n. \<not> is_good_node now n) xs) = filter (is_good_node now) xs"
      by (induction xs) auto
    moreover have "is_good_node now n \<and> length ys < length xs"
      if "dropWhile (\<lambda>n. \<not> is_good_node now n) xs = n # ys" for n ys
      using that hd_dropWhile [of "\<lambda>n. \<not> is_good_node now n" xs]
        length_dropWhile_le [of "\<lambda>n. \<not> is_good_node now n" xs] by auto
    ultimately show ?thesis
      by (cases "dropWhile (\<lambda>n. \<not> is_good_node now n) xs") (simp_all add: good_iter_next_def del: dropWhile_eq_Nil_conv)
  qed
  show "next_in_bucket now st = (Some node, st1) \<Longrightarrow>
     filter (is_good_node now) (opt_list (current_iter st)) = node # filter (is_good_node now) (opt_list (current_iter st1)) \<and>
     length (opt_list (current_iter st1)) < length (opt_list (current_iter st))"
    using good [of "opt_list (current_iter st)"]
    by (auto simp: next_in_bucket_def opt_list_def split: option.splits prod.splits)
  show "next_in_bucket now st = (None, st1) \<Longrightarrow>
     filter (is_good_node now) (opt_list (current_iter st)) = [] \<and> opt_list (current_iter st1) = []"
    using good [of "opt_list (current_iter st)"]
    by (auto simp: next_in_bucket_def opt_list_def split: option.splits prod.splits)
qed

lemma filter_position:
  "position p xs = Some i \<Longrightarrow> \<not> p y \<Longrightarrow> filter p xs = xs ! i # filter p (xs[i := y])"
  by (induction xs arbitrary: i) (auto split: if_splits)

lemma filter_update_other:
  "i < length xs \<Longrightarrow> \<not> q (xs ! i) \<Longrightarrow> \<not> q y \<Longrightarrow> filter q (xs[i := y]) = filter q xs"
proof (induction xs arbitrary: i)
  case (Cons x xs)
  then show ?case by (cases i) auto
qed simp

lemma length_filter_update_less:
  "i < length xs \<Longrightarrow> p (xs ! i) \<Longrightarrow> \<not> p y \<Longrightarrow> length (filter p (xs[i := y])) < length (filter p xs)"
proof (induction xs arbitrary: i)
  case (Cons x xs)
  then show ?case by (cases i) auto
qed simp

lemma next_assorted_spec:
  assumes "next_assorted now st = (Some node, st1)"
  shows "assorted_at now (current_index st) (opt_list (assorted_nodes st)) =
      node # assorted_at now (current_index st) (opt_list (assorted_nodes st1))"
    and "i \<noteq> current_index st \<Longrightarrow>
      assorted_at now i (opt_list (assorted_nodes st1)) = assorted_at now i (opt_list (assorted_nodes st))"
    and "cn_size st1 < cn_size st"
proof -
  let ?p = "\<lambda>(j, n, given). is_good_node now n \<and> j = current_index st \<and> \<not> given"
  from assms obtain nodes k j where nodes: "assorted_nodes st = Some nodes" "position ?p nodes = Some k"
    "nodes ! k = (j, node, False)" "st1 = st\<lparr>assorted_nodes := Some (nodes[k := (j, node, True)])\<rparr>"
    by (auto simp: next_assorted_def position_Some split: option.splits prod.splits)
  note k = nodes(2) [unfolded position_Some] filter_position [OF nodes(2), of "(j, node, True)"]
  from k nodes show "assorted_at now (current_index st) (opt_list (assorted_nodes st)) =
      node # assorted_at now (current_index st) (opt_list (assorted_nodes st1))"
    by (simp add: assorted_at_def opt_list_def)
  from k nodes show "assorted_at now i (opt_list (assorted_nodes st1)) = assorted_at now i (opt_list (assorted_nodes st))"
    if "i \<noteq> current_index st" using that by (simp add: assorted_at_def opt_list_def filter_update_other)
  have "length (filter (\<lambda>(j, n, given). \<not> given) (nodes[k := (j, node, True)])) <
      length (filter (\<lambda>(j, n, given). \<not> given) nodes)"
    using k(1) nodes(3) by (intro length_filter_update_less) simp_all
  then show "cn_size st1 < cn_size st" by (simp add: cn_size_def opt_list_def nodes)
qed

lemma next_assorted_None:
  "next_assorted now st = (None, st1) \<Longrightarrow> assorted_at now (current_index st) (opt_list (assorted_nodes st)) = []"
  by (auto simp: next_assorted_def assorted_at_def opt_list_def position_None filter_empty_conv split: option.splits prod.splits)

text \<open>Every node handed out brings the iteration nearer to its end.\<close>

lemma ClosestNodes_next_decreases:
  "ClosestNodes_next now st = (Some node, st') \<Longrightarrow> (st', st) \<in> measures [cn_rank, cn_size] \<and> cn_buckets st' = cn_buckets st"
proof (induction now st rule: ClosestNodes_next.induct)
  case (1 now st)
  show ?case
  proof (cases rule: ClosestNodes_next_cases [where now = now and st = st])
    case (bucket n st1)
    then show ?thesis using 1(2) next_in_bucket_spec(1) [OF bucket(1)] next_in_bucket_index [OF bucket(1)]
      by (simp add: cn_rank_def cn_size_def)
  next
    case (assorted n st1 st2)
    have "cn_size st1 \<le> cn_size st"
      using next_in_bucket_spec(2) [OF assorted(1)] next_in_bucket_index [OF assorted(1)] by (simp add: cn_size_def)
    then show ?thesis
      using assorted 1(2) next_assorted_spec(3) [OF assorted(2)] next_in_bucket_index [OF assorted(1)]
        next_assorted_index [OF assorted(2)] by (simp add: cn_rank_def)
  next
    case (move st1 d)
    let ?st = "st1\<lparr>current_index := d, current_iter := bucket_iterator (cn_buckets st) d\<rparr>"
    note same = next_in_bucket_index [OF move(1)]
    have "(st', ?st) \<in> measures [cn_rank, cn_size] \<and> cn_buckets st' = cn_buckets ?st"
      using 1(1) [OF move(1) [symmetric] refl move(2) [symmetric] refl, of d] 1(2) move same by simp
    moreover have "cn_rank ?st < cn_rank st" using rank_left_next [OF move(3)] same by (simp add: cn_rank_def)
    ultimately show ?thesis using same by auto
  qed (use 1(2) in simp)
qed

text \<open>All nodes, up to the first \<open>None\<close>.\<close>

function closest_list :: "time \<Rightarrow> ClosestNodes \<Rightarrow> Node list" where
  "closest_list now it =
     (case ClosestNodes_next now it of (None, _) \<Rightarrow> [] | (Some node, it') \<Rightarrow> node # closest_list now it')"
  by pat_completeness auto

termination closest_list
  by (relation "inv_image (measures [cn_rank, cn_size]) snd")
    (auto dest!: sym [of "(_, _)"] dest: ClosestNodes_next_decreases)

declare closest_list.simps [simp del]

text \<open>The nodes of one index, and what is left to be handed out in a state.\<close>

definition at_index :: "time \<Rightarrow> ClosestNodes \<Rightarrow> nat \<Rightarrow> Node list" where
  "at_index now st i =
     filter (is_good_node now) (opt_list (bucket_iterator (cn_buckets st) i)) @
     assorted_at now i (opt_list (assorted_nodes st))"

definition left_over :: "time \<Rightarrow> ClosestNodes \<Rightarrow> Node list" where
  "left_over now st =
     filter (is_good_node now) (opt_list (current_iter st)) @
     assorted_at now (current_index st) (opt_list (assorted_nodes st)) @
     concat (map (at_index now st) (tl (visits MAX_BUCKETS (start_index st) (current_index st))))"

lemma closest_list_next:
  "closest_list now st = (case ClosestNodes_next now st of (None, _) \<Rightarrow> [] | (Some n, st') \<Rightarrow> n # closest_list now st')"
  by (rule closest_list.simps)

lemma closest_list_left_over:
  "start_index st \<le> MAX_BUCKETS \<Longrightarrow> closest_list now st = left_over now st"
proof (induction st rule: wf_induct_rule [OF wf_measures [of "[cn_rank, cn_size]"]])
  case (1 st)
  let ?later = "tl (visits MAX_BUCKETS (start_index st) (current_index st))"
  have other: "i \<noteq> current_index st" if "i \<in> set ?later" for i
    using that visits_distinct [OF 1(2), of "current_index st"]
    by (auto simp: visits.simps [of _ _ "current_index st"])
  show ?case
  proof (cases rule: ClosestNodes_next_cases [where now = now and st = st])
    case (bucket node st1)
    note same = next_in_bucket_index [OF bucket(1)]
    have "closest_list now st1 = left_over now st1"
      using 1 ClosestNodes_next_decreases [OF bucket(2)] same by simp
    moreover have "at_index now st1 = at_index now st" by (simp add: at_index_def fun_eq_iff same)
    ultimately show ?thesis using next_in_bucket_spec(1) [OF bucket(1)]
      by (simp add: closest_list_next [of now st] bucket(2) left_over_def same)
  next
    case (assorted node st1 st2)
    note same = next_in_bucket_index [OF assorted(1)] next_assorted_index [OF assorted(2)]
    have IH: "closest_list now st2 = left_over now st2"
      using 1 ClosestNodes_next_decreases [OF assorted(3)] same by simp
    have "map (at_index now st2) ?later = map (at_index now st) ?later"
      using next_assorted_spec(2) [OF assorted(2)] other by (auto simp: at_index_def same)
    with IH show ?thesis
      using next_in_bucket_spec(2) [OF assorted(1)] next_assorted_spec(1) [OF assorted(2)]
      by (simp add: closest_list_next [of now st] assorted(3) left_over_def same)
  next
    case (move st1 d)
    let ?st = "st1\<lparr>current_index := d, current_iter := bucket_iterator (cn_buckets st) d\<rparr>"
    note same = next_in_bucket_index [OF move(1)]
    have "closest_list now ?st = left_over now ?st"
      using 1 rank_left_next [OF move(3)] same by (simp add: cn_rank_def)
    moreover have "closest_list now st = closest_list now ?st"
      by (simp only: closest_list_next [of now st] closest_list_next [of now ?st] move(4))
    moreover have "?later = d # tl (visits MAX_BUCKETS (start_index st) d)"
      using move(3) by (simp add: visits.simps [of _ _ "current_index st"] visits.simps [of _ _ d])
    moreover have "at_index now ?st = at_index now st" by (simp add: at_index_def fun_eq_iff same)
    ultimately show ?thesis
      using next_in_bucket_spec(2) [OF move(1)] next_assorted_None [OF move(2)]
      by (simp add: left_over_def at_index_def same)
  next
    case (exhausted st1)
    then show ?thesis
      using next_in_bucket_spec(2) [OF exhausted(1)] next_assorted_None [OF exhausted(2)]
        next_in_bucket_index [OF exhausted(1)]
      by (simp add: closest_list_next [of now st] left_over_def visits.simps [of _ _ "current_index st"])
  qed
qed

lemma leading_bit_count_le: "sha_ok a \<Longrightarrow> leading_bit_count a b \<le> MAX_BUCKETS"
  using leading_bit_count_bound [of a b] by (simp add: sha_ok_def MAX_BUCKETS_def)

text \<open>The nodes a table holds for an index, those of the last bucket included.\<close>

definition index_nodes :: "time \<Rightarrow> RoutingTable \<Rightarrow> nat \<Rightarrow> Node list" where
  "index_nodes now t i =
     (if length (buckets t) = MAX_BUCKETS then if i < MAX_BUCKETS then filter (is_good_node now) (buckets t ! i) else []
      else (if i < length (buckets t) - 1 then filter (is_good_node now) (buckets t ! i) else []) @
        filter (\<lambda>n. is_good_node now n \<and> leading_bit_count (tbl_id t) (nd_id n) = i) (last (buckets t)))"

lemma precompute_assorted:
  assumes "length (bs ! (length bs - 1)) = MAX_BUCKET_SIZE" "length bs \<noteq> MAX_BUCKETS"
  shows "opt_list (precompute_assorted_nodes bs self_id) =
    map (\<lambda>n. (leading_bit_count self_id (nd_id n), n, False)) (bs ! (length bs - 1))"
proof -
  let ?b = "bs ! (length bs - 1)"
  obtain n ns where b: "?b = n # ns" using assms(1) by (cases ?b) (auto simp: MAX_BUCKET_SIZE_def)
  have "precompute_assorted_nodes bs self_id = Some (fold (\<lambda>i as. as[i := (leading_bit_count self_id (nd_id (?b ! i)), ?b ! i, False)])
      [0..<length ?b] (replicate MAX_BUCKET_SIZE (0, n, True)))"
    using assms(2) b by (simp add: precompute_assorted_nodes_def Let_def)
  also have "\<dots> = Some (map (\<lambda>i. (leading_bit_count self_id (nd_id (?b ! i)), ?b ! i, False)) [0..<length ?b])"
    using assms(1) by (subst fold_update_map) simp_all
  also have "\<dots> = Some (map (\<lambda>n. (leading_bit_count self_id (nd_id n), n, False)) ?b)"
    by (rule arg_cong [where f = Some], rule nth_equalityI) (simp_all del: upt_Suc)
  finally show ?thesis by (simp add: opt_list_def)
qed

lemma at_index_new:
  assumes "table_ok t"
  shows "at_index now (closest_nodes node_id t) i = index_nodes now t i"
proof -
  let ?bs = "buckets t"
  have bs: "?bs \<noteq> []" "last ?bs = ?bs ! (length ?bs - 1)" "length (?bs ! (length ?bs - 1)) = MAX_BUCKET_SIZE"
    using assms table_okD(1) [OF assms, of "length ?bs - 1"] by (auto simp: table_ok_def last_conv_nth bucket_ok_def)
  have "assorted_at now i (map (\<lambda>n. (leading_bit_count (tbl_id t) (nd_id n), n, False)) ns) =
      filter (\<lambda>n. is_good_node now n \<and> leading_bit_count (tbl_id t) (nd_id n) = i) ns" for ns
    by (simp add: assorted_at_def filter_map comp_def)
  moreover have "opt_list (bucket_iterator ?bs i) = (if length ?bs = MAX_BUCKETS then if i < MAX_BUCKETS then ?bs ! i else []
      else if i < length ?bs - 1 then ?bs ! i else [])"
    by (auto simp: bucket_iterator_def get_at_def opt_list_def sub_list_def)
  moreover have "assorted_at now i (opt_list (precompute_assorted_nodes ?bs (tbl_id t))) = []" if "length ?bs = MAX_BUCKETS"
    using that by (simp add: precompute_assorted_nodes_def opt_list_def assorted_at_def)
  ultimately show ?thesis using precompute_assorted [OF bs(3)] bs(2)
    by (simp add: at_index_def index_nodes_def closest_nodes_def ClosestNodes_new_def Let_def)
qed

lemma closest_list_order:
  assumes "table_ok t"
  shows "closest_list now (closest_nodes target t) = concat (map (index_nodes now t)
    (visits MAX_BUCKETS (leading_bit_count (tbl_id t) target) (leading_bit_count (tbl_id t) target)))"
proof -
  let ?s = "leading_bit_count (tbl_id t) target" and ?st = "closest_nodes target t"
  have start: "start_index ?st = ?s" "current_index ?st = ?s"
    "current_iter ?st = bucket_iterator (cn_buckets ?st) ?s"
    by (simp_all add: closest_nodes_def ClosestNodes_new_def Let_def)
  have "?s \<le> MAX_BUCKETS" using assms leading_bit_count_le by (simp add: table_ok_def)
  then have "closest_list now ?st = at_index now ?st ?s @ concat (map (at_index now ?st) (tl (visits MAX_BUCKETS ?s ?s)))"
    by (simp add: closest_list_left_over start left_over_def at_index_def)
  also have "\<dots> = concat (map (at_index now ?st) (visits MAX_BUCKETS ?s ?s))"
    by (subst (2) visits_Cons) simp
  also have "at_index now ?st = index_nodes now t" using at_index_new [OF assms] by (simp add: fun_eq_iff)
  finally show ?thesis .
qed

text \<open>Counting: the buckets one by one are the table, and the last bucket is spread over all indices.\<close>

lemma mset_concat_map:
  "distinct is \<Longrightarrow> mset (concat (map f is)) = (\<Sum>i \<in> set is. mset (f i))"
  by (induction "is") simp_all

lemma sum_mset_nth: "(\<Sum>i < length xss. mset (xss ! i)) = mset (concat xss)"
proof (induction xss rule: rev_induct)
  case (snoc xs xss)
  then show ?case by (simp add: nth_append)
qed simp

lemma sum_mset_filter:
  assumes "finite V" "\<forall>n \<in> set ns. p n \<longrightarrow> f n \<in> V"
  shows "(\<Sum>i \<in> V. mset (filter (\<lambda>n. p n \<and> f n = i) ns)) = mset (filter p ns)"
  using assms(2)
proof (induction ns)
  case (Cons n ns)
  have "(\<Sum>i \<in> V. mset (filter (\<lambda>n. p n \<and> f n = i) (n # ns))) =
      (\<Sum>i \<in> V. (if p n \<and> f n = i then {#n#} else {#}) + mset (filter (\<lambda>n. p n \<and> f n = i) ns))"
    by (intro sum.cong) auto
  also have "\<dots> = (\<Sum>i \<in> V. if p n \<and> f n = i then {#n#} else {#}) + mset (filter p ns)"
    using Cons by (simp add: sum.distrib)
  also have "(\<Sum>i \<in> V. if p n \<and> f n = i then {#n#} else {#}) = (if p n then {#n#} else {#})"
    using Cons.prems assms(1) by (cases "p n") (simp_all add: sum.delta')
  finally show ?case by simp
qed simp

lemma good_node_responded: "is_good_node now n \<Longrightarrow> last_response n \<noteq> None"
  using status_responded [of now n] by (auto simp: is_good_node_def Let_def)

lemma good_node_index:
  assumes "table_ok t" "n \<in> set (last (buckets t))" "is_good_node now n"
  shows "leading_bit_count (tbl_id t) (nd_id n) < MAX_BUCKETS"
proof -
  have "addable t n"
    using table_okD(2) [OF assms(1), of "length (buckets t) - 1" n] assms good_node_responded [OF assms(3)]
    by (auto simp: table_ok_def last_conv_nth)
  moreover have "leading_bit_count (tbl_id t) (nd_id n) \<le> MAX_BUCKETS"
    using assms(1) leading_bit_count_le by (simp add: table_ok_def)
  ultimately show ?thesis by (simp add: addable_def)
qed

lemma sum_index_nodes:
  assumes "table_ok t" "V = {0..<MAX_BUCKETS} \<or> V = insert MAX_BUCKETS {0..<MAX_BUCKETS}"
  shows "(\<Sum>i \<in> V. mset (index_nodes now t i)) = mset (filter (is_good_node now) (table_nodes t))"
proof -
  let ?bs = "buckets t" and ?good = "is_good_node now"
  have V: "finite V" "{0..<MAX_BUCKETS} \<subseteq> V" using assms(2) by auto
  have le: "?bs \<noteq> []" "length ?bs \<le> MAX_BUCKETS" using assms(1) by (auto simp: table_ok_def)
  have upto: "(\<Sum>i \<in> V. mset (if i < length bs then filter ?good (bs ! i) else [])) = mset (filter ?good (concat bs))"
    if "length bs \<le> MAX_BUCKETS" for bs
  proof -
    have "(\<Sum>i \<in> V. mset (if i < length bs then filter ?good (bs ! i) else [])) =
        (\<Sum>i < length bs. mset (map (filter ?good) bs ! i))"
      using V that by (intro sum.mono_neutral_cong_right) auto
    then show ?thesis using sum_mset_nth [of "map (filter ?good) bs"] by (simp add: filter_concat)
  qed
  show ?thesis
  proof (cases "length ?bs = MAX_BUCKETS")
    case True
    then have "index_nodes now t i = (if i < length ?bs then filter ?good (?bs ! i) else [])" for i
      by (simp add: index_nodes_def)
    with upto [of ?bs] True show ?thesis by (simp add: table_nodes_def)
  next
    case False
    let ?f = "\<lambda>i. filter (\<lambda>n. ?good n \<and> leading_bit_count (tbl_id t) (nd_id n) = i) (last ?bs)"
    have "index_nodes now t i = (if i < length (butlast ?bs) then filter ?good (butlast ?bs ! i) else []) @ ?f i" for i
      using False by (simp add: index_nodes_def nth_butlast)
    then have "(\<Sum>i \<in> V. mset (index_nodes now t i)) =
        mset (filter ?good (concat (butlast ?bs))) + (\<Sum>i \<in> V. mset (?f i))"
      using upto [of "butlast ?bs"] le by (simp add: sum.distrib)
    also have "(\<Sum>i \<in> V. mset (?f i)) = mset (filter ?good (last ?bs))"
      using V good_node_index [OF assms(1)] by (intro sum_mset_filter) auto
    also have "mset (filter ?good (concat (butlast ?bs))) + mset (filter ?good (last ?bs)) =
        mset (filter ?good (concat (butlast ?bs @ [last ?bs])))" by simp
    finally show ?thesis using le by (simp add: table_nodes_def)
  qed
qed

lemma closest_list_mset:
  assumes "table_ok t"
  shows "mset (closest_list now (closest_nodes target t)) = mset (filter (is_good_node now) (table_nodes t))"
proof -
  let ?s = "leading_bit_count (tbl_id t) target"
  have s: "?s \<le> MAX_BUCKETS" using assms leading_bit_count_le by (simp add: table_ok_def)
  then have "set (visits MAX_BUCKETS ?s ?s) = {0..<MAX_BUCKETS} \<or>
      set (visits MAX_BUCKETS ?s ?s) = insert MAX_BUCKETS {0..<MAX_BUCKETS}"
    using visits_start [OF s] by (cases "?s = MAX_BUCKETS") (auto simp: insert_absorb)
  from sum_index_nodes [OF assms this] show ?thesis
    using closest_list_order [OF assms] visits_distinct [OF s] by (simp add: mset_concat_map)
qed

section \<open>Properties\<close>

text \<open>
  C25. The iterator over the closest nodes ends after handing out every good or questionable
  node of the table exactly once, bucket by bucket: first those that belong to the bucket of
  the target, then outwards, alternately one bucket to the right and one to the left, the
  nodes of the last bucket as if all buckets had been split off already.
\<close>

theorem closest_nodes_complete:
  assumes "table_ok t" "s = leading_bit_count (tbl_id t) target"
  shows "closest_list now (closest_nodes target t) = concat (map (index_nodes now t) (visits MAX_BUCKETS s s)) \<and>
    sorted_wrt (\<lambda>i j. index_rank s i < index_rank s j) (visits MAX_BUCKETS s s) \<and>
    mset (closest_list now (closest_nodes target t)) = mset (filter (is_good_node now) (table_nodes t))"
proof -
  have "s \<le> MAX_BUCKETS" using assms leading_bit_count_le by (simp add: table_ok_def)
  then show ?thesis
    using closest_list_order [OF assms(1)] closest_list_mset [OF assms(1)] assms(2) visits_sorted [of s MAX_BUCKETS s] by simp
qed

theorem closest_nodes_complete_witness:
  "mset (closest_list 0 (closest_nodes (replicate 20 7)
     (table_add_node 0 (Node_as_good 0 (replicate 20 1) default_route_v4) (RoutingTable_new (replicate 20 0))))) =
   mset (filter (is_good_node 0) (table_nodes
     (table_add_node 0 (Node_as_good 0 (replicate 20 1) default_route_v4) (RoutingTable_new (replicate 20 0)))))"
proof -
  let ?t = "table_add_node 0 (Node_as_good 0 (replicate 20 1) default_route_v4) (RoutingTable_new (replicate 20 0))"
  have "table_ok ?t"
    by (intro table_ok_adds(1) table_ok_new) (simp_all add: sha_ok_def SHA_HASH_LEN_def node_eq_def Node_as_good_def
        placeholder_def Node_as_bad_def NODE_ID_LEN_def Let_def)
  from closest_nodes_complete [OF this refl, of 0 "replicate 20 7"] show ?thesis by blast
qed

text \<open>
  The order is not the order of closeness. The nodes two buckets to the right of the
  target's bucket share \<open>s\<close> leading bits with the target and those one bucket to the left only
  \<open>s - 1\<close>, but the latter are handed out first.
\<close>

theorem closest_nodes_not_closest_first:
  assumes "sha_ok self" "sha_ok target" "s = leading_bit_count self target" "0 < s" "s + 2 < 160"
  shows "(\<exists>rest. visits MAX_BUCKETS s s = [s, s + 1, s - 1, s + 2] @ rest) \<and>
    (\<forall>m. sha_ok m \<and> leading_bit_count self m = s - 1 \<longrightarrow> leading_bit_count target m = s - 1) \<and>
    (\<forall>m. sha_ok m \<and> leading_bit_count self m = s + 2 \<longrightarrow> leading_bit_count target m = s)"
proof -
  have "next_bucket_index MAX_BUCKETS s s = Some (s + 1)" "next_bucket_index MAX_BUCKETS s (s + 1) = Some (s - 1)"
    "next_bucket_index MAX_BUCKETS s (s - 1) = Some (s + 2)"
    using assms(4,5) by (auto simp: next_index_defs MAX_BUCKETS_def SHA_HASH_LEN_def)
  then have "visits MAX_BUCKETS s s = [s, s + 1, s - 1, s + 2] @ tl (visits MAX_BUCKETS s (s + 2))"
    using visits_Cons [of MAX_BUCKETS s "s + 2"]
    by (simp add: visits.simps [of MAX_BUCKETS s s] visits.simps [of MAX_BUCKETS s "Suc s"]
        visits.simps [of MAX_BUCKETS s "s - Suc 0"])
  moreover have "leading_bit_count target m = min (leading_bit_count self m) s"
    if "sha_ok m" "leading_bit_count self m \<noteq> s" for m
    using that assms common_prefix_third [of self m target] by (simp add: leading_bit_count_eq)
  ultimately show ?thesis using assms(4) by auto
qed

theorem closest_nodes_not_closest_first_witness:
  "leading_bit_count (1 # replicate 19 0) (0 # 64 # replicate 18 0) = 7"
proof -
  have "7 = leading_bit_count (replicate 20 0) (1 # replicate 19 0)" "leading_bit_count (replicate 20 0) (0 # 64 # replicate 18 0) = 9"
    by code_simp+
  with closest_nodes_not_closest_first [of "replicate 20 0" "1 # replicate 19 0" 7] show ?thesis
    by (simp add: sha_ok_def SHA_HASH_LEN_def)
qed

text \<open>
  A node is only found in a bucket that has already been split off. While its bucket is
  still the last one, \<open>find_node\<close> does not find it, even right after it was added; behind that,
  a good node of the table is found as soon as its bucket is not the last.
\<close>

theorem find_node_split_off_only:
  assumes "table_ok t" "sha_ok (nd_id n)" "nd_id n \<noteq> tbl_id t" "k = leading_bit_count (tbl_id t) (nd_id n)"
  shows "(length (buckets t) \<noteq> 160 \<and> home t n = length (buckets t) - 1 \<longrightarrow> find_node now n t = None) \<and>
    (k + 1 < length (buckets t) \<longrightarrow>
      (find_node now n t \<noteq> None \<longleftrightarrow> (\<exists>m \<in> set (table_nodes t). node_eq m n \<and> is_good_node now m)))"
proof -
  have k: "k < MAX_BUCKETS"
    using assms common_prefix_le [of "tbl_id t" "nd_id n"] common_prefix_full [of "tbl_id t" "nd_id n"]
    by (auto simp: leading_bit_count_eq table_ok_def MAX_BUCKETS_def order.order_iff_strict)
  note find = find_node_eq [of t n now, folded assms(4), OF k]
  have "find_node now n t = None" if "length (buckets t) \<noteq> 160" "home t n = length (buckets t) - 1"
    using that find by (auto simp: home_def bucket_placement_def assms(4) MAX_BUCKETS_def SHA_HASH_LEN_def Let_def split: if_splits)
  moreover have "find_node now n t \<noteq> None \<longleftrightarrow> (\<exists>m \<in> set (table_nodes t). node_eq m n \<and> is_good_node now m)"
    if "k + 1 < length (buckets t)"
  proof -
    have "m \<in> set (buckets t ! k)" if m: "m \<in> set (table_nodes t)" "node_eq m n" "is_good_node now m" for m
    proof -
      from m(1) obtain i where i: "i < length (buckets t)" "m \<in> set (buckets t ! i)"
        unfolding table_nodes_def by (metis in_set_conv_nth UN_E set_concat)
      then have "home t m = i" using table_okD(2) [OF assms(1)] good_node_responded [OF m(3)] by blast
      with i m(2) show ?thesis using \<open>k + 1 < length (buckets t)\<close>
        by (simp add: home_def node_eq_def bucket_placement_def assms(4))
    qed
    with that have "(\<exists>m \<in> set (buckets t ! k). node_eq m n \<and> is_good_node now m) \<longleftrightarrow>
        (\<exists>m \<in> set (table_nodes t). node_eq m n \<and> is_good_node now m)" by (auto simp: table_nodes_def)
    with that find show ?thesis
      by (auto simp: find_None_iff pingable_nodes_def pingable_nodes_filter_def is_good_node_def Let_def)
  qed
  ultimately show ?thesis by blast
qed

theorem find_node_split_off_only_witness:
  "find_node 0 (Node_as_good 0 (replicate 20 1) default_route_v4) (RoutingTable_new (replicate 20 0)) = None"
proof -
  let ?n = "Node_as_good 0 (replicate 20 1) default_route_v4" and ?t = "RoutingTable_new (replicate 20 0)"
  have "table_ok ?t" by (rule table_ok_new) (simp add: sha_ok_def SHA_HASH_LEN_def)
  moreover have "length (buckets ?t) \<noteq> 160" "home ?t ?n = length (buckets ?t) - 1"
    by (simp_all add: RoutingTable_new_def home_def bucket_placement_def Let_def)
  ultimately show ?thesis using find_node_split_off_only [of ?t ?n _ 0, OF _ _ _ refl]
    by (simp add: Node_as_good_def RoutingTable_new_def sha_ok_def SHA_HASH_LEN_def)
qed

end
