(* ===== verification/Dht_Token.thy ===== *)
theory Dht_Token
  imports Sha Convert
begin

text \<open>
  \<open>bip_dht/src/token.rs\<close>: the tokens given out with contacts and asked back with an announce.
  No token is stored; a token is the hash of the address and a secret, and the secrets of the
  current and of the last interval are accepted. \<open>D\<close> is the digest, \<open>clk i\<close> the \<open>i\<close>-th reading
  of the clock and \<open>rnd i\<close> the \<open>i\<close>-th secret drawn during a call.
\<close>

section \<open>Tokens\<close>

definition REFRESH_INTERVAL_MINS :: int where "REFRESH_INTERVAL_MINS = 10"
definition IPV4_SECRET_BUFFER_LEN :: nat where "IPV4_SECRET_BUFFER_LEN = 4 + 4"
definition IPV6_SECRET_BUFFER_LEN :: nat where "IPV6_SECRET_BUFFER_LEN = 16 + 4"

type_synonym Token = bytes

definition Token_new :: "bytes \<Rightarrow> (Token, LengthError) res" where
  "Token_new bytes =
     (if length bytes \<noteq> SHA_HASH_LEN then Err (LengthError_new LengthExpected SHA_HASH_LEN)
      else (let token = replicate SHA_HASH_LEN 0 in Ok (copy_into bytes token)))"

definition generate_token_from_addr_v4 :: "'s Sha1 \<Rightarrow> Ipv4Addr \<Rightarrow> u32 \<Rightarrow> Token" where
  "generate_token_from_addr_v4 D v4_addr secret =
     (let v4_bytes = ipv4_to_bytes_be v4_addr; secret_bytes = four_bytes_to_array secret;
          buffer = copy_into (v4_bytes @ secret_bytes) (replicate IPV4_SECRET_BUFFER_LEN 0)
      in ShaHash_from_bytes D buffer)"

definition generate_token_from_addr_v6 :: "'s Sha1 \<Rightarrow> Ipv6Addr \<Rightarrow> u32 \<Rightarrow> Token" where
  "generate_token_from_addr_v6 D v6_addr secret =
     (let v6_bytes = ipv6_to_bytes_be v6_addr; secret_bytes = four_bytes_to_array secret;
          buffer = copy_into (v6_bytes @ secret_bytes) (replicate IPV6_SECRET_BUFFER_LEN 0)
      in ShaHash_from_bytes D buffer)"

fun generate_token_from_addr :: "'s Sha1 \<Rightarrow> IpAddr \<Rightarrow> u32 \<Rightarrow> Token" where
  "generate_token_from_addr D (V4 v4) secret = generate_token_from_addr_v4 D v4 secret"
| "generate_token_from_addr D (V6 v6) secret = generate_token_from_addr_v6 D v6 secret"

definition validate_token_from_addr_v4 :: "'s Sha1 \<Rightarrow> Ipv4Addr \<Rightarrow> Token \<Rightarrow> u32 \<Rightarrow> bool" where
  "validate_token_from_addr_v4 D v4_addr token secret \<longleftrightarrow> generate_token_from_addr_v4 D v4_addr secret = token"

definition validate_token_from_addr_v6 :: "'s Sha1 \<Rightarrow> Ipv6Addr \<Rightarrow> Token \<Rightarrow> u32 \<Rightarrow> bool" where
  "validate_token_from_addr_v6 D v6_addr token secret \<longleftrightarrow> generate_token_from_addr_v6 D v6_addr secret = token"

fun validate_token_from_addr :: "'s Sha1 \<Rightarrow> IpAddr \<Rightarrow> Token \<Rightarrow> u32 \<Rightarrow> u32 \<Rightarrow> bool" where
  "validate_token_from_addr D (V4 v4) token secret_one secret_two \<longleftrightarrow>
     validate_token_from_addr_v4 D v4 token secret_one \<or> validate_token_from_addr_v4 D v4 token secret_two"
| "validate_token_from_addr D (V6 v6) token secret_one secret_two \<longleftrightarrow>
     validate_token_from_addr_v6 D v6 token secret_one \<or> validate_token_from_addr_v6 D v6 token secret_two"

section \<open>The store\<close>

record TokenStore =
  curr_secret :: u32
  last_secret :: u32
  last_refresh :: time

definition TokenStore_new :: "(nat \<Rightarrow> time) \<Rightarrow> (nat \<Rightarrow> u32) \<Rightarrow> TokenStore" where
  "TokenStore_new clk rnd = \<lparr>curr_secret = rnd 0, last_secret = rnd 1, last_refresh = clk 0\<rparr>"

definition intervals_passed :: "time \<Rightarrow> time \<Rightarrow> int" where
  "intervals_passed now refreshed =
     (let refresh_duration = minutes REFRESH_INTERVAL_MINS; curr_time = now;
          diff_time = curr_time - refreshed
      in trunc_div (num_minutes diff_time) (num_minutes refresh_duration))"

definition refresh_check :: "(nat \<Rightarrow> time) \<Rightarrow> (nat \<Rightarrow> u32) \<Rightarrow> TokenStore \<Rightarrow> TokenStore" where
  "refresh_check clk rnd self =
     (let n = intervals_passed (clk 0) (last_refresh self)
      in if n = 0 then self
         else if n = 1 then
           self\<lparr>last_secret := curr_secret self, curr_secret := rnd 0, last_refresh := clk 1\<rparr>
         else self\<lparr>last_secret := rnd 0, curr_secret := rnd 1, last_refresh := clk 1\<rparr>)"

definition checkout ::
  "'s Sha1 \<Rightarrow> (nat \<Rightarrow> time) \<Rightarrow> (nat \<Rightarrow> u32) \<Rightarrow> IpAddr \<Rightarrow> TokenStore \<Rightarrow> Token \<times> TokenStore" where
  "checkout D clk rnd addr self =
     (let self = refresh_check clk rnd self in (generate_token_from_addr D addr (curr_secret self), self))"

definition checkin ::
  "'s Sha1 \<Rightarrow> (nat \<Rightarrow> time) \<Rightarrow> (nat \<Rightarrow> u32) \<Rightarrow> IpAddr \<Rightarrow> Token \<Rightarrow> TokenStore \<Rightarrow> bool \<times> TokenStore" where
  "checkin D clk rnd addr token self =
     (let self = refresh_check clk rnd self
      in (validate_token_from_addr D addr token (curr_secret self) (last_secret self), self))"

section \<open>The intervals\<close>

lemma intervals_passed_eq:
  "r \<le> now \<Longrightarrow> intervals_passed now r = (now - r) div minutes 10"
proof -
  assume "r \<le> now"
  then have "0 \<le> now - r" by simp
  moreover have "0 \<le> d div 60000000000" if "0 \<le> d" for d :: int using that by simp
  ultimately show ?thesis
    by (simp add: intervals_passed_def trunc_div_def num_minutes_def minutes_def REFRESH_INTERVAL_MINS_def
        Let_def abs_mult zdiv_zmult2_eq [symmetric] sgn_if)
qed

lemma refresh_check_cases:
  assumes "last_refresh st \<le> clk 0"
  obtains (same) "clk 0 - last_refresh st < minutes 10" "refresh_check clk rnd st = st"
    | (rotate) "minutes 10 \<le> clk 0 - last_refresh st" "clk 0 - last_refresh st < minutes 20"
        "refresh_check clk rnd st = \<lparr>curr_secret = rnd 0, last_secret = curr_secret st, last_refresh = clk 1\<rparr>"
    | (replace) "minutes 20 \<le> clk 0 - last_refresh st"
        "refresh_check clk rnd st = \<lparr>curr_secret = rnd 1, last_secret = rnd 0, last_refresh = clk 1\<rparr>"
proof -
  let ?d = "clk 0 - last_refresh st"
  have n: "intervals_passed (clk 0) (last_refresh st) = ?d div minutes 10" using assms by (rule intervals_passed_eq)
  have m: "minutes 20 = 2 * minutes 10" "0 < minutes 10" by (simp_all add: minutes_def)
  consider "?d < minutes 10" | "minutes 10 \<le> ?d" "?d < minutes 20" | "minutes 20 \<le> ?d" by linarith
  then show thesis
  proof cases
    case 1
    with n assms m have "intervals_passed (clk 0) (last_refresh st) = 0" by simp
    with 1 show thesis by (intro same) (simp_all add: refresh_check_def)
  next
    case 2
    with n m have "intervals_passed (clk 0) (last_refresh st) = 1" by (simp add: div_pos_geq)
    with 2 show thesis by (intro rotate) (simp_all add: refresh_check_def)
  next
    case 3
    have "2 \<le> ?d div minutes 10" using zdiv_mono1 [OF 3 m(2)] m by simp
    with n 3 show thesis by (intro replace) (simp_all add: refresh_check_def)
  qed
qed

lemma validate_generated:
  "validate_token_from_addr D addr (generate_token_from_addr D addr s) s1 s2" if "s = s1 \<or> s = s2"
  using that by (cases addr) (auto simp: validate_token_from_addr_v4_def validate_token_from_addr_v6_def)

section \<open>Calls one after the other\<close>

text \<open>
  Every call changes the store by \<open>refresh_check\<close> only, so a sequence of calls is the list of
  their clock readings and draws. The clock goes forward.
\<close>

type_synonym call = "(nat \<Rightarrow> time) \<times> (nat \<Rightarrow> u32)"

definition run_calls :: "call list \<Rightarrow> TokenStore \<Rightarrow> TokenStore" where
  "run_calls calls st = fold (\<lambda>(clk, rnd). refresh_check clk rnd) calls st"

fun clock_forward :: "time \<Rightarrow> call list \<Rightarrow> bool" where
  "clock_forward t [] \<longleftrightarrow> True"
| "clock_forward t ((clk, rnd) # calls) \<longleftrightarrow> t \<le> clk 0 \<and> clk 0 \<le> clk 1 \<and> clock_forward (clk 1) calls"

lemma clock_forward_append:
  "clock_forward t (xs @ ys) \<longleftrightarrow> clock_forward t xs \<and> clock_forward (if xs = [] then t else fst (last xs) 1) ys"
  by (induction t xs rule: clock_forward.induct) auto

lemma clock_forward_before:
  "clock_forward t (calls @ [(clk, rnd)]) \<Longrightarrow> t \<le> clk 0 \<and> (\<forall>(c, r) \<in> set calls. c 0 \<le> clk 0)"
  by (induction t calls rule: clock_forward.induct) auto

text \<open>
  The secret of a token given out at \<open>t\<close> is the current one, of an interval begun less than ten
  minutes before \<open>t\<close>, or the last one, and the current interval began after \<open>t\<close>.
\<close>

definition remembers :: "u32 \<Rightarrow> time \<Rightarrow> TokenStore \<Rightarrow> bool" where
  "remembers s t st \<longleftrightarrow>
     (curr_secret st = s \<and> t - minutes 10 < last_refresh st) \<or> (last_secret st = s \<and> t < last_refresh st)"

lemma remembers_refresh:
  assumes "remembers s t st" "last_refresh st \<le> clk 0" "clk 0 \<le> clk 1" "clk 0 < t + minutes 10"
  shows "remembers s t (refresh_check clk rnd st)" "last_refresh (refresh_check clk rnd st) \<le> clk 1"
proof -
  have m: "minutes 20 = 2 * minutes 10" by (simp add: minutes_def)
  have "remembers s t (refresh_check clk rnd st) \<and> last_refresh (refresh_check clk rnd st) \<le> clk 1"
    using assms(2)
  proof (cases rule: refresh_check_cases [where rnd = rnd])
    case same
    then show ?thesis using assms by simp
  next
    case rotate
    then show ?thesis using assms m by (auto simp: remembers_def)
  next
    case replace
    then show ?thesis using assms m by (auto simp: remembers_def)
  qed
  then show "remembers s t (refresh_check clk rnd st)" "last_refresh (refresh_check clk rnd st) \<le> clk 1" by auto
qed

lemma remembers_calls:
  "remembers s t st \<Longrightarrow> last_refresh st \<le> u \<Longrightarrow> clock_forward u calls \<Longrightarrow>
   \<forall>(clk, rnd) \<in> set calls. clk 0 < t + minutes 10 \<Longrightarrow>
   remembers s t (run_calls calls st)"
proof (induction u calls arbitrary: st rule: clock_forward.induct)
  case (2 u clk rnd calls)
  then have "remembers s t (refresh_check clk rnd st)" "last_refresh (refresh_check clk rnd st) \<le> clk 1"
    using remembers_refresh [of s t st clk rnd] by auto
  then show ?case using 2 by (simp add: run_calls_def)
qed (simp add: run_calls_def)

text \<open>
  Two stores that differ in their secrets only, and how far the calls have made them equal:
  \<open>b\<close> is a time by which the common interval had begun, \<open>delay\<close> bounds the time between the two
  clock readings of a call.
\<close>

datatype agreement = Secrets_differ | Last_differs | Agree

fun agrees :: "time \<Rightarrow> duration \<Rightarrow> TokenStore \<Rightarrow> TokenStore \<Rightarrow> agreement \<Rightarrow> bool" where
  "agrees b delay st st' Secrets_differ \<longleftrightarrow> last_refresh st = last_refresh st' \<and> last_refresh st \<le> b"
| "agrees b delay st st' Last_differs \<longleftrightarrow> last_refresh st = last_refresh st' \<and>
     curr_secret st = curr_secret st' \<and> last_refresh st \<le> b + minutes 20 + delay"
| "agrees b delay st st' Agree \<longleftrightarrow> st = st'"

lemma agrees_refresh:
  assumes "agrees b delay st st' a" "last_refresh st \<le> clk 0" "clk 0 \<le> clk 1" "clk 1 - clk 0 \<le> delay"
  shows "\<exists>a'. agrees b delay (refresh_check clk rnd st) (refresh_check clk rnd st') a' \<and>
    last_refresh (refresh_check clk rnd st) \<le> clk 1 \<and> (b + minutes 30 + delay \<le> clk 0 \<longrightarrow> a' = Agree)"
proof -
  have m: "minutes 20 = 2 * minutes 10" "minutes 30 = 3 * minutes 10" "0 < minutes 10" by (simp_all add: minutes_def)
  have r: "last_refresh st' \<le> clk 0" using assms(1,2) by (cases a) auto
  from assms(2) show ?thesis
  proof (cases rule: refresh_check_cases [where rnd = rnd])
    case same
    from r show ?thesis
      by (cases rule: refresh_check_cases [where rnd = rnd]; cases a)
        (use same assms m in \<open>auto intro!: exI [of _ a]\<close>)
  next
    case rotate
    from r show ?thesis
      by (cases rule: refresh_check_cases [where rnd = rnd]; cases a)
        (use rotate assms m in \<open>auto intro!: exI [of _ "if a = Secrets_differ then Last_differs else Agree"]\<close>)
  next
    case replace
    from r show ?thesis
      by (cases rule: refresh_check_cases [where rnd = rnd]; cases a)
        (use replace assms m in \<open>auto intro!: exI [of _ Agree]\<close>)
  qed
qed

lemma agrees_calls:
  assumes "agrees b delay st st' a" "last_refresh st \<le> u" "clock_forward u calls"
    "\<forall>(clk, rnd) \<in> set calls. clk 1 - clk 0 \<le> delay"
  shows "\<exists>a'. agrees b delay (run_calls calls st) (run_calls calls st') a' \<and>
    last_refresh (run_calls calls st) \<le> (if calls = [] then u else fst (last calls) 1)"
  using assms
proof (induction u calls arbitrary: st st' a rule: clock_forward.induct)
  case (2 u clk rnd calls)
  obtain a' where a': "agrees b delay (refresh_check clk rnd st) (refresh_check clk rnd st') a'"
    "last_refresh (refresh_check clk rnd st) \<le> clk 1"
    using agrees_refresh [OF 2(2), of clk rnd] 2(3-5) by auto
  with 2(1) [OF a'] 2(4,5) show ?case by (auto simp: run_calls_def)
qed (auto simp: run_calls_def)

section \<open>Properties\<close>

text \<open>
  C29. A token is accepted for at least ten minutes: given out at a time \<open>t\<close>, it is valid for the
  same address in every call before ten minutes have passed, whatever calls, with whatever
  draws, come in between.
\<close>

theorem token_valid_ten_minutes:
  assumes "checkout D clk rnd addr st = (token, st1)" "last_refresh st \<le> clk 0" "clk 0 \<le> clk 1"
    and "clock_forward (clk 1) (calls @ [(clk2, rnd2)])" "clk2 0 < clk 0 + minutes 10"
  shows "fst (checkin D clk2 rnd2 addr token (run_calls calls st1))"
proof -
  let ?st2 = "run_calls (calls @ [(clk2, rnd2)]) st1"
  have st1: "st1 = refresh_check clk rnd st" "token = generate_token_from_addr D addr (curr_secret st1)"
    using assms(1) by (auto simp: checkout_def Let_def)
  have "remembers (curr_secret st1) (clk 0) st1 \<and> last_refresh st1 \<le> clk 1"
    using assms(2) unfolding st1(1)
    by (cases rule: refresh_check_cases [where rnd = rnd]) (use assms(2,3) in \<open>auto simp: remembers_def minutes_def\<close>)
  moreover have "\<forall>(c, r) \<in> set (calls @ [(clk2, rnd2)]). c 0 < clk 0 + minutes 10"
    using clock_forward_before [OF assms(4)] assms(5) by auto
  ultimately have "remembers (curr_secret st1) (clk 0) ?st2" using remembers_calls assms(4) by blast
  then show ?thesis
    using validate_generated [of "curr_secret st1" "curr_secret ?st2" "last_secret ?st2" D addr]
    by (auto simp: checkin_def Let_def run_calls_def remembers_def st1(2))
qed

theorem token_valid_ten_minutes_witness:
  "fst (checkin toy_digest (\<lambda>_. minutes 9) (\<lambda>_. 7) (V4 (Ipv4Addr 1 2 3 4))
     (fst (checkout toy_digest (\<lambda>_. 0) (\<lambda>_. 5) (V4 (Ipv4Addr 1 2 3 4)) (TokenStore_new (\<lambda>_. 0) (\<lambda>_. 6))))
     (run_calls [(\<lambda>_. minutes 1, \<lambda>_. 8)]
       (snd (checkout toy_digest (\<lambda>_. 0) (\<lambda>_. 5) (V4 (Ipv4Addr 1 2 3 4)) (TokenStore_new (\<lambda>_. 0) (\<lambda>_. 6))))))"
  by (rule token_valid_ten_minutes [OF prod.collapse [symmetric]])
    (simp_all add: TokenStore_new_def minutes_def)

text \<open>
  C30. A token is forgotten after thirty minutes (and the time a call takes between its two
  readings of the clock): the store then no longer depends on the secrets it had when the
  token was given out.
\<close>

theorem token_forgotten_thirty_minutes:
  assumes "last_refresh st \<le> t" "clock_forward t (calls @ [(clk, rnd)])"
    and "\<forall>(c, r) \<in> set (calls @ [(clk, rnd)]). c 1 - c 0 \<le> delay" "t + minutes 30 + delay \<le> clk 0"
  shows "run_calls (calls @ [(clk, rnd)]) (st\<lparr>curr_secret := x, last_secret := y\<rparr>) =
    run_calls (calls @ [(clk, rnd)]) st"
proof -
  let ?st' = "st\<lparr>curr_secret := x, last_secret := y\<rparr>"
  have "agrees t delay st ?st' Secrets_differ" using assms(1) by simp
  from agrees_calls [OF this assms(1), of calls] obtain a where
    a: "agrees t delay (run_calls calls st) (run_calls calls ?st') a"
      "last_refresh (run_calls calls st) \<le> (if calls = [] then t else fst (last calls) 1)"
    using assms(2,3) by (auto simp: clock_forward_append)
  then have "\<exists>a'. agrees t delay (refresh_check clk rnd (run_calls calls st)) (refresh_check clk rnd (run_calls calls ?st')) a' \<and>
      a' = Agree"
    using agrees_refresh [OF a(1), of clk rnd] assms by (auto simp: clock_forward_append)
  then show ?thesis by (auto simp: run_calls_def)
qed

theorem token_forgotten_thirty_minutes_witness:
  "run_calls [(\<lambda>_. minutes 19, \<lambda>_. 1), (\<lambda>_. minutes 30, \<lambda>_. 2)]
     \<lparr>curr_secret = 3, last_secret = 4, last_refresh = 0\<rparr> =
   run_calls [(\<lambda>_. minutes 19, \<lambda>_. 1), (\<lambda>_. minutes 30, \<lambda>_. 2)]
     \<lparr>curr_secret = 5, last_secret = 6, last_refresh = 0\<rparr>"
  using token_forgotten_thirty_minutes [of "\<lparr>curr_secret = 5, last_secret = 6, last_refresh = 0\<rparr>" 0
      "[(\<lambda>_. minutes 19, \<lambda>_. 1)]" "\<lambda>_. minutes 30" "\<lambda>_. 2" 0 4 3]
  by (simp add: minutes_def)

text \<open>
  The bound of twenty minutes that the source states does not hold: when a call refreshes the
  secrets just before twenty minutes have passed, a token is still accepted almost ten minutes
  later, at an age of more than 29 minutes.
\<close>

theorem token_valid_beyond_twenty_minutes:
  "\<exists>call. case checkout D (\<lambda>_. 0) rnd addr (TokenStore_new (\<lambda>_. 0) rnd) of
     (token, st) \<Rightarrow> fst (checkin D (\<lambda>_. minutes 29) rnd2 addr token (run_calls [call] st))"
proof -
  let ?clk = "\<lambda>_ :: nat. minutes 20 - 1"
  have "intervals_passed 0 0 = 0" "intervals_passed (minutes 20 - 1) 0 = 1"
    "intervals_passed (minutes 29) (minutes 20 - 1) = 0"
    by (subst intervals_passed_eq; simp add: minutes_def)+
  then show ?thesis
    by (intro exI [of _ "(?clk, rnd)"])
      (simp add: checkout_def checkin_def run_calls_def refresh_check_def TokenStore_new_def Let_def validate_generated)
qed

end
