(* ===== verification/Dht_Storage.thy ===== *)
theory Dht_Storage
  imports Sha Convert
begin

text \<open>
  \<open>bip_dht/src/storage.rs\<close>: the contacts announced for a hash, kept for 24 hours and at most
  500 of them. The contacts are kept per hash, and in a queue in the order they were announced
  in, from whose head the expired ones are taken. The abstract view is one map from hash and
  address to the time of the announce; the locale \<open>announce_store\<close> states what the operations
  do to it, and is interpreted on the definitions.
\<close>

section \<open>Items\<close>

definition MAX_ITEMS_STORED :: nat where "MAX_ITEMS_STORED = 500"
definition EXPIRATION_TIME_HOURS :: int where "EXPIRATION_TIME_HOURS = 24"

record ItemExpiration =
  ie_address :: SocketAddr
  ie_inserted :: time
  ie_info_hash :: ShaHash

definition ItemExpiration_new :: "time \<Rightarrow> ShaHash \<Rightarrow> SocketAddr \<Rightarrow> ItemExpiration" where
  "ItemExpiration_new now info_hash address =
     \<lparr>ie_address = address, ie_inserted = now, ie_info_hash = info_hash\<rparr>"

definition is_expired :: "ItemExpiration \<Rightarrow> time \<Rightarrow> bool" where
  "is_expired self now \<longleftrightarrow> now - ie_inserted self \<ge> hours EXPIRATION_TIME_HOURS"

definition ie_eq :: "ItemExpiration \<Rightarrow> ItemExpiration \<Rightarrow> bool" where
  "ie_eq self other \<longleftrightarrow> ie_address self = ie_address other \<and> ie_info_hash self = ie_info_hash other"

record AnnounceItem =
  ai_expiration :: ItemExpiration

definition AnnounceItem_new :: "time \<Rightarrow> ShaHash \<Rightarrow> SocketAddr \<Rightarrow> AnnounceItem" where
  "AnnounceItem_new now info_hash address = \<lparr>ai_expiration = ItemExpiration_new now info_hash address\<rparr>"

definition ai_address :: "AnnounceItem \<Rightarrow> SocketAddr" where
  "ai_address self = ie_address (ai_expiration self)"

definition ai_info_hash :: "AnnounceItem \<Rightarrow> ShaHash" where
  "ai_info_hash self = ie_info_hash (ai_expiration self)"

text \<open>The derived equality compares the field.\<close>

definition ai_eq :: "AnnounceItem \<Rightarrow> AnnounceItem \<Rightarrow> bool" where
  "ai_eq a b \<longleftrightarrow> ie_eq (ai_expiration a) (ai_expiration b)"

section \<open>The storage\<close>

record AnnounceStorage =
  storage :: "ShaHash \<rightharpoonup> AnnounceItem list"
  expires :: "ItemExpiration list"

definition AnnounceStorage_new :: AnnounceStorage where
  "AnnounceStorage_new = \<lparr>storage = (\<lambda>_. None), expires = []\<rparr>"

text \<open>The body of the loop over the drained items.\<close>

definition remove_item ::
  "ItemExpiration \<Rightarrow> (ShaHash \<rightharpoonup> AnnounceItem list) \<Rightarrow> (ShaHash \<rightharpoonup> AnnounceItem list)" where
  "remove_item item_expiration m =
     (let info_hash = ie_info_hash item_expiration
      in case m info_hash of
           Some items \<Rightarrow>
             (let items = filter (\<lambda>a. \<not> ie_eq (ai_expiration a) item_expiration) items
              in if items = [] then m(info_hash := None) else m(info_hash \<mapsto> items))
         | None \<Rightarrow> m)"

definition remove_expired_items :: "time \<Rightarrow> AnnounceStorage \<Rightarrow> AnnounceStorage" where
  "remove_expired_items curr_time self =
     (let num_expired_items = length (takeWhile (\<lambda>i. is_expired i curr_time) (expires self))
      in self\<lparr>expires := drop num_expired_items (expires self),
           storage := fold remove_item (take num_expired_items (expires self)) (storage self)\<rparr>)"

definition insert_contact :: "AnnounceItem \<Rightarrow> AnnounceStorage \<Rightarrow> bool option \<times> AnnounceStorage" where
  "insert_contact item self =
     (let item_info_hash = ai_info_hash item;
          already_in_list =
            (case storage self item_info_hash of Some items \<Rightarrow> list_ex (\<lambda>a. ai_eq a item) items | None \<Rightarrow> False)
      in case (already_in_list, length (expires self) < MAX_ITEMS_STORED) of
           (False, True) \<Rightarrow>
             (Some False,
              (case storage self item_info_hash of
                 Some items \<Rightarrow> self\<lparr>storage := (storage self)(item_info_hash \<mapsto> items @ [item])\<rparr>
               | None \<Rightarrow> self\<lparr>storage := (storage self)(item_info_hash \<mapsto> [item])\<rparr>))
         | (False, False) \<Rightarrow> (None, self)
         | (True, False) \<Rightarrow> (Some True, self)
         | (True, True) \<Rightarrow> (Some True, self))"

text \<open>\<open>now\<close> is the clock as \<open>ItemExpiration::new\<close> reads it.\<close>

definition storage_add :: "time \<Rightarrow> ShaHash \<Rightarrow> SocketAddr \<Rightarrow> time \<Rightarrow> AnnounceStorage \<Rightarrow> bool \<times> AnnounceStorage" where
  "storage_add now info_hash address curr_time self =
     (let self = remove_expired_items curr_time self;
          item = AnnounceItem_new now info_hash address;
          item_expiration = ai_expiration item
      in case insert_contact item self of
           (Some True, self) \<Rightarrow>
             (let self = self\<lparr>expires := filter (\<lambda>i. \<not> ie_eq i item_expiration) (expires self)\<rparr>
              in (True, self\<lparr>expires := expires self @ [item_expiration]\<rparr>))
         | (Some False, self) \<Rightarrow> (True, self\<lparr>expires := expires self @ [item_expiration]\<rparr>)
         | (None, self) \<Rightarrow> (False, self))"

definition add_item :: "(nat \<Rightarrow> time) \<Rightarrow> ShaHash \<Rightarrow> SocketAddr \<Rightarrow> AnnounceStorage \<Rightarrow> bool \<times> AnnounceStorage" where
  "add_item clk info_hash address self = storage_add (clk 1) info_hash address (clk 0) self"

text \<open>The addresses the closure is called with, in this order.\<close>

definition storage_find :: "ShaHash \<Rightarrow> time \<Rightarrow> AnnounceStorage \<Rightarrow> SocketAddr list \<times> AnnounceStorage" where
  "storage_find info_hash curr_time self =
     (let self = remove_expired_items curr_time self
      in (case storage self info_hash of Some items \<Rightarrow> map ai_address items | None \<Rightarrow> [], self))"

definition find_items :: "time \<Rightarrow> ShaHash \<Rightarrow> AnnounceStorage \<Rightarrow> SocketAddr list \<times> AnnounceStorage" where
  "find_items now info_hash self = storage_find info_hash now self"

section \<open>The abstract view\<close>

type_synonym announce = "ShaHash \<times> SocketAddr"

definition ie_key :: "ItemExpiration \<Rightarrow> announce" where
  "ie_key e = (ie_info_hash e, ie_address e)"

definition ai_key :: "AnnounceItem \<Rightarrow> announce" where
  "ai_key a = ie_key (ai_expiration a)"

lemma eq_key: "ie_eq x y \<longleftrightarrow> ie_key x = ie_key y" "ai_eq a b \<longleftrightarrow> ai_key a = ai_key b"
  "ai_key a = (ai_info_hash a, ai_address a)"
  by (auto simp: ie_eq_def ie_key_def ai_eq_def ai_key_def ai_info_hash_def ai_address_def)

definition contacts :: "(ShaHash \<rightharpoonup> AnnounceItem list) \<Rightarrow> ShaHash \<Rightarrow> AnnounceItem list" where
  "contacts m h = (case m h of Some items \<Rightarrow> items | None \<Rightarrow> [])"

definition live :: "AnnounceStorage \<Rightarrow> announce \<rightharpoonup> time" where
  "live st = map_of (map (\<lambda>e. (ie_key e, ie_inserted e)) (expires st))"

text \<open>What of a map is younger than \<open>age\<close> at a time.\<close>

definition fresh :: "duration \<Rightarrow> time \<Rightarrow> ('k \<rightharpoonup> time) \<Rightarrow> ('k \<rightharpoonup> time)" where
  "fresh age t m = (\<lambda>k. case m k of Some s \<Rightarrow> if t - s \<ge> age then None else Some s | None \<Rightarrow> None)"

text \<open>
  The lists per hash: none is empty, each contact stands under its hash, and once. The queue
  holds the same contacts, in the order of their announces, none later than \<open>t\<close>.
\<close>

definition contacts_ok :: "(ShaHash \<rightharpoonup> AnnounceItem list) \<Rightarrow> bool" where
  "contacts_ok m \<longleftrightarrow> (\<forall>h. m h \<noteq> Some [] \<and> (\<forall>a \<in> set (contacts m h). ai_info_hash a = h) \<and>
     distinct (map ai_key (contacts m h)))"

definition storage_ok :: "time \<Rightarrow> AnnounceStorage \<Rightarrow> bool" where
  "storage_ok t st \<longleftrightarrow> contacts_ok (storage st) \<and>
     distinct (map ie_key (expires st)) \<and> length (expires st) \<le> MAX_ITEMS_STORED \<and>
     sorted (map ie_inserted (expires st)) \<and> (\<forall>e \<in> set (expires st). ie_inserted e \<le> t) \<and>
     (\<forall>h. ai_key ` set (contacts (storage st) h) = {k \<in> ie_key ` set (expires st). fst k = h})"

lemma storage_ok_new: "storage_ok t AnnounceStorage_new"
  by (simp add: storage_ok_def contacts_ok_def contacts_def AnnounceStorage_new_def)

section \<open>Removing the expired contacts\<close>

lemma remove_item_contacts:
  assumes "contacts_ok m"
  shows "contacts_ok (remove_item e m)"
    and "contacts (remove_item e m) h = filter (\<lambda>a. ai_key a \<noteq> ie_key e) (contacts m h)"
proof -
  have other: "filter (\<lambda>a. ai_key a \<noteq> ie_key e) (contacts m h) = contacts m h" if "h \<noteq> ie_info_hash e" for h
    using assms that by (auto simp: contacts_ok_def filter_id_conv eq_key(3) ie_key_def)
  show get: "contacts (remove_item e m) h = filter (\<lambda>a. ai_key a \<noteq> ie_key e) (contacts m h)" for h
    using other [of h]
    by (cases "h = ie_info_hash e")
      (auto simp: remove_item_def contacts_def Let_def eq_key(1) ai_key_def split: option.splits)
  have "remove_item e m h \<noteq> Some []" for h
    using assms by (auto simp: remove_item_def contacts_ok_def Let_def split: option.splits)
  with assms show "contacts_ok (remove_item e m)"
    by (auto simp: contacts_ok_def get distinct_map inj_on_def)
qed

lemma fold_remove_item:
  "contacts_ok m \<Longrightarrow> contacts_ok (fold remove_item es m) \<and>
   (\<forall>h. contacts (fold remove_item es m) h = filter (\<lambda>a. ai_key a \<notin> ie_key ` set es) (contacts m h))"
proof (induction es arbitrary: m)
  case (Cons e es)
  with remove_item_contacts [OF Cons.prems, of e] show ?case
    by (simp add: conj_commute)
qed simp

lemma takeWhile_expired:
  "sorted (map ie_inserted es) \<Longrightarrow>
   takeWhile (\<lambda>i. is_expired i t) es = filter (\<lambda>i. is_expired i t) es \<and>
   dropWhile (\<lambda>i. is_expired i t) es = filter (\<lambda>i. \<not> is_expired i t) es"
proof (induction es)
  case (Cons e es)
  show ?case
  proof (cases "is_expired e t")
    case False
    with Cons.prems have "\<forall>i \<in> set es. \<not> is_expired i t" by (auto simp: is_expired_def)
    with False show ?thesis by (simp add: filter_id_conv)
  qed (use Cons in simp)
qed simp

lemma remove_expired_eq:
  assumes "storage_ok t st"
  shows "expires (remove_expired_items u st) = filter (\<lambda>i. \<not> is_expired i u) (expires st)"
    and "storage (remove_expired_items u st) = fold remove_item (filter (\<lambda>i. is_expired i u) (expires st)) (storage st)"
proof -
  have split: "take (length (takeWhile P xs)) xs = takeWhile P xs" "drop (length (takeWhile P xs)) xs = dropWhile P xs"
    for P and xs :: "ItemExpiration list" by (simp_all flip: takeWhile_eq_take dropWhile_eq_drop)
  have "expires (remove_expired_items u st) = dropWhile (\<lambda>i. is_expired i u) (expires st)"
    "storage (remove_expired_items u st) = fold remove_item (takeWhile (\<lambda>i. is_expired i u) (expires st)) (storage st)"
    by (simp_all add: remove_expired_items_def Let_def split)
  moreover have "sorted (map ie_inserted (expires st))" using assms by (simp add: storage_ok_def)
  ultimately show "expires (remove_expired_items u st) = filter (\<lambda>i. \<not> is_expired i u) (expires st)"
    "storage (remove_expired_items u st) = fold remove_item (filter (\<lambda>i. is_expired i u) (expires st)) (storage st)"
    using takeWhile_expired [of "expires st" u] by simp_all
qed

lemma distinct_key:
  "distinct (map ie_key es) \<Longrightarrow> e \<in> set es \<Longrightarrow> e' \<in> set es \<Longrightarrow> ie_key e = ie_key e' \<Longrightarrow> e = e'"
  by (auto simp: distinct_map inj_on_def)

lemma image_filter_notin: "f ` {x \<in> A. f x \<notin> K} = f ` A - K"
  by auto

lemma remove_expired_ok:
  assumes "storage_ok t st"
  shows "storage_ok t (remove_expired_items u st)"
proof -
  let ?st = "remove_expired_items u st" and ?old = "filter (\<lambda>i. is_expired i u) (expires st)"
  note ok = assms [unfolded storage_ok_def]
  note eq = remove_expired_eq [OF assms, of u]
  have c: "contacts_ok (storage ?st)"
    "contacts (storage ?st) h = filter (\<lambda>a. ai_key a \<notin> ie_key ` set ?old) (contacts (storage st) h)" for h
    using fold_remove_item [of "storage st" ?old] ok by (auto simp: eq)
  have left: "ie_key ` set (expires ?st) = ie_key ` set (expires st) - ie_key ` set ?old"
    using ok by (auto simp: eq dest: distinct_key [of "expires st"])
  have "ai_key ` set (contacts (storage ?st) h) = {k \<in> ie_key ` set (expires ?st). fst k = h}" for h
  proof -
    have "ai_key ` set (contacts (storage ?st) h) = ai_key ` set (contacts (storage st) h) - ie_key ` set ?old"
      unfolding c(2) set_filter by (rule image_filter_notin)
    also have "ai_key ` set (contacts (storage st) h) = {k \<in> ie_key ` set (expires st). fst k = h}" using ok by blast
    finally show ?thesis unfolding left by auto
  qed
  moreover have "length (expires ?st) \<le> MAX_ITEMS_STORED"
    unfolding eq using ok by (intro order_trans [OF length_filter_le]) simp
  ultimately show ?thesis
    using ok c(1) by (auto simp: storage_ok_def eq distinct_map_filter sorted_filter)
qed

lemma live_expires: "distinct (map ie_key (expires st)) \<Longrightarrow>
   live st k = Some s \<longleftrightarrow> (\<exists>e \<in> set (expires st). ie_key e = k \<and> ie_inserted e = s)"
  by (auto simp: live_def map_of_eq_Some_iff comp_def)

lemma dom_live: "dom (live st) = ie_key ` set (expires st)"
  by (simp add: live_def dom_map_of_conv_image_fst image_image)

lemma remove_expired_live:
  assumes "storage_ok t st"
  shows "live (remove_expired_items u st) = fresh (hours 24) u (live st)"
proof (rule ext, rule option.expand)
  fix k
  have d: "distinct (map ie_key (expires st))" "distinct (map ie_key (expires (remove_expired_items u st)))"
    using assms remove_expired_ok [OF assms] by (simp_all add: storage_ok_def)
  have "live (remove_expired_items u st) k = Some s \<longleftrightarrow> fresh (hours 24) u (live st) k = Some s" for s
    using live_expires [OF d(1), of k] live_expires [OF d(2), of k s] distinct_key [OF d(1)]
    by (auto simp: fresh_def remove_expired_eq [OF assms] is_expired_def EXPIRATION_TIME_HOURS_def split: option.splits)
  then show "(live (remove_expired_items u st) k = None) = (fresh (hours 24) u (live st) k = None)"
    "live (remove_expired_items u st) k \<noteq> None \<Longrightarrow> fresh (hours 24) u (live st) k \<noteq> None \<Longrightarrow>
     the (live (remove_expired_items u st) k) = the (fresh (hours 24) u (live st) k)"
    by (metis option.exhaust option.distinct(1), metis option.sel not_Some_eq)
qed

section \<open>Adding and finding\<close>

lemma already_in_list:
  assumes "storage_ok t st"
  shows "(case storage st h of Some items \<Rightarrow> list_ex (\<lambda>a. ai_eq a (AnnounceItem_new v h x)) items | None \<Rightarrow> False) \<longleftrightarrow>
    (h, x) \<in> dom (live st)"
proof -
  have "(case storage st h of Some items \<Rightarrow> list_ex (\<lambda>a. ai_eq a (AnnounceItem_new v h x)) items | None \<Rightarrow> False) \<longleftrightarrow>
      (h, x) \<in> ai_key ` set (contacts (storage st) h)"
    by (auto simp: contacts_def list_ex_iff eq_key(2) AnnounceItem_new_def ItemExpiration_new_def
        ai_key_def ie_key_def image_iff split: option.splits)
  then show ?thesis using assms by (auto simp: storage_ok_def dom_live)
qed

lemma live_append:
  assumes "ie_key e \<notin> ie_key ` set es"
  shows "map_of (map (\<lambda>e. (ie_key e, ie_inserted e)) (es @ [e])) =
    (map_of (map (\<lambda>e. (ie_key e, ie_inserted e)) es))(ie_key e \<mapsto> ie_inserted e)"
proof -
  have "map_of (map (\<lambda>e. (ie_key e, ie_inserted e)) es) (ie_key e) = None"
    using assms by (auto simp: map_of_eq_None_iff)
  then show ?thesis by (auto simp: map_add_def fun_eq_iff split: option.splits)
qed

lemma map_of_filter_other: "map_of (filter (\<lambda>(k, s). k \<noteq> k') xs) = (map_of xs)(k' := None)"
  by (induction xs) (auto simp: fun_eq_iff)

text \<open>Putting an announce at the end of the queue, in place of an older one of the same contact.\<close>

lemma storage_ok_renew:
  assumes "storage_ok t st" "t \<le> v" "e = ItemExpiration_new v h x" "(h, x) \<in> dom (live st)"
    and "st' = st\<lparr>expires := filter (\<lambda>i. \<not> ie_eq i e) (expires st) @ [e]\<rparr>"
  shows "storage_ok v st'" "live st' = (live st)((h, x) \<mapsto> v)"
proof -
  note ok = assms(1) [unfolded storage_ok_def]
  have e: "ie_key e = (h, x)" "ie_inserted e = v" by (simp_all add: assms(3) ItemExpiration_new_def ie_key_def)
  have new: "ie_key e \<notin> ie_key ` set (filter (\<lambda>i. \<not> ie_eq i e) (expires st))" by (auto simp: eq_key(1))
  obtain i where i: "i \<in> set (expires st)" "ie_key i = (h, x)" using assms(4) by (auto simp: dom_live)
  have keys: "ie_key ` set (expires st') = ie_key ` set (expires st)"
    using i(1) i(2) [symmetric] e by (auto simp: assms(5) eq_key(1) image_iff)
  have len: "length (expires st') \<le> MAX_ITEMS_STORED"
    using length_filter_less [OF i(1), of "\<lambda>i. \<not> ie_eq i e"] i e ok by (simp add: assms(5) eq_key(1))
  have "sorted (map ie_inserted (expires st'))" "\<forall>i \<in> set (expires st'). ie_inserted i \<le> v"
    using ok assms(2) e by (auto simp: assms(5) sorted_append sorted_filter)
  moreover have "distinct (map ie_key (expires st'))"
    using ok new by (simp add: assms(5) distinct_map_filter)
  ultimately show "storage_ok v st'" using ok keys len by (simp add: storage_ok_def assms(5))
  have "live st' = (map_of (map (\<lambda>e. (ie_key e, ie_inserted e)) (filter (\<lambda>i. \<not> ie_eq i e) (expires st))))((h, x) \<mapsto> v)"
    using live_append [OF new] e by (simp add: live_def assms(5))
  also have "map (\<lambda>e. (ie_key e, ie_inserted e)) (filter (\<lambda>i. \<not> ie_eq i e) (expires st)) =
      filter (\<lambda>(k, s). k \<noteq> (h, x)) (map (\<lambda>e. (ie_key e, ie_inserted e)) (expires st))"
    by (simp add: filter_map comp_def eq_key(1) e)
  also have "map_of \<dots> = (live st)((h, x) := None)"
    unfolding live_def by (rule map_of_filter_other)
  finally show "live st' = (live st)((h, x) \<mapsto> v)" by (simp only: fun_upd_upd)
qed

lemma contacts_insert:
  assumes "contacts_ok m" "ai_info_hash a = h" "ai_key a \<notin> ai_key ` set (contacts m h)"
    and "m' = m(h \<mapsto> contacts m h @ [a])"
  shows "contacts_ok m'" "contacts m' h' = (if h' = h then contacts m h @ [a] else contacts m h')"
proof -
  show get: "contacts m' h' = (if h' = h then contacts m h @ [a] else contacts m h')" for h'
    by (simp add: assms(4) contacts_def)
  show "contacts_ok m'" using assms(1-3) by (auto simp: contacts_ok_def get) (auto simp: assms(4) contacts_def)
qed

lemma storage_ok_insert:
  assumes "storage_ok t st" "t \<le> v" "a = AnnounceItem_new v h x" "(h, x) \<notin> dom (live st)"
    and "length (expires st) < MAX_ITEMS_STORED"
    and "st' = st\<lparr>storage := (storage st)(h \<mapsto> contacts (storage st) h @ [a]), expires := expires st @ [ai_expiration a]\<rparr>"
  shows "storage_ok v st'" "live st' = (live st)((h, x) \<mapsto> v)"
proof -
  note ok = assms(1) [unfolded storage_ok_def]
  let ?e = "ai_expiration a"
  have e: "ai_info_hash a = h" "ai_key a = (h, x)" "ie_key ?e = (h, x)" "ie_inserted ?e = v"
    by (simp_all add: assms(3) AnnounceItem_new_def ItemExpiration_new_def ie_key_def ai_key_def ai_info_hash_def)
  have new: "(h, x) \<notin> ie_key ` set (expires st)" using assms(4) by (simp add: dom_live)
  then have "ai_key a \<notin> ai_key ` set (contacts (storage st) h)" using ok e by auto
  note c = contacts_insert [OF conjunct1 [OF ok] e(1) this refl]
  have "ai_key ` set (contacts (storage st') h') = {k \<in> ie_key ` set (expires st'). fst k = h'}" for h'
  proof (cases "h' = h")
    case True
    then show ?thesis using ok e by (auto simp: assms(6) c(2))
  next
    case False
    then show ?thesis using ok e by (auto simp: assms(6) c(2))
  qed
  moreover have "sorted (map ie_inserted (expires st'))" "\<forall>i \<in> set (expires st'). ie_inserted i \<le> v"
    using ok assms(2) e by (auto simp: assms(6) sorted_append)
  ultimately show "storage_ok v st'" using ok c(1) new assms(5) e by (simp add: storage_ok_def assms(6))
  show "live st' = (live st)((h, x) \<mapsto> v)" using live_append [of ?e "expires st"] new e by (simp add: live_def assms(6))
qed

lemma card_live: "distinct (map ie_key (expires st)) \<Longrightarrow> card (dom (live st)) = length (expires st)"
  using distinct_card [of "map ie_key (expires st)"] by (simp add: dom_live)

lemma storage_add_spec:
  assumes "storage_ok t st" "t \<le> v" "storage_add v h x u st = (b, st')"
  shows "(b \<longleftrightarrow> (h, x) \<in> dom (fresh (hours 24) u (live st)) \<or> card (dom (fresh (hours 24) u (live st))) < MAX_ITEMS_STORED) \<and>
    storage_ok v st' \<and> live st' = (if b then (fresh (hours 24) u (live st))((h, x) \<mapsto> v) else fresh (hours 24) u (live st))"
proof -
  let ?st = "remove_expired_items u st" and ?a = "AnnounceItem_new v h x"
  have ok: "storage_ok t ?st" by (rule remove_expired_ok [OF assms(1)])
  have live: "live ?st = fresh (hours 24) u (live st)" by (rule remove_expired_live [OF assms(1)])
  have card: "card (dom (live ?st)) = length (expires ?st)" using ok by (intro card_live) (simp add: storage_ok_def)
  have a: "ai_info_hash ?a = h" "ai_expiration ?a = ItemExpiration_new v h x"
    by (simp_all add: AnnounceItem_new_def ItemExpiration_new_def ai_info_hash_def)
  note add = assms(3) [unfolded storage_add_def insert_contact_def Let_def a(1) already_in_list [OF ok, where h = h and v = v and x = x]]
  consider (renew) "(h, x) \<in> dom (live ?st)" | (full) "(h, x) \<notin> dom (live ?st)" "\<not> length (expires ?st) < MAX_ITEMS_STORED"
    | (insert) "(h, x) \<notin> dom (live ?st)" "length (expires ?st) < MAX_ITEMS_STORED" by blast
  then show ?thesis
  proof cases
    case renew
    with add have "b" "st' = ?st\<lparr>expires := filter (\<lambda>i. \<not> ie_eq i (ai_expiration ?a)) (expires ?st) @ [ai_expiration ?a]\<rparr>"
      by (auto split: if_splits bool.splits)
    with storage_ok_renew [OF ok assms(2) a(2) renew] renew show ?thesis by (simp add: live)
  next
    case full
    with add have "\<not> b" "st' = ?st" by auto
    moreover have "storage_ok v ?st" using ok assms(2) by (force simp: storage_ok_def)
    ultimately show ?thesis using full card by (simp add: live)
  next
    case insert
    with add have "b" "st' = ?st\<lparr>storage := (storage ?st)(h \<mapsto> contacts (storage ?st) h @ [?a]),
        expires := expires ?st @ [ai_expiration ?a]\<rparr>"
      by (auto simp: contacts_def split: option.splits)
    with storage_ok_insert [OF ok assms(2) refl insert] insert card show ?thesis by (simp add: live)
  qed
qed

lemma storage_find_spec:
  assumes "storage_ok t st" "t \<le> u" "storage_find h u st = (xs, st')"
  shows "distinct xs \<and> set xs = {x. (h, x) \<in> dom (fresh (hours 24) u (live st))} \<and>
    storage_ok u st' \<and> live st' = fresh (hours 24) u (live st)"
proof -
  let ?st = "remove_expired_items u st"
  have ok: "storage_ok t ?st" by (rule remove_expired_ok [OF assms(1)])
  have st': "st' = ?st" "xs = map ai_address (contacts (storage ?st) h)"
    using assms(3) by (auto simp: storage_find_def contacts_def Let_def split: option.splits)
  have key: "ai_key a = (h, ai_address a)" if "a \<in> set (contacts (storage ?st) h)" for a
    using that ok by (auto simp: storage_ok_def contacts_ok_def eq_key(3))
  then have "map ai_key (contacts (storage ?st) h) = map (Pair h) xs" by (simp add: st'(2))
  moreover have "distinct (map ai_key (contacts (storage ?st) h))" using ok by (simp add: storage_ok_def contacts_ok_def)
  ultimately have "distinct xs" by (simp add: distinct_map)
  have "Pair h ` set xs = ai_key ` set (contacts (storage ?st) h)" using key by (force simp: st'(2))
  also have "\<dots> = {k \<in> dom (live ?st). fst k = h}" using ok by (simp add: storage_ok_def dom_live)
  finally have "set xs = {x. (h, x) \<in> dom (live ?st)}" by (auto simp: set_eq_iff image_iff)
  moreover have "storage_ok u ?st" using ok assms(2) by (force simp: storage_ok_def)
  ultimately show ?thesis using \<open>distinct xs\<close> remove_expired_live [OF assms(1)] st' by simp
qed

section \<open>The contract of the storage\<close>

text \<open>Calls one after the other, with the clock readings of each, from a time \<open>t\<close> to a time \<open>e\<close>.\<close>

datatype ('k, 'a) access = Announce time time 'k 'a | Lookup time 'k

fun run_accesses ::
  "(time \<Rightarrow> time \<Rightarrow> 'k \<Rightarrow> 'a \<Rightarrow> 's \<Rightarrow> bool \<times> 's) \<Rightarrow> (time \<Rightarrow> 'k \<Rightarrow> 's \<Rightarrow> 'a list \<times> 's) \<Rightarrow>
   ('k, 'a) access list \<Rightarrow> 's \<Rightarrow> 's" where
  "run_accesses ann look [] s = s"
| "run_accesses ann look (Announce u v k a # xs) s = run_accesses ann look xs (snd (ann u v k a s))"
| "run_accesses ann look (Lookup u k # xs) s = run_accesses ann look xs (snd (look u k s))"

fun access_times :: "time \<Rightarrow> ('k, 'a) access list \<Rightarrow> time \<Rightarrow> bool" where
  "access_times t [] e \<longleftrightarrow> t \<le> e"
| "access_times t (Announce u v k a # xs) e \<longleftrightarrow> t \<le> u \<and> u \<le> v \<and> access_times v xs e"
| "access_times t (Lookup u k # xs) e \<longleftrightarrow> t \<le> u \<and> access_times u xs e"

lemma access_times_le: "access_times t xs e \<Longrightarrow> t \<le> e"
  by (induction t xs e rule: access_times.induct) auto

locale announce_store =
  fixes inv :: "time \<Rightarrow> 's \<Rightarrow> bool"
    and entries :: "'s \<Rightarrow> 'k \<times> 'a \<rightharpoonup> time"
    and announce :: "time \<Rightarrow> time \<Rightarrow> 'k \<Rightarrow> 'a \<Rightarrow> 's \<Rightarrow> bool \<times> 's"
    and look :: "time \<Rightarrow> 'k \<Rightarrow> 's \<Rightarrow> 'a list \<times> 's"
    and age :: duration
    and room :: nat
  assumes announce_spec: "inv t s \<Longrightarrow> t \<le> u \<Longrightarrow> u \<le> v \<Longrightarrow> announce u v k a s = (b, s') \<Longrightarrow>
      (b \<longleftrightarrow> (k, a) \<in> dom (fresh age u (entries s)) \<or> card (dom (fresh age u (entries s))) < room) \<and>
      inv v s' \<and> entries s' = (if b then (fresh age u (entries s))((k, a) \<mapsto> v) else fresh age u (entries s))"
    and look_spec: "inv t s \<Longrightarrow> t \<le> u \<Longrightarrow> look u k s = (xs, s') \<Longrightarrow>
      distinct xs \<and> set xs = {a. (k, a) \<in> dom (fresh age u (entries s))} \<and>
      inv u s' \<and> entries s' = fresh age u (entries s)"
begin

lemma entry_kept:
  "inv t s \<Longrightarrow> entries s (k, a) = Some w \<Longrightarrow> w \<le> t \<Longrightarrow> access_times t xs e \<Longrightarrow> e - w < age \<Longrightarrow>
   \<exists>t' w'. inv t' (run_accesses announce look xs s) \<and> t' \<le> e \<and> w \<le> w' \<and>
     entries (run_accesses announce look xs s) (k, a) = Some w'"
proof (induction xs arbitrary: t s w)
  case Nil
  then show ?case by auto
next
  case (Cons x xs)
  show ?case
  proof (cases x)
    case (Announce u v k' a')
    obtain b s' where ann: "announce u v k' a' s = (b, s')" by (cases "announce u v k' a' s")
    have times: "t \<le> u" "u \<le> v" "access_times v xs e" "u \<le> e" using Cons.prems(4) access_times_le [of v xs e] by (auto simp: Announce)
    note spec = announce_spec [OF Cons.prems(1) times(1,2) ann]
    have "fresh age u (entries s) (k, a) = Some w" using Cons.prems times by (simp add: fresh_def)
    moreover have "entries s' = (if b then (fresh age u (entries s))((k', a') \<mapsto> v) else fresh age u (entries s))"
      using spec by blast
    ultimately have "entries s' (k, a) = Some (if b \<and> (k, a) = (k', a') then v else w)" by auto
    then obtain w' where w': "entries s' (k, a) = Some w'" "w \<le> w'" "w' \<le> v"
      using Cons.prems(3) times by (auto split: if_splits)
    with Cons.IH [of v s' w'] spec times Cons.prems(5) show ?thesis by (auto simp: Announce ann)
  next
    case (Lookup u k')
    obtain ys s' where look: "look u k' s = (ys, s')" by (cases "look u k' s")
    have times: "t \<le> u" "access_times u xs e" "u \<le> e" using Cons.prems(4) access_times_le [of u xs e] by (auto simp: Lookup)
    note spec = look_spec [OF Cons.prems(1) times(1) look]
    have "fresh age u (entries s) (k, a) = Some w" using Cons.prems times by (simp add: fresh_def)
    with Cons.IH [of u s' w] spec times Cons.prems show ?thesis by (auto simp: Lookup look)
  qed
qed

lemma announced_then_found:
  assumes "inv t s" "announce u v k a s = (True, s1)" "t \<le> u" "u \<le> v" "access_times v xs e" "e - v < age"
  shows "a \<in> set (fst (look e k (run_accesses announce look xs s1)))"
proof -
  let ?s = "run_accesses announce look xs s1"
  have "inv v s1" "entries s1 (k, a) = Some v" using announce_spec [OF assms(1,3,4,2)] by auto
  then obtain t' w' where w': "inv t' ?s" "t' \<le> e" "v \<le> w'" "entries ?s (k, a) = Some w'"
    using entry_kept [of v s1 k a v xs e] assms(5,6) by auto
  then have "(k, a) \<in> dom (fresh age e (entries ?s))" using assms(6) by (auto simp: fresh_def)
  then show ?thesis using look_spec [OF w'(1,2) prod.collapse [symmetric], of k] by auto
qed

end

interpretation contacts_store: announce_store storage_ok live "\<lambda>u v h x. storage_add v h x u"
  "\<lambda>u h. storage_find h u" "hours 24" MAX_ITEMS_STORED
proof unfold_locales
  fix t st u v h x b st'
  assume "storage_ok t st" "t \<le> u" "u \<le> v" "storage_add v h x u st = (b, st')"
  then show "(b \<longleftrightarrow> (h, x) \<in> dom (fresh (hours 24) u (live st)) \<or> card (dom (fresh (hours 24) u (live st))) < MAX_ITEMS_STORED) \<and>
      storage_ok v st' \<and> live st' = (if b then (fresh (hours 24) u (live st))((h, x) \<mapsto> v) else fresh (hours 24) u (live st))"
    using storage_add_spec [of t st v h x u b st'] by auto
next
  fix t st u h xs st'
  assume "storage_ok t st" "t \<le> u" "storage_find h u st = (xs, st')"
  then show "distinct xs \<and> set xs = {x. (h, x) \<in> dom (fresh (hours 24) u (live st))} \<and>
      storage_ok u st' \<and> live st' = fresh (hours 24) u (live st)" by (rule storage_find_spec)
qed

section \<open>Properties\<close>

text \<open>
  C17. The storage is a map from hash and address to the time of the announce. \<open>add_item\<close> drops
  what is 24 hours old, then enters the contact or renews its time, and refuses it exactly when
  500 other contacts are stored; \<open>find_items\<close> lists every contact of the hash that is not 24
  hours old, each once. Both keep the lists and the queue in step.
\<close>

theorem announce_storage_refines:
  assumes "storage_ok t st" "t \<le> clk 0" "clk 0 \<le> clk 1" and m_def: "m = fresh (hours 24) (clk 0) (live st)"
  shows "(case add_item clk h x st of (b, st') \<Rightarrow>
      (b \<longleftrightarrow> (h, x) \<in> dom m \<or> card (dom m) < 500) \<and> storage_ok (clk 1) st' \<and>
      live st' = (if b then m((h, x) \<mapsto> clk 1) else m)) \<and>
    (case find_items (clk 0) h st of (xs, st') \<Rightarrow>
      distinct xs \<and> set xs = {x. (h, x) \<in> dom m} \<and> storage_ok (clk 0) st' \<and> live st' = m)"
proof -
  obtain b st1 where add: "storage_add (clk 1) h x (clk 0) st = (b, st1)"
    by (cases "storage_add (clk 1) h x (clk 0) st")
  obtain xs st2 where find: "storage_find h (clk 0) st = (xs, st2)" by (cases "storage_find h (clk 0) st")
  from contacts_store.announce_spec [OF assms(1-3) add] contacts_store.look_spec [OF assms(1,2) find]
  show ?thesis unfolding add_item_def find_items_def add find prod.case m_def MAX_ITEMS_STORED_def by blast
qed

lemma distinct_single: "distinct xs \<Longrightarrow> set xs = {x} \<Longrightarrow> xs = [x]"
  by (cases xs; cases "tl xs") auto

theorem announce_storage_refines_witness:
  "fst (find_items (hours 3) [1] (snd (add_item (\<lambda>_. hours 2) [1] default_route_v4 AnnounceStorage_new))) = [default_route_v4]"
proof -
  let ?st = "snd (add_item (\<lambda>_. hours 2) [1] default_route_v4 AnnounceStorage_new)"
  have "live AnnounceStorage_new = (\<lambda>_. None)" by (simp add: live_def AnnounceStorage_new_def)
  then have "storage_ok (hours 2) ?st" "live ?st = [([1], default_route_v4) \<mapsto> hours 2]"
    using announce_storage_refines [OF storage_ok_new, of "hours 0" "\<lambda>_. hours 2" _ "[1]" default_route_v4, OF _ _ refl]
    by (auto simp: fresh_def hours_def split: prod.splits)
  then have "distinct (fst (find_items (hours 3) [1] ?st))" "set (fst (find_items (hours 3) [1] ?st)) = {default_route_v4}"
    using announce_storage_refines [of "hours 2" ?st "\<lambda>_. hours 3" _ "[1]" default_route_v4, OF _ _ _ refl]
    by (auto simp: fresh_def hours_def dom_def split: prod.splits if_splits)
  then show ?thesis by (rule distinct_single)
qed

text \<open>
  C31. A contact that was accepted is found by every lookup of its hash for 24 hours, whatever
  announces and lookups come in between, at a clock that goes forward.
\<close>

theorem announced_contact_found:
  assumes "storage_ok t st" "t \<le> clk 0" "clk 0 \<le> clk 1" "add_item clk h x st = (True, st1)"
    and "access_times (clk 1) accesses e" "e - clk 1 < hours 24"
  shows "x \<in> set (fst (find_items e h
    (run_accesses (\<lambda>u v h x. storage_add v h x u) (\<lambda>u h. storage_find h u) accesses st1)))"
  using contacts_store.announced_then_found [OF assms(1) assms(4) [unfolded add_item_def] assms(2,3,5,6)]
  by (simp add: find_items_def)

theorem announced_contact_found_witness:
  "default_route_v4 \<in> set (fst (find_items (hours 20) [1] (snd (find_items (hours 10) [2]
     (snd (add_item (\<lambda>_. 0) [1] default_route_v4 AnnounceStorage_new))))))"
proof -
  have "fst (add_item (\<lambda>_. 0) [1] default_route_v4 AnnounceStorage_new)"
    by (simp add: add_item_def storage_add_def insert_contact_def remove_expired_items_def AnnounceStorage_new_def
        MAX_ITEMS_STORED_def Let_def)
  then show ?thesis
    using announced_contact_found [OF storage_ok_new, of 0 "\<lambda>_. 0" "[1]" default_route_v4 _ "[Lookup (hours 10) [2]]" "hours 20"]
    by (cases "add_item (\<lambda>_. 0) [1] default_route_v4 AnnounceStorage_new") (simp add: hours_def find_items_def)
qed

end
