(* ===== verification/Dht_Transaction.thy ===== *)
theory Dht_Transaction
  imports Trans_Ids Convert
begin

text \<open>
  \<open>bip_dht/src/transaction.rs\<close>: transaction ids of eight bytes, the first five of which say
  which action a message belongs to. Both halves are drawn from blocks of 2048 consecutive
  numbers that are shuffled; both generators keep the contract \<open>transaction_ids\<close>.
\<close>

section \<open>Constants\<close>

definition ACTION_ID_BYTES :: nat where "ACTION_ID_BYTES = 5"
definition MESSAGE_ID_BYTES :: nat where "MESSAGE_ID_BYTES = 3"
definition TRANSACTION_ID_BYTES :: nat where "TRANSACTION_ID_BYTES = ACTION_ID_BYTES + MESSAGE_ID_BYTES"
definition ACTION_ID_SHIFT :: nat where "ACTION_ID_SHIFT = ACTION_ID_BYTES * 8"
definition MAX_ACTION_ID :: u64 where "MAX_ACTION_ID = push_bit ACTION_ID_SHIFT 1"
definition MESSAGE_ID_SHIFT :: nat where "MESSAGE_ID_SHIFT = MESSAGE_ID_BYTES * 8"
definition MAX_MESSAGE_ID :: u64 where "MAX_MESSAGE_ID = push_bit MESSAGE_ID_SHIFT 1"
definition ACTION_ID_PREALLOC_LEN :: nat where "ACTION_ID_PREALLOC_LEN = 2048"
definition MESSAGE_ID_PREALLOC_LEN :: nat where "MESSAGE_ID_PREALLOC_LEN = 2048"

section \<open>The ids\<close>

record TransactionID =
  trans_id :: u64
  trans_id_bytes :: bytes

definition TransactionID_new :: "u64 \<Rightarrow> TransactionID" where
  "TransactionID_new t = \<lparr>trans_id = t, trans_id_bytes = eight_bytes_to_array t\<rparr>"

definition TransactionID_from_bytes :: "bytes \<Rightarrow> TransactionID option" where
  "TransactionID_from_bytes bytes =
     (if length bytes \<noteq> TRANSACTION_ID_BYTES then None
      else Some (TransactionID_new (foldl (\<lambda>t byte. push_bit 8 t OR ucast byte) 0 bytes)))"

record ActionID = act_id :: u64

definition ActionID_from_transaction_id :: "u64 \<Rightarrow> ActionID" where
  "ActionID_from_transaction_id t = (let shifted_action_id = drop_bit MESSAGE_ID_SHIFT t in \<lparr>act_id = shifted_action_id\<rparr>)"

record MessageID = msg_id :: u64

definition MessageID_from_transaction_id :: "u64 \<Rightarrow> MessageID" where
  "MessageID_from_transaction_id t =
     (let clear_action_id = MAX_MESSAGE_ID - 1; shifted_message_id = t AND clear_action_id
      in \<lparr>msg_id = shifted_message_id\<rparr>)"

definition TransactionID_action_id :: "TransactionID \<Rightarrow> ActionID" where
  "TransactionID_action_id self = ActionID_from_transaction_id (trans_id self)"

definition TransactionID_message_id :: "TransactionID \<Rightarrow> MessageID" where
  "TransactionID_message_id self = MessageID_from_transaction_id (trans_id self)"

section \<open>The generators\<close>

text \<open>The range \<open>a..b\<close> of 64 bit integers, and the loop that stores it in an array.\<close>

definition word_range :: "u64 \<Rightarrow> u64 \<Rightarrow> u64 list" where
  "word_range a b = map of_nat [unat a..<unat b]"

definition store_range :: "u64 list \<Rightarrow> u64 list \<Rightarrow> u64 list" where
  "store_range ids arr = fold (\<lambda>index arr. arr[index := ids ! index]) [0..<length ids] arr"

definition generate_aids :: "u64 \<Rightarrow> u64 \<times> u64 list" where
  "generate_aids next_alloc =
     (let (next_alloc_start, next_alloc_end) =
            (if next_alloc = MAX_ACTION_ID then (0, of_nat ACTION_ID_PREALLOC_LEN)
             else (next_alloc, next_alloc + of_nat ACTION_ID_PREALLOC_LEN));
          action_ids = store_range (word_range next_alloc_start next_alloc_end) (replicate ACTION_ID_PREALLOC_LEN 0)
      in (next_alloc_end, action_ids))"

definition generate_mids :: "u64 \<Rightarrow> u64 \<times> u64 list" where
  "generate_mids next_alloc =
     (let (next_alloc_start, next_alloc_end) =
            (if next_alloc = MAX_MESSAGE_ID then (0, of_nat MESSAGE_ID_PREALLOC_LEN)
             else (next_alloc, next_alloc + of_nat MESSAGE_ID_PREALLOC_LEN));
          message_ids = store_range (word_range next_alloc_start next_alloc_end) (replicate MESSAGE_ID_PREALLOC_LEN 0)
      in (next_alloc_end, message_ids))"

record MIDGenerator =
  mid_action_id :: u64
  mid_next_alloc :: u64
  mid_curr_index :: nat
  message_ids :: "u64 list"

definition MIDGenerator_new :: "u64 \<Rightarrow> MIDGenerator" where
  "MIDGenerator_new action_id =
     \<lparr>mid_action_id = action_id, mid_next_alloc = 0, mid_curr_index = MESSAGE_ID_PREALLOC_LEN,
      message_ids = replicate MESSAGE_ID_PREALLOC_LEN 0\<rparr>"

definition MIDGenerator_action_id :: "MIDGenerator \<Rightarrow> ActionID" where
  "MIDGenerator_action_id self = ActionID_from_transaction_id (mid_action_id self)"

text \<open>The other branch of \<open>generate\<close>: a new block, in random order.\<close>

definition mid_refill :: "(nat \<Rightarrow> u64) \<Rightarrow> MIDGenerator \<Rightarrow> MIDGenerator" where
  "mid_refill rnd self =
     (let (next_alloc, message_ids) = generate_mids (mid_next_alloc self);
          message_ids = fisher_shuffle 0 rnd message_ids
      in self\<lparr>mid_next_alloc := next_alloc, message_ids := message_ids, mid_curr_index := 0\<rparr>)"

lemma length_store_range [simp]: "length (store_range ids arr) = length arr"
proof -
  have "length (fold (\<lambda>index arr. arr[index := ids ! index]) ns arr) = length arr" for ns
    by (induction ns arbitrary: arr) simp_all
  then show ?thesis by (simp add: store_range_def)
qed

lemma mid_refill_simps [simp]:
  "mid_action_id (mid_refill rnd self) = mid_action_id self" "mid_curr_index (mid_refill rnd self) = 0"
  "length (message_ids (mid_refill rnd self)) = MESSAGE_ID_PREALLOC_LEN"
  by (simp_all add: mid_refill_def generate_mids_def Let_def split: prod.split)

function MIDGenerator_generate :: "(nat \<Rightarrow> u64) \<Rightarrow> MIDGenerator \<Rightarrow> TransactionID \<times> MIDGenerator" where
  "MIDGenerator_generate rnd self =
     (case get_at (message_ids self) (mid_curr_index self) of
        Some message_id \<Rightarrow>
          (TransactionID_new (mid_action_id self OR message_id),
           self\<lparr>mid_curr_index := mid_curr_index self + 1\<rparr>)
      | None \<Rightarrow> MIDGenerator_generate rnd (mid_refill rnd self))"
  by pat_completeness auto

termination MIDGenerator_generate
  by (relation "measure (\<lambda>(rnd, self). if mid_curr_index self < length (message_ids self) then 0 else 1)")
    (auto simp: MESSAGE_ID_PREALLOC_LEN_def)

declare MIDGenerator_generate.simps [simp del]

record AIDGenerator =
  aid_next_alloc :: u64
  aid_curr_index :: nat
  action_ids :: "u64 list"

definition AIDGenerator_new :: "(nat \<Rightarrow> u64) \<Rightarrow> AIDGenerator" where
  "AIDGenerator_new rnd =
     (let (next_alloc, action_ids) = generate_aids 0;
          action_ids = fisher_shuffle 0 rnd action_ids
      in \<lparr>aid_next_alloc = next_alloc, aid_curr_index = 0, action_ids = action_ids\<rparr>)"

definition aid_refill :: "(nat \<Rightarrow> u64) \<Rightarrow> AIDGenerator \<Rightarrow> AIDGenerator" where
  "aid_refill rnd self =
     (let (next_alloc, action_ids) = generate_aids (aid_next_alloc self);
          action_ids = fisher_shuffle 0 rnd action_ids
      in self\<lparr>aid_next_alloc := next_alloc, action_ids := action_ids, aid_curr_index := 0\<rparr>)"

lemma aid_refill_simps [simp]:
  "aid_curr_index (aid_refill rnd self) = 0" "length (action_ids (aid_refill rnd self)) = ACTION_ID_PREALLOC_LEN"
  by (simp_all add: aid_refill_def generate_aids_def Let_def split: prod.split)

function AIDGenerator_generate :: "(nat \<Rightarrow> u64) \<Rightarrow> AIDGenerator \<Rightarrow> MIDGenerator \<times> AIDGenerator" where
  "AIDGenerator_generate rnd self =
     (case get_at (action_ids self) (aid_curr_index self) of
        Some action_id \<Rightarrow>
          (MIDGenerator_new (push_bit MESSAGE_ID_SHIFT action_id), self\<lparr>aid_curr_index := aid_curr_index self + 1\<rparr>)
      | None \<Rightarrow> AIDGenerator_generate rnd (aid_refill rnd self))"
  by pat_completeness auto

termination AIDGenerator_generate
  by (relation "measure (\<lambda>(rnd, self). if aid_curr_index self < length (action_ids self) then 0 else 1)")
    (auto simp: ACTION_ID_PREALLOC_LEN_def)

declare AIDGenerator_generate.simps [simp del]

section \<open>Blocks of ids\<close>

lemmas id_consts = ACTION_ID_PREALLOC_LEN_def MESSAGE_ID_PREALLOC_LEN_def MAX_ACTION_ID_def MAX_MESSAGE_ID_def
  ACTION_ID_SHIFT_def MESSAGE_ID_SHIFT_def ACTION_ID_BYTES_def MESSAGE_ID_BYTES_def TRANSACTION_ID_BYTES_def

lemma store_range_eq: "length ids = length arr \<Longrightarrow> store_range ids arr = ids"
  using map_nth [of ids] by (simp add: store_range_def fold_update_map)

text \<open>
  The numbers below \<open>n\<close> are issued or still in the rest of the block; a block is 2048 numbers.
\<close>

definition block_issued :: "nat \<Rightarrow> u64 set \<Rightarrow> u64 \<Rightarrow> nat \<Rightarrow> u64 list \<Rightarrow> bool" where
  "block_issued mx I alloc i ids \<longleftrightarrow>
     (\<exists>n. alloc = of_nat n \<and> n \<le> mx \<and> 2048 dvd n \<and> length ids = 2048 \<and> finite I \<and>
        mset (map of_nat [0..<n]) = mset_set I + mset (drop i ids))"

lemma distinct_of_nat_upt: "n \<le> 2 ^ 40 \<Longrightarrow> distinct (map (of_nat :: nat \<Rightarrow> u64) [0..<n])"
  by (auto simp: distinct_map inj_on_def of_nat_word_inj)

lemma block_next:
  assumes "block_issued mx I alloc i ids" "i < length ids" "mx \<le> 2 ^ 40"
  shows "ids ! i \<notin> I \<and> block_issued mx (insert (ids ! i) I) alloc (i + 1) ids \<and> unat (ids ! i) < mx"
proof -
  from assms(1) obtain n where n: "alloc = of_nat n" "n \<le> mx" "2048 dvd n" "length ids = 2048" "finite I"
    "mset (map of_nat [0..<n]) = mset_set I + mset (drop i ids)" by (auto simp: block_issued_def)
  have drop: "mset (drop i ids) = add_mset (ids ! i) (mset (drop (Suc i) ids))"
    using assms(2) by (simp flip: Cons_nth_drop_Suc)
  have "count (mset (map (of_nat :: nat \<Rightarrow> u64) [0..<n])) (ids ! i) \<le> 1"
    using distinct_of_nat_upt [of n] n(2) assms(3) by (simp add: distinct_count_atmost_1)
  then have new: "ids ! i \<notin> I" using n(5,6) drop by auto
  have "ids ! i \<in> set (map of_nat [0..<n])" unfolding set_mset_mset [symmetric] n(6) drop by simp
  then have "unat (ids ! i) < mx" using n(2) assms(3) by (auto simp: unat_of_nat take_bit_nat_eq_self)
  with new n drop show ?thesis by (auto simp: block_issued_def)
qed

lemma block_refill:
  assumes "block_issued mx I alloc i ids" "length ids \<le> i" "card I < mx" "mx \<le> 2 ^ 40" "2048 dvd mx"
    and "mset ids' = mset (store_range (word_range alloc (alloc + 2048)) (replicate 2048 0))"
  shows "alloc \<noteq> of_nat mx \<and> block_issued mx I (alloc + 2048) 0 ids'"
proof -
  from assms(1,2) obtain n where n: "alloc = of_nat n" "n \<le> mx" "2048 dvd n" "length ids = 2048" "finite I"
    "mset (map of_nat [0..<n]) = mset_set I" by (auto simp: block_issued_def)
  have "n = card I" using arg_cong [OF n(6), of size] by simp
  with assms(3) have "n < mx" by simp
  with n(3) assms(5) have le: "n + 2048 \<le> mx" by (auto elim!: dvdE)
  have unat: "unat (of_nat k :: u64) = k" if "k \<le> mx" for k
    using that assms(4) by (simp add: unat_of_nat take_bit_nat_eq_self)
  have "alloc \<noteq> of_nat mx" using unat [of n] unat [of mx] \<open>n < mx\<close> n(1) by auto
  have "(of_nat n :: u64) + 2048 = of_nat (n + 2048)" by simp
  then have range: "word_range alloc (alloc + 2048) = map of_nat [n..<n + 2048]"
    unfolding word_range_def n(1) using unat [of n] unat [of "n + 2048"] le by simp
  then have ids': "mset ids' = mset (map of_nat [n..<n + 2048])" unfolding assms(6) by (simp add: store_range_eq)
  then have "length ids' = 2048" using mset_eq_length [OF ids'] by simp
  moreover have "mset (map of_nat [0..<n + 2048]) = mset_set I + mset ids'"
    using n(6) ids' by (simp add: upt_add_eq_append [of 0 n 2048])
  ultimately show ?thesis
    using \<open>alloc \<noteq> _\<close> n le unfolding block_issued_def by (auto intro!: exI [of _ "n + 2048"])
qed

section \<open>Both halves of an id\<close>

lemma take_bit_small: "unat w < 2 ^ k \<Longrightarrow> take_bit k w = w" for w :: u64
  by (simp add: word_unat_eq_iff unsigned_take_bit_eq take_bit_nat_eq_self)

lemma bit_small: "unat w < 2 ^ k \<Longrightarrow> bit w n \<Longrightarrow> n < k" for w :: u64
  using take_bit_small [of w k] by (metis bit_take_bit_iff)

lemma join_ids:
  fixes m :: u64
  assumes "unat m < 2 ^ 24"
  shows "take_bit 24 (push_bit 24 b OR m) = m" "drop_bit 24 (push_bit 24 b OR m) = drop_bit 24 (push_bit 24 b)"
proof -
  show "take_bit 24 (push_bit 24 b OR m) = m"
    using bit_small [OF assms] by (intro bit_word_eqI) (auto simp: bit_simps)
  show "drop_bit 24 (push_bit 24 b OR m) = drop_bit 24 (push_bit 24 b)"
    using bit_small [OF assms] by (intro bit_word_eqI) (auto simp: bit_simps)
qed

lemma shift_back: "unat a < 2 ^ 40 \<Longrightarrow> drop_bit 24 (push_bit 24 a) = a" for a :: u64
  using bit_small [of a 40] by (intro bit_word_eqI) (auto simp: bit_simps)

lemma max_ids: "MAX_ACTION_ID = of_nat (2 ^ 40)" "MAX_MESSAGE_ID = of_nat (2 ^ 24)"
  by (simp_all add: id_consts)

section \<open>Both generators keep the contract\<close>

definition mid_issued :: "TransactionID set \<Rightarrow> MIDGenerator \<Rightarrow> bool" where
  "mid_issued I self \<longleftrightarrow>
     (\<exists>b J. mid_action_id self = push_bit 24 b \<and> (\<forall>m \<in> J. unat m < 2 ^ 24) \<and>
        I = (\<lambda>m. TransactionID_new (push_bit 24 b OR m)) ` J \<and>
        block_issued (2 ^ 24) J (mid_next_alloc self) (mid_curr_index self) (message_ids self))"

lemma mid_refill_block:
  assumes "block_issued (2 ^ 24) J (mid_next_alloc self) (mid_curr_index self) (message_ids self)"
    and "length (message_ids self) \<le> mid_curr_index self" "card J < 2 ^ 24"
  shows "block_issued (2 ^ 24) J (mid_next_alloc (mid_refill rnd self)) 0 (message_ids (mid_refill rnd self))"
proof -
  let ?al = "mid_next_alloc self"
  let ?ids = "fisher_shuffle 0 rnd (store_range (word_range ?al (?al + 2048)) (replicate 2048 0))"
  have "?al \<noteq> of_nat (2 ^ 24) \<and> block_issued (2 ^ 24) J (?al + 2048) 0 ?ids"
    by (rule block_refill [OF assms]) (simp_all add: mset_fisher_shuffle)
  then show ?thesis
    by (simp add: mid_refill_def generate_mids_def max_ids MESSAGE_ID_PREALLOC_LEN_def Let_def)
qed

lemma mid_issued_ready:
  assumes "mid_issued I self" "card I < 2 ^ 24"
  obtains self' where "mid_issued I self'" "mid_curr_index self' < length (message_ids self')"
    "mid_action_id self' = mid_action_id self" "MIDGenerator_generate rnd self = MIDGenerator_generate rnd self'"
proof (cases "mid_curr_index self < length (message_ids self)")
  case True
  with assms(1) show ?thesis by (intro that [of self]) auto
next
  case False
  from assms(1) obtain b J where J: "mid_action_id self = push_bit 24 b" "\<forall>m \<in> J. unat m < 2 ^ 24"
    "I = (\<lambda>m. TransactionID_new (push_bit 24 b OR m)) ` J"
    "block_issued (2 ^ 24) J (mid_next_alloc self) (mid_curr_index self) (message_ids self)"
    by (auto simp: mid_issued_def)
  have "inj_on (\<lambda>m. TransactionID_new (push_bit 24 b OR m)) J"
  proof (rule inj_onI)
    fix m m' assume m: "m \<in> J" "m' \<in> J" and "TransactionID_new (push_bit 24 b OR m) = TransactionID_new (push_bit 24 b OR m')"
    then have "push_bit 24 b OR m = push_bit 24 b OR m'" by (simp add: TransactionID_new_def)
    then show "m = m'" using join_ids(1) [of m b] join_ids(1) [of m' b] J(2) m by simp
  qed
  then have "card J < 2 ^ 24" using assms(2) J(3) by (simp add: card_image)
  then have "mid_issued I (mid_refill rnd self)"
    using J False mid_refill_block [OF J(4)] by (auto simp: mid_issued_def)
  moreover have "MIDGenerator_generate rnd self = MIDGenerator_generate rnd (mid_refill rnd self)"
    using False by (subst MIDGenerator_generate.simps) (simp add: get_at_def)
  ultimately show ?thesis by (intro that [of "mid_refill rnd self"]) (simp_all add: MESSAGE_ID_PREALLOC_LEN_def)
qed

lemma mid_issued_next:
  assumes "mid_issued I self" "mid_curr_index self < length (message_ids self)"
    and "MIDGenerator_generate rnd self = (x, self')"
  shows "x \<notin> I \<and> mid_issued (insert x I) self' \<and> TransactionID_action_id x = MIDGenerator_action_id self \<and>
    mid_action_id self' = mid_action_id self"
proof -
  from assms(1) obtain b J where J: "mid_action_id self = push_bit 24 b" "\<forall>m \<in> J. unat m < 2 ^ 24"
    "I = (\<lambda>m. TransactionID_new (push_bit 24 b OR m)) ` J"
    "block_issued (2 ^ 24) J (mid_next_alloc self) (mid_curr_index self) (message_ids self)"
    by (auto simp: mid_issued_def)
  let ?m = "message_ids self ! mid_curr_index self"
  have m: "?m \<notin> J" "block_issued (2 ^ 24) (insert ?m J) (mid_next_alloc self) (mid_curr_index self + 1) (message_ids self)"
    "unat ?m < 2 ^ 24" using block_next [OF J(4) assms(2)] by simp_all
  have x: "x = TransactionID_new (push_bit 24 b OR ?m)" "self' = self\<lparr>mid_curr_index := mid_curr_index self + 1\<rparr>"
    using assms(2,3) J(1) by (auto simp: MIDGenerator_generate.simps [of rnd self] get_at_def)
  have "x \<notin> I"
  proof
    assume "x \<in> I"
    then obtain m' where "m' \<in> J" "push_bit 24 b OR m' = push_bit 24 b OR ?m"
      using x(1) J(3) by (auto simp: TransactionID_new_def)
    then have "m' = ?m" using join_ids(1) [of m' b] join_ids(1) [OF m(3), of b] J(2) by metis
    with m(1) \<open>m' \<in> J\<close> show False by simp
  qed
  moreover have "mid_issued (insert x I) self'"
    unfolding mid_issued_def using J x m by (intro exI [of _ b] exI [of _ "insert ?m J"]) auto
  moreover have "TransactionID_action_id x = MIDGenerator_action_id self"
    using join_ids(2) [OF m(3), of b]
    by (simp add: x(1) TransactionID_action_id_def MIDGenerator_action_id_def ActionID_from_transaction_id_def
        TransactionID_new_def J(1) id_consts)
  ultimately show ?thesis using x(2) by simp
qed

interpretation mids: transaction_ids MIDGenerator_generate mid_issued "2 ^ 24"
proof unfold_locales
  show "finite I" if "mid_issued I self" for I self using that by (auto simp: mid_issued_def block_issued_def)
  fix I self rnd x self'
  assume "mid_issued I self" "card I < 2 ^ 24" and gen: "MIDGenerator_generate rnd self = (x, self')"
  from this(1,2) obtain s where "mid_issued I s" "mid_curr_index s < length (message_ids s)"
    "MIDGenerator_generate rnd self = MIDGenerator_generate rnd s" by (rule mid_issued_ready [where rnd = rnd])
  with mid_issued_next gen show "x \<notin> I \<and> mid_issued (insert x I) self'" by metis
qed

text \<open>For the action ids, the generator seen through the action id of what it returns.\<close>

definition aid_generate :: "(nat \<Rightarrow> u64) \<Rightarrow> AIDGenerator \<Rightarrow> ActionID \<times> AIDGenerator" where
  "aid_generate rnd self = (case AIDGenerator_generate rnd self of (g, self') \<Rightarrow> (MIDGenerator_action_id g, self'))"

definition aid_issued :: "ActionID set \<Rightarrow> AIDGenerator \<Rightarrow> bool" where
  "aid_issued I self \<longleftrightarrow>
     (\<exists>J. I = (\<lambda>a. \<lparr>act_id = a\<rparr>) ` J \<and>
        block_issued (2 ^ 40) J (aid_next_alloc self) (aid_curr_index self) (action_ids self))"

lemma aid_refill_block:
  assumes "block_issued (2 ^ 40) J (aid_next_alloc self) (aid_curr_index self) (action_ids self)"
    and "length (action_ids self) \<le> aid_curr_index self" "card J < 2 ^ 40"
  shows "block_issued (2 ^ 40) J (aid_next_alloc (aid_refill rnd self)) 0 (action_ids (aid_refill rnd self))"
proof -
  let ?al = "aid_next_alloc self"
  let ?ids = "fisher_shuffle 0 rnd (store_range (word_range ?al (?al + 2048)) (replicate 2048 0))"
  have "?al \<noteq> of_nat (2 ^ 40) \<and> block_issued (2 ^ 40) J (?al + 2048) 0 ?ids"
    by (rule block_refill [OF assms]) (simp_all add: mset_fisher_shuffle)
  then show ?thesis
    by (simp add: aid_refill_def generate_aids_def max_ids ACTION_ID_PREALLOC_LEN_def Let_def)
qed

lemma aid_issued_next:
  assumes "block_issued (2 ^ 40) J (aid_next_alloc self) (aid_curr_index self) (action_ids self)"
    and "aid_curr_index self < length (action_ids self)" "aid_generate rnd self = (x, self')"
  shows "x \<notin> (\<lambda>a. \<lparr>act_id = a\<rparr>) ` J \<and> aid_issued (insert x ((\<lambda>a. \<lparr>act_id = a\<rparr>) ` J)) self'"
proof -
  let ?a = "action_ids self ! aid_curr_index self"
  have a: "?a \<notin> J" "block_issued (2 ^ 40) (insert ?a J) (aid_next_alloc self) (aid_curr_index self + 1) (action_ids self)"
    "unat ?a < 2 ^ 40" using block_next [OF assms(1,2)] by simp_all
  have "x = \<lparr>act_id = ?a\<rparr>" "self' = self\<lparr>aid_curr_index := aid_curr_index self + 1\<rparr>"
    using assms(2,3) shift_back [OF a(3)]
    by (auto simp: aid_generate_def AIDGenerator_generate.simps [of rnd self] get_at_def MIDGenerator_action_id_def
        MIDGenerator_new_def ActionID_from_transaction_id_def id_consts)
  with a show ?thesis by (auto simp: aid_issued_def intro!: exI [of _ "insert ?a J"])
qed

interpretation aids: transaction_ids aid_generate aid_issued "2 ^ 40"
proof unfold_locales
  show "finite I" if "aid_issued I self" for I self using that by (auto simp: aid_issued_def block_issued_def)
  fix I self rnd x self'
  assume "aid_issued I self" and card: "card I < 2 ^ 40" and gen: "aid_generate rnd self = (x, self')"
  then obtain J where J: "I = (\<lambda>a. \<lparr>act_id = a\<rparr>) ` J"
    "block_issued (2 ^ 40) J (aid_next_alloc self) (aid_curr_index self) (action_ids self)" by (auto simp: aid_issued_def)
  have "card J < 2 ^ 40" using card J(1) by (simp add: card_image inj_on_def)
  show "x \<notin> I \<and> aid_issued (insert x I) self'"
  proof (cases "aid_curr_index self < length (action_ids self)")
    case True
    with aid_issued_next [OF J(2) _ gen] J(1) show ?thesis by simp
  next
    case False
    let ?self = "aid_refill rnd self"
    have "aid_generate rnd ?self = (x, self')"
      using gen False unfolding aid_generate_def by (subst (asm) AIDGenerator_generate.simps) (simp add: get_at_def)
    moreover have "block_issued (2 ^ 40) J (aid_next_alloc ?self) (aid_curr_index ?self) (action_ids ?self)"
      using aid_refill_block [OF J(2) _ \<open>card J < _\<close>] False by simp
    moreover have "aid_curr_index ?self < length (action_ids ?self)" by (simp add: ACTION_ID_PREALLOC_LEN_def)
    ultimately show ?thesis using aid_issued_next J(1) by blast
  qed
qed

lemma generate_all_aid:
  "generate_all aid_generate rnds self = map MIDGenerator_action_id (generate_all AIDGenerator_generate rnds self)"
  by (induction rnds arbitrary: self) (auto simp: aid_generate_def split: prod.splits)

lemma aid_issued_new: "aid_issued {} (AIDGenerator_new rnd)"
proof -
  have "block_issued (2 ^ 40) {} 0 2048 (replicate 2048 0)"
    by (auto simp: block_issued_def intro!: exI [of _ "0 :: nat"])
  then have "block_issued (2 ^ 40) {} 2048 0 (fisher_shuffle 0 rnd (store_range (word_range 0 2048) (replicate 2048 0)))"
    using block_refill [of "2 ^ 40" "{}" 0 2048 "replicate 2048 0"
        "fisher_shuffle 0 rnd (store_range (word_range 0 2048) (replicate 2048 0))"]
    by (simp add: mset_fisher_shuffle)
  then show ?thesis
    by (simp add: aid_issued_def AIDGenerator_new_def generate_aids_def max_ids ACTION_ID_PREALLOC_LEN_def Let_def)
qed

lemma mid_issued_new: "mid_issued {} (MIDGenerator_new (push_bit 24 b))"
  by (auto simp: mid_issued_def MIDGenerator_new_def block_issued_def MESSAGE_ID_PREALLOC_LEN_def
      intro!: exI [of _ b] exI [of _ "{}"] exI [of _ "0 :: nat"])

text \<open>Every id a generator returns belongs to its action.\<close>

lemma mid_generate_all_action:
  "mid_issued I self \<Longrightarrow> card I + length rnds \<le> 2 ^ 24 \<Longrightarrow> t \<in> set (generate_all MIDGenerator_generate rnds self) \<Longrightarrow>
   TransactionID_action_id t = MIDGenerator_action_id self"
proof (induction rnds arbitrary: I self)
  case (Cons rnd rnds)
  obtain x self' where gen: "MIDGenerator_generate rnd self = (x, self')" by (cases "MIDGenerator_generate rnd self")
  have "card I < 2 ^ 24" using Cons.prems(2) by simp
  with Cons.prems(1) obtain s where s: "mid_issued I s" "mid_curr_index s < length (message_ids s)"
    "mid_action_id s = mid_action_id self" "MIDGenerator_generate rnd self = MIDGenerator_generate rnd s"
    by (rule mid_issued_ready [where rnd = rnd])
  have x: "x \<notin> I" "mid_issued (insert x I) self'" "TransactionID_action_id x = MIDGenerator_action_id self"
    "MIDGenerator_action_id self' = MIDGenerator_action_id self"
    using mid_issued_next [OF s(1,2), of rnd x self'] gen s(3,4) by (simp_all add: MIDGenerator_action_id_def)
  have "card (insert x I) + length rnds \<le> 2 ^ 24"
    using Cons.prems(2) x(1) mids.issued_finite [OF Cons.prems(1)] by simp
  with Cons.IH [OF x(2)] Cons.prems(3) gen x(3,4) show ?case by auto
qed simp

section \<open>Properties\<close>

text \<open>
  C28. The transaction ids of one action are distinct for as many messages as an id of three bytes
  can number, and all carry the id of the action; the ids of the actions are distinct for as
  many actions as five bytes can number. Both hold whatever the shuffles draw.
\<close>

theorem dht_transaction_ids_unique:
  "(length rnds \<le> 2 ^ 24 \<longrightarrow>
      distinct (generate_all MIDGenerator_generate rnds (MIDGenerator_new (push_bit 24 b))) \<and>
      (\<forall>t \<in> set (generate_all MIDGenerator_generate rnds (MIDGenerator_new (push_bit 24 b))).
        TransactionID_action_id t = MIDGenerator_action_id (MIDGenerator_new (push_bit 24 b)))) \<and>
   (length rnds' \<le> 2 ^ 40 \<longrightarrow>
      distinct (map MIDGenerator_action_id (generate_all AIDGenerator_generate rnds' (AIDGenerator_new rnd))))"
  using mids.generate_all_distinct [OF mid_issued_new, of rnds b] mid_generate_all_action [OF mid_issued_new, of rnds _ b]
    aids.generate_all_distinct [OF aid_issued_new, of rnds' rnd]
  by (auto simp: generate_all_aid)

theorem dht_transaction_ids_unique_witness:
  "distinct (generate_all MIDGenerator_generate (replicate 5000 (\<lambda>i. of_nat i)) (MIDGenerator_new (push_bit 24 9)))"
  using dht_transaction_ids_unique [of "replicate 5000 (\<lambda>i. of_nat i)" 9 "[]"] by simp

text \<open>
  C36. The bytes sent for a transaction id are read back as the same id, every eight bytes are the
  bytes of the id they are read as, and any other number of bytes is refused.
\<close>

theorem transaction_id_roundtrip:
  "TransactionID_from_bytes (trans_id_bytes (TransactionID_new t)) = Some (TransactionID_new t) \<and>
   (length bs = 8 \<longrightarrow> map_option trans_id_bytes (TransactionID_from_bytes bs) = Some bs) \<and>
   (length bs \<noteq> 8 \<longrightarrow> TransactionID_from_bytes bs = None)"
  using be_word_arrays(1) [of t] arrays_be_word(1) [of bs]
  by (simp add: TransactionID_from_bytes_def TransactionID_new_def id_consts be_word_def)

theorem transaction_id_roundtrip_witness:
  "map_option trans_id_bytes (TransactionID_from_bytes [1, 2, 3, 4, 5, 6, 7, 8]) = Some [1, 2, 3, 4, 5, 6, 7, 8]"
  using transaction_id_roundtrip [of 0 "[1, 2, 3, 4, 5, 6, 7, 8]"] by simp

end
