(* ===== verification/Dht_Compact.thy ===== *)
theory Dht_Compact
  imports Dht_Node
begin

text \<open>
  \<open>bip_dht/src/message/compact_info.rs\<close>: lists of nodes and of contacts as bytes. A bencoded
  value is of a type \<open>'v\<close> of the bencode library, of which only the access \<open>bytes_of\<close> to a
  byte string is used.
\<close>

section \<open>Contacts\<close>

definition BYTES_PER_COMPACT_IP :: nat where "BYTES_PER_COMPACT_IP = 6"
definition BYTES_PER_COMPACT_NODE_INFO :: nat where "BYTES_PER_COMPACT_NODE_INFO = 26"

definition socket_v4_from_bytes_be :: "bytes \<Rightarrow> (SocketAddrV4, LengthError) res" where
  "socket_v4_from_bytes_be bytes =
     (if length bytes \<noteq> BYTES_PER_COMPACT_IP then Err (LengthError_new LengthExpected BYTES_PER_COMPACT_IP)
      else (let port = 0 :: u16;
                port = port OR ucast (bytes ! 4);
                port = push_bit 8 port;
                port = port OR ucast (bytes ! 5);
                ip = Ipv4Addr (bytes ! 0) (bytes ! 1) (bytes ! 2) (bytes ! 3)
            in Ok \<lparr>v4_ip = ip, v4_port = port\<rparr>))"

definition parts_from_compact_info :: "bytes \<Rightarrow> (ShaHash \<times> SocketAddrV4, unit) res" where
  "parts_from_compact_info compact_info =
     try_res (slice compact_info 0 NODE_ID_LEN) (\<lambda>hash.
     try_res (unwrap_res (ShaHash_from_hash hash)) (\<lambda>node_id.
       (let compact_ip_offset = NODE_ID_LEN + BYTES_PER_COMPACT_IP
        in try_res (slice compact_info NODE_ID_LEN compact_ip_offset) (\<lambda>sock.
           try_res (unwrap_res (socket_v4_from_bytes_be sock)) (\<lambda>socket. Ok (node_id, socket))))))"

section \<open>Lists of nodes\<close>

type_synonym CompactNodeInfo = bytes

definition CompactNodeInfo_new :: "bytes \<Rightarrow> (CompactNodeInfo, LengthError) res" where
  "CompactNodeInfo_new nodes =
     (if length nodes mod BYTES_PER_COMPACT_NODE_INFO \<noteq> 0
      then Err (LengthError_new LengthMultipleExpected BYTES_PER_COMPACT_NODE_INFO) else Ok nodes)"

record CompactNodeInfoIter =
  cni_nodes :: bytes
  cni_pos :: nat

definition CompactNodeInfo_into_iter :: "CompactNodeInfo \<Rightarrow> CompactNodeInfoIter" where
  "CompactNodeInfo_into_iter self = \<lparr>cni_nodes = self, cni_pos = 0\<rparr>"

definition CompactNodeInfoIter_next ::
  "CompactNodeInfoIter \<Rightarrow> ((ShaHash \<times> SocketAddrV4) option \<times> CompactNodeInfoIter, unit) res" where
  "CompactNodeInfoIter_next self =
     (if cni_pos self = length (cni_nodes self) then Ok (None, self)
      else (let compact_info_offset = cni_pos self + BYTES_PER_COMPACT_NODE_INFO
            in try_res (slice (cni_nodes self) (cni_pos self) compact_info_offset) (\<lambda>compact_info.
               try_res (parts_from_compact_info compact_info) (\<lambda>parts.
                 Ok (Some parts, self\<lparr>cni_pos := cni_pos self + BYTES_PER_COMPACT_NODE_INFO\<rparr>)))))"

text \<open>All items of the iterator.\<close>

function compact_nodes :: "CompactNodeInfoIter \<Rightarrow> ((ShaHash \<times> SocketAddrV4) list, unit) res" where
  "compact_nodes it =
     try_res (CompactNodeInfoIter_next it) (\<lambda>(item, it').
       case item of None \<Rightarrow> Ok [] | Some x \<Rightarrow> try_res (compact_nodes it') (\<lambda>xs. Ok (x # xs)))"
  by pat_completeness auto

termination compact_nodes
  by (relation "measure (\<lambda>it. length (cni_nodes it) - cni_pos it)")
    (auto simp: CompactNodeInfoIter_next_def BYTES_PER_COMPACT_NODE_INFO_def Let_def res_simps split: if_splits)

declare compact_nodes.simps [simp del]

section \<open>Lists of contacts\<close>

type_synonym 'v CompactValueInfo = "'v list"

fun check_values :: "('v \<Rightarrow> bytes option) \<Rightarrow> nat \<Rightarrow> 'v list \<Rightarrow> (unit, LengthError) res" where
  "check_values bytes_of index [] = Ok ()"
| "check_values bytes_of index (node # values) =
     try_res (unwrap (bytes_of node)) (\<lambda>compact_value.
       if length compact_value \<noteq> BYTES_PER_COMPACT_IP
       then Err (LengthError_with_index LengthExpected BYTES_PER_COMPACT_IP index)
       else check_values bytes_of (index + 1) values)"

definition CompactValueInfo_new :: "('v \<Rightarrow> bytes option) \<Rightarrow> 'v list \<Rightarrow> ('v CompactValueInfo, LengthError) res" where
  "CompactValueInfo_new bytes_of values = try_res (check_values bytes_of 0 values) (\<lambda>_. Ok values)"

record 'v CompactValueInfoIter =
  cvi_values :: "'v list"
  cvi_pos :: nat

definition CompactValueInfo_into_iter :: "'v CompactValueInfo \<Rightarrow> 'v CompactValueInfoIter" where
  "CompactValueInfo_into_iter self = \<lparr>cvi_values = self, cvi_pos = 0\<rparr>"

definition CompactValueInfoIter_next ::
  "('v \<Rightarrow> bytes option) \<Rightarrow> 'v CompactValueInfoIter \<Rightarrow> (SocketAddrV4 option \<times> 'v CompactValueInfoIter, unit) res" where
  "CompactValueInfoIter_next bytes_of self =
     (if cvi_pos self = length (cvi_values self) then Ok (None, self)
      else try_res (unwrap (get_at (cvi_values self) (cvi_pos self))) (\<lambda>compact_info.
           try_res (unwrap (bytes_of compact_info)) (\<lambda>bytes.
           try_res (unwrap_res (socket_v4_from_bytes_be bytes)) (\<lambda>socket.
             Ok (Some socket, self\<lparr>cvi_pos := cvi_pos self + 1\<rparr>)))))"

function compact_values :: "('v \<Rightarrow> bytes option) \<Rightarrow> 'v CompactValueInfoIter \<Rightarrow> (SocketAddrV4 list, unit) res" where
  "compact_values bytes_of it =
     try_res (CompactValueInfoIter_next bytes_of it) (\<lambda>(item, it').
       case item of None \<Rightarrow> Ok [] | Some x \<Rightarrow> try_res (compact_values bytes_of it') (\<lambda>xs. Ok (x # xs)))"
  by pat_completeness auto

termination compact_values
  by (relation "measure (\<lambda>(b, it). length (cvi_values it) - cvi_pos it)")
    (auto simp: CompactValueInfoIter_next_def res_simps unwrap_def split: if_splits option.splits)

declare compact_values.simps [simp del]

section \<open>Reading back what was written\<close>

lemma socket_v4_from_bytes: "length bs = 6 \<Longrightarrow> socket_v4_from_bytes_be bs = Ok (bytes_be_to_sock_v4 bs)"
  by (simp add: socket_v4_from_bytes_be_def BYTES_PER_COMPACT_IP_def bytes_be_to_sock_v4_def bytes_be_to_ipv4_def
      bytes_be_to_port_def Let_def)

lemma parts_from_compact:
  assumes "length bs = 26"
  shows "parts_from_compact_info bs = Ok (take 20 bs, bytes_be_to_sock_v4 (drop 20 bs))"
proof -
  have "slice bs 0 20 = Ok (take 20 bs)" "slice bs 20 26 = Ok (drop 20 bs)" for bs' :: bytes
    using assms by (simp_all add: slice_def sub_list_def)
  with assms show ?thesis
    by (simp add: parts_from_compact_info_def NODE_ID_LEN_def SHA_HASH_LEN_def BYTES_PER_COMPACT_IP_def Let_def
        from_hash_eq sha_ok_def socket_v4_from_bytes slice_def sub_list_def)
qed

lemma Node_encode_v4:
  assumes "sha_ok (nd_id n)" "nd_addr n = SockV4 s"
  shows "Node_encode n = Ok (nd_id n @ sock_v4_to_bytes_be s)"
proof -
  obtain a b c d where ip: "v4_ip s = Ipv4Addr a b c d" by (cases "v4_ip s")
  have "copy_into (nd_id n @ [a, b, c, d]) (replicate 26 0) = nd_id n @ [a, b, c, d, 0, 0]"
    using assms(1) by (simp add: copy_into_prefix sha_ok_def SHA_HASH_LEN_def drop_replicate) (simp add: numeral_eq_Suc)
  with assms ip show ?thesis
    by (simp add: Node_encode_def sock_v4_bytes port_to_bytes_be_def byte_shift_0 sha_ok_def SHA_HASH_LEN_def
        list_update_append Let_def)
qed

text \<open>One step of the iterator, in the middle of the bytes.\<close>

lemma compact_nodes_at:
  assumes "length ns = 26"
  shows "compact_nodes \<lparr>cni_nodes = done' @ ns @ rest, cni_pos = length done'\<rparr> =
    try_res (compact_nodes \<lparr>cni_nodes = (done' @ ns) @ rest, cni_pos = length (done' @ ns)\<rparr>)
      (\<lambda>xs. Ok ((take 20 ns, bytes_be_to_sock_v4 (drop 20 ns)) # xs))"
proof -
  have "slice (done' @ ns @ rest) (length done') (length done' + 26) = Ok ns" for e :: unit
    using assms by (simp add: slice_def sub_list_def)
  with assms parts_from_compact [OF assms] show ?thesis
    by (subst compact_nodes.simps)
      (simp add: CompactNodeInfoIter_next_def BYTES_PER_COMPACT_NODE_INFO_def Let_def slice_def sub_list_def)
qed

lemma compact_nodes_chunks:
  "\<forall>c \<in> set cs. length c = 26 \<Longrightarrow>
   compact_nodes \<lparr>cni_nodes = done' @ concat cs, cni_pos = length done'\<rparr> =
     Ok (map (\<lambda>c. (take 20 c, bytes_be_to_sock_v4 (drop 20 c))) cs)"
proof (induction cs arbitrary: done')
  case Nil
  then show ?case by (subst compact_nodes.simps) (simp add: CompactNodeInfoIter_next_def)
next
  case (Cons c cs)
  then show ?case using compact_nodes_at [of c done' "concat cs"] Cons.IH [of "done' @ c"] by simp
qed

lemma length_concat_const: "\<forall>c \<in> set cs. length c = k \<Longrightarrow> length (concat cs) = k * length cs"
  by (induction cs) auto

text \<open>Bytes whose number is a multiple of 26 are chunks of 26.\<close>

lemma chunks_exist: "length bs = 26 * n \<Longrightarrow> \<exists>cs. bs = concat cs \<and> length cs = n \<and> (\<forall>c \<in> set cs. length c = (26 :: nat))"
proof (induction n arbitrary: bs)
  case (Suc n)
  obtain cs where cs: "drop 26 bs = concat cs" "length cs = n" "\<forall>c \<in> set cs. length c = 26"
    using Suc.IH [of "drop 26 bs"] Suc.prems by auto
  then have "bs = concat (take 26 bs # cs)" "length (take 26 bs) = 26" using Suc.prems by (simp_all flip: cs(1))
  with cs show ?case by (intro exI [of _ "take 26 bs # cs"]) auto
qed auto

lemma check_values_bytes:
  assumes "\<forall>v \<in> set vs. bytes_of v \<noteq> None"
  shows "check_values bytes_of i vs =
    (case position (\<lambda>v. length (the (bytes_of v)) \<noteq> 6) vs of
       None \<Rightarrow> Ok () | Some j \<Rightarrow> Err (LengthError_with_index LengthExpected 6 (i + j)))"
  using assms
proof (induction vs arbitrary: i)
  case (Cons v vs)
  then obtain b where "bytes_of v = Some b" by auto
  with Cons show ?case
    by (cases "position (\<lambda>v. length (the (bytes_of v)) \<noteq> 6) vs") (auto simp: BYTES_PER_COMPACT_IP_def)
qed simp

lemma compact_values_from:
  "\<forall>v \<in> set vs. \<exists>b. bytes_of v = Some b \<and> length b = 6 \<Longrightarrow>
   compact_values bytes_of \<lparr>cvi_values = us @ vs, cvi_pos = length us\<rparr> =
     Ok (map (\<lambda>v. bytes_be_to_sock_v4 (the (bytes_of v))) vs)"
proof (induction vs arbitrary: us)
  case Nil
  then show ?case by (subst compact_values.simps) (simp add: CompactValueInfoIter_next_def)
next
  case (Cons v vs)
  then obtain b where "bytes_of v = Some b" "length b = 6" by auto
  then show ?case
    using Cons.IH [of "us @ [v]"] Cons.prems
    by (subst compact_values.simps)
      (simp add: CompactValueInfoIter_next_def get_at_def nth_append socket_v4_from_bytes)
qed

section \<open>Properties\<close>

text \<open>
  C32. The encodings of nodes with version 4 addresses, one after the other, are accepted as a
  list of nodes, and iterating over it gives back the id and the address of every node in
  order.
\<close>

theorem compact_nodes_roundtrip:
  assumes "\<forall>n \<in> set ns. sha_ok (nd_id n) \<and> (\<exists>s. nd_addr n = SockV4 s)"
    and "encs = map Node_encode ns"
  shows "\<exists>bss. encs = map Ok bss \<and> CompactNodeInfo_new (concat bss) = Ok (concat bss) \<and>
    compact_nodes (CompactNodeInfo_into_iter (concat bss)) =
      Ok (map (\<lambda>n. (nd_id n, case nd_addr n of SockV4 s \<Rightarrow> s)) ns)"
proof (intro exI conjI)
  let ?sock = "\<lambda>n. case nd_addr n of SockV4 s \<Rightarrow> s"
  let ?bss = "map (\<lambda>n. nd_id n @ sock_v4_to_bytes_be (?sock n)) ns"
  have len6: "length (sock_v4_to_bytes_be s) = 6" for s
    by (cases "v4_ip s") (simp add: sock_v4_bytes)
  have len: "\<forall>c \<in> set ?bss. length c = 26" using assms(1) len6 by (auto simp: sha_ok_def SHA_HASH_LEN_def)
  show "encs = map Ok ?bss" using assms Node_encode_v4 by (fastforce split: SocketAddr.splits)
  have "length (concat ?bss) = 26 * length ?bss" using length_concat_const [OF len] .
  then show "CompactNodeInfo_new (concat ?bss) = Ok (concat ?bss)"
    by (simp add: CompactNodeInfo_new_def BYTES_PER_COMPACT_NODE_INFO_def)
  have "compact_nodes (CompactNodeInfo_into_iter (concat ?bss)) =
      Ok (map (\<lambda>c. (take 20 c, bytes_be_to_sock_v4 (drop 20 c))) ?bss)"
    using compact_nodes_chunks [OF len, of "[]"] by (simp add: CompactNodeInfo_into_iter_def)
  also have "map (\<lambda>c. (take 20 c, bytes_be_to_sock_v4 (drop 20 c))) ?bss = map (\<lambda>n. (nd_id n, ?sock n)) ns"
    using assms(1) by (auto simp: sha_ok_def SHA_HASH_LEN_def sock_v4_roundtrip)
  finally show "compact_nodes (CompactNodeInfo_into_iter (concat ?bss)) = Ok (map (\<lambda>n. (nd_id n, ?sock n)) ns)" .
qed

theorem compact_nodes_roundtrip_witness:
  "\<exists>bs. Node_encode (Node_as_good 0 (replicate 20 3) default_route_v4) = Ok bs \<and>
     compact_nodes (CompactNodeInfo_into_iter bs) =
       Ok [(replicate 20 3, \<lparr>v4_ip = Ipv4Addr 0 0 0 0, v4_port = 0\<rparr>)]"
  using compact_nodes_roundtrip [of "[Node_as_good 0 (replicate 20 3) default_route_v4]", OF _ refl]
  by (auto simp: Node_as_good_def default_route_v4_def sha_ok_def SHA_HASH_LEN_def)

text \<open>
  A list of nodes or contacts that was accepted is read to the end without a panic: of bytes
  in number a multiple of 26, every 26 give one node; of byte strings, all must be six bytes
  long and the first that is not is reported, and each gives one contact, whose bytes it is.
\<close>

theorem compact_info_total:
  "(case CompactNodeInfo_new bs of
      Ok info \<Rightarrow> \<exists>xs. compact_nodes (CompactNodeInfo_into_iter info) = Ok xs \<and> 26 * length xs = length bs
    | Err e \<Rightarrow> length bs mod 26 \<noteq> 0
    | Panic \<Rightarrow> False) \<and>
   ((\<forall>v \<in> set vs. bytes_of v \<noteq> None) \<longrightarrow>
     (case CompactValueInfo_new bytes_of vs of
        Ok info \<Rightarrow> \<exists>xs. compact_values bytes_of (CompactValueInfo_into_iter info) = Ok xs \<and>
          map (Some \<circ> sock_v4_to_bytes_be) xs = map bytes_of vs
      | Err e \<Rightarrow> \<exists>i < length vs. length (the (bytes_of (vs ! i))) \<noteq> 6 \<and> (\<forall>j < i. length (the (bytes_of (vs ! j))) = 6) \<and>
          e = LengthError_with_index LengthExpected 6 i
      | Panic \<Rightarrow> False))"
proof (intro conjI impI)
  show "case CompactNodeInfo_new bs of
      Ok info \<Rightarrow> \<exists>xs. compact_nodes (CompactNodeInfo_into_iter info) = Ok xs \<and> 26 * length xs = length bs
    | Err e \<Rightarrow> length bs mod 26 \<noteq> 0 | Panic \<Rightarrow> False"
  proof (cases "length bs mod 26 = 0")
    case True
    then obtain n where "length bs = 26 * n" by auto
    then obtain cs where cs: "bs = concat cs" "length cs = n" "\<forall>c \<in> set cs. length c = 26" using chunks_exist by blast
    with compact_nodes_chunks [OF cs(3), of "[]"] \<open>length bs = 26 * n\<close> show ?thesis
      by (auto simp: CompactNodeInfo_new_def BYTES_PER_COMPACT_NODE_INFO_def CompactNodeInfo_into_iter_def)
  qed (simp add: CompactNodeInfo_new_def BYTES_PER_COMPACT_NODE_INFO_def)
next
  assume bytes: "\<forall>v \<in> set vs. bytes_of v \<noteq> None"
  show "case CompactValueInfo_new bytes_of vs of
        Ok info \<Rightarrow> \<exists>xs. compact_values bytes_of (CompactValueInfo_into_iter info) = Ok xs \<and>
          map (Some \<circ> sock_v4_to_bytes_be) xs = map bytes_of vs
      | Err e \<Rightarrow> \<exists>i < length vs. length (the (bytes_of (vs ! i))) \<noteq> 6 \<and> (\<forall>j < i. length (the (bytes_of (vs ! j))) = 6) \<and>
          e = LengthError_with_index LengthExpected 6 i
      | Panic \<Rightarrow> False"
  proof (cases "position (\<lambda>v. length (the (bytes_of v)) \<noteq> 6) vs")
    case None
    then have six: "\<forall>v \<in> set vs. \<exists>b. bytes_of v = Some b \<and> length b = 6" using bytes by (force simp: position_None)
    then have "map (Some \<circ> sock_v4_to_bytes_be) (map (\<lambda>v. bytes_be_to_sock_v4 (the (bytes_of v))) vs) = map bytes_of vs"
      by (auto simp: sock_v4_roundtrip_bytes)
    with None six compact_values_from [OF six, of "[]"] check_values_bytes [OF bytes, of 0] show ?thesis
      by (simp add: CompactValueInfo_new_def CompactValueInfo_into_iter_def)
  next
    case (Some i)
    with check_values_bytes [OF bytes, of 0] show ?thesis
      by (auto simp: CompactValueInfo_new_def position_Some)
  qed
qed

theorem compact_info_total_witness:
  "\<exists>xs. compact_values Some (CompactValueInfo_into_iter [[127, 0, 0, 1, 26, 225]]) = Ok xs \<and>
     map (Some \<circ> sock_v4_to_bytes_be) xs = [Some [127, 0, 0, 1, 26, 225]]"
  using compact_info_total [of "[]" "[[127, 0, 0, 1, 26, 225]]" Some]
  by (simp add: CompactValueInfo_new_def BYTES_PER_COMPACT_IP_def)

end
