(* ===== verification/Dht_Security.thy ===== *)
theory Dht_Security
  imports Sha Convert
begin

text \<open>
  \<open>bip_dht/src/security.rs\<close>: node ids that are tied to an address. The checksum
  \<open>crc32::checksum_castagnoli\<close> is the parameter \<open>crc\<close>; \<open>rnd i\<close> is the \<open>i\<close>-th byte drawn as filler.
\<close>

section \<open>Generating an id\<close>

definition IPV4_MASK :: u32 where "IPV4_MASK = 0x030F3FFF"
definition CRC32C_ARG_SLICE_SIZE :: nat where "CRC32C_ARG_SLICE_SIZE = 8"

text \<open>\<open>Into<u32>\<close> of an address reads its octets big endian.\<close>

definition mask_ipv4_be :: "Ipv4Addr \<Rightarrow> u32" where
  "mask_ipv4_be addr = (let ip_be = be_word (octets addr) in ip_be AND IPV4_MASK)"

definition generate_compliant_id :: "(bytes \<Rightarrow> u32) \<Rightarrow> (nat \<Rightarrow> u8) \<Rightarrow> u64 \<Rightarrow> nat \<Rightarrow> u8 \<Rightarrow> ShaHash" where
  "generate_compliant_id crc rnd masked_ip_be num_octets rand =
     (let r = rand AND 7;
          masked_ip_bytes = eight_bytes_to_array masked_ip_be;
          starting_byte = length masked_ip_bytes - num_octets;
          masked_ip_bytes = masked_ip_bytes[starting_byte := masked_ip_bytes ! starting_byte OR push_bit 5 r];
          crc32c_result = crc (drop starting_byte masked_ip_bytes);
          node_id = replicate NODE_ID_LEN 0;
          node_id = node_id[0 := byte_shift 24 crc32c_result];
          node_id = node_id[1 := byte_shift 16 crc32c_result];
          node_id = node_id[2 := ucast (drop_bit 8 crc32c_result AND 0xF8) OR (rnd 0 AND 7)];
          node_id = fold (\<lambda>i node_id. node_id[i := rnd (i - 2)]) [3..<19] node_id
      in node_id[19 := rand])"

definition generate_compliant_id_ipv4 :: "(bytes \<Rightarrow> u32) \<Rightarrow> u8 \<Rightarrow> (nat \<Rightarrow> u8) \<Rightarrow> Ipv4Addr \<Rightarrow> ShaHash" where
  "generate_compliant_id_ipv4 crc rand rnd addr =
     (let masked_ipv4_be = mask_ipv4_be addr in generate_compliant_id crc rnd (ucast masked_ipv4_be) 4 rand)"

section \<open>Checking an id\<close>

definition is_security_compliant_ipv4_exempt :: "Ipv4Addr \<Rightarrow> bool" where
  "is_security_compliant_ipv4_exempt addr = False"

definition is_compliant_id :: "u32 \<Rightarrow> bytes \<Rightarrow> bool" where
  "is_compliant_id crc32c_result id_bytes =
     (let is_compliant = True;
          is_compliant = (is_compliant \<and> id_bytes ! 0 = byte_shift 24 crc32c_result);
          is_compliant = (is_compliant \<and> id_bytes ! 1 = byte_shift 16 crc32c_result);
          mid_id_bits = drop_bit 0 (id_bytes ! 2) AND 0xF8;
          mid_hash_bits = byte_shift 8 crc32c_result AND 0xF8
      in is_compliant \<and> mid_id_bits = mid_hash_bits)"

definition is_compliant_addr :: "(bytes \<Rightarrow> u32) \<Rightarrow> u64 \<Rightarrow> nat \<Rightarrow> ShaHash \<Rightarrow> (bool, unit) res" where
  "is_compliant_addr crc masked_ip_be num_octets id' =
     (if num_octets > CRC32C_ARG_SLICE_SIZE then Panic
      else (let rand = id' ! 19;
                r = rand AND 7;
                ip_bits_used = num_octets * 8;
                rand_masked_ip = masked_ip_be OR push_bit (ip_bits_used - 3) (ucast r);
                rand_masked_ip_bytes = eight_bytes_to_array rand_masked_ip;
                crc32c_result = crc (drop 4 rand_masked_ip_bytes)
            in Ok (is_compliant_id crc32c_result id')))"

definition is_compliant_ipv4_addr :: "(bytes \<Rightarrow> u32) \<Rightarrow> Ipv4Addr \<Rightarrow> ShaHash \<Rightarrow> (bool, unit) res" where
  "is_compliant_ipv4_addr crc addr id' =
     (if is_security_compliant_ipv4_exempt addr then Ok True
      else (let masked_ip_be = ucast (mask_ipv4_be addr) in is_compliant_addr crc masked_ip_be 4 id'))"

section \<open>A generated id is compliant\<close>

text \<open>The masks of the source, bit by bit.\<close>

lemma bit_masks: "bit (7 :: int) n \<longleftrightarrow> n < 3" "bit (0xF8 :: int) n \<longleftrightarrow> 3 \<le> n \<and> n < 8" "bit (0xE0 :: int) n \<longleftrightarrow> 5 \<le> n \<and> n < 8"
proof -
  have masks: "(7 :: int) = mask 3" "(0xF8 :: int) = push_bit 3 (mask 5)" "(0xE0 :: int) = push_bit 5 (mask 3)"
    by (simp_all add: mask_eq_exp_minus_1 push_bit_eq_mult)
  show "bit (7 :: int) n \<longleftrightarrow> n < 3" "bit (0xF8 :: int) n \<longleftrightarrow> 3 \<le> n \<and> n < 8" "bit (0xE0 :: int) n \<longleftrightarrow> 5 \<le> n \<and> n < 8"
    unfolding masks by (auto simp only: bit_mask_iff bit_push_bit_iff possible_bit_int)
qed

lemma rand_masked_bytes:
  fixes m :: u64 and rand :: u8
  shows "drop 4 (eight_bytes_to_array (m OR push_bit 29 (ucast (rand AND 7)))) =
    drop 4 ((eight_bytes_to_array m)[4 := eight_bytes_to_array m ! 4 OR push_bit 5 (rand AND 7)])"
proof -
  have "byte_shift 24 (m OR push_bit 29 (ucast (rand AND 7))) = byte_shift 24 m OR push_bit 5 (rand AND 7)"
    by (rule bit_word_eqI) (auto simp: wire_simps bit_simps bit_masks)
  moreover have "byte_shift k (m OR push_bit 29 (ucast (rand AND 7))) = byte_shift k m" if "k \<le> 16" for k
    using that by (intro bit_word_eqI) (auto simp: wire_simps bit_simps bit_masks)
  ultimately show ?thesis by (simp add: eight_bytes_to_array_def byte_shift_0 [symmetric])
qed

lemma compliant_id_bytes:
  "length (generate_compliant_id crc rnd m 4 rand) = 20 \<and>
   generate_compliant_id crc rnd m 4 rand ! 19 = rand \<and>
   (\<forall>c. c = crc (drop 4 ((eight_bytes_to_array m)[4 := eight_bytes_to_array m ! 4 OR push_bit 5 (rand AND 7)])) \<longrightarrow>
     generate_compliant_id crc rnd m 4 rand ! 0 = byte_shift 24 c \<and>
     generate_compliant_id crc rnd m 4 rand ! 1 = byte_shift 16 c \<and>
     generate_compliant_id crc rnd m 4 rand ! 2 = ucast (drop_bit 8 c AND 0xF8) OR (rnd 0 AND 7))"
proof -
  have "fold (\<lambda>i xs. xs[i := rnd (i - 2)]) [3..<n] xs ! k = xs ! k \<and>
      length (fold (\<lambda>i xs. xs[i := rnd (i - 2)]) [3..<n] xs) = length xs" if "k < 3" for n k and xs :: bytes
    by (induction n) (use that in auto)
  then show ?thesis by (simp add: generate_compliant_id_def Let_def NODE_ID_LEN_def SHA_HASH_LEN_def)
qed

section \<open>Properties\<close>



end
