(* ===== verification/Rust_Path.thy ===== *)
theory Rust_Path
  imports Rust_Std
begin

text \<open>
  The paths of \<open>std::path\<close> on a Unix system, as far as the crates use them. A \<open>Path\<close> is its
  bytes; \<open>iter\<close> gives its components, and two paths are equal when their components are. The
  conversion of a path to a string replaces what is not UTF-8.
\<close>

section \<open>Components\<close>

type_synonym path = bytes

definition SEP :: u8 where "SEP = 47"

definition CUR_DIR :: bytes where "CUR_DIR = [46]"

definition path_absolute :: "path \<Rightarrow> bool" where
  "path_absolute p \<longleftrightarrow> p \<noteq> [] \<and> hd p = SEP"

fun split_sep :: "path \<Rightarrow> bytes list" where
  "split_sep [] = [[]]"
| "split_sep (c # cs) =
     (if c = SEP then [] # split_sep cs
      else case split_sep cs of [] \<Rightarrow> [[c]] | s # ss \<Rightarrow> (c # s) # ss)"

text \<open>
  \<open>Path::iter\<close>: the root, when there is one, and the names between the separators, without
  empty ones and without \<open>.\<close>, except for a \<open>.\<close> that the path starts with.
\<close>

definition path_iter :: "path \<Rightarrow> bytes list" where
  "path_iter p =
     (if path_absolute p then [[SEP]] else if hd (split_sep p) = CUR_DIR then [CUR_DIR] else []) @
     filter (\<lambda>s. s \<noteq> [] \<and> s \<noteq> CUR_DIR) (split_sep p)"

text \<open>\<open>PathBuf::push\<close>: an absolute path replaces what is there.\<close>

definition path_push :: "path \<Rightarrow> path \<Rightarrow> path" where
  "path_push p q =
     (if path_absolute q then q else if p \<noteq> [] \<and> last p \<noteq> SEP then p @ SEP # q else p @ q)"

definition path_join :: "path \<Rightarrow> path \<Rightarrow> path" where
  "path_join p q = path_push p q"

text \<open>A path has a parent when its last component is a name.\<close>

definition path_has_parent :: "path \<Rightarrow> bool" where
  "path_has_parent p \<longleftrightarrow> path_iter p \<noteq> [] \<and> path_iter p \<noteq> [[SEP]]"

section \<open>Facts on components\<close>

lemma split_sep_not_Nil [simp]: "split_sep p \<noteq> []"
  by (induction p) (auto split: list.splits)

lemma split_sep_name: "SEP \<notin> set s \<Longrightarrow> split_sep s = [s]"
  by (induction s) auto

lemma split_sep_join: "split_sep (p @ SEP # q) = split_sep p @ split_sep q"
  by (induction p) (auto split: list.splits)

lemma split_sep_no_sep: "s \<in> set (split_sep p) \<Longrightarrow> SEP \<notin> set s"
proof (induction p arbitrary: s)
  case (Cons c p)
  then show ?case by (cases "split_sep p") (auto split: if_splits)
qed simp

text \<open>A plain name: what may stand between separators as a component.\<close>

definition plain_name :: "bytes \<Rightarrow> bool" where
  "plain_name s \<longleftrightarrow> s \<noteq> [] \<and> s \<noteq> CUR_DIR \<and> SEP \<notin> set s"

lemma plain_name_not_absolute: "plain_name s \<Longrightarrow> \<not> path_absolute s"
  by (cases s) (auto simp: plain_name_def path_absolute_def)

lemma path_iter_plain: "plain_name s \<Longrightarrow> path_iter s = [s]"
  by (simp add: path_iter_def plain_name_not_absolute split_sep_name plain_name_def)

lemma path_absolute_append: "p \<noteq> [] \<Longrightarrow> path_absolute (p @ q) = path_absolute p"
  by (simp add: path_absolute_def)

lemma hd_split_sep_append: "p \<noteq> [] \<Longrightarrow> hd (split_sep (p @ SEP # q)) = hd (split_sep p)"
  by (simp add: split_sep_join)

lemma path_iter_push:
  assumes "plain_name s" "p \<noteq> []"
  shows "path_iter (path_push p s) = path_iter p @ [s]"
proof (cases "last p = SEP")
  case True
  then obtain q where p: "p = q @ [SEP]" using assms(2) by (metis append_butlast_last_id)
  have "split_sep (p @ s) = split_sep q @ [s]" "split_sep p = split_sep q @ [[]]"
    using assms(1) p split_sep_join [of q s] split_sep_join [of q "[]"]
    by (simp_all add: split_sep_name plain_name_def)
  then show ?thesis
    using assms True by (simp add: path_push_def path_iter_def plain_name_not_absolute
        path_absolute_append plain_name_def)
next
  case False
  then show ?thesis
    using assms by (simp add: path_push_def path_iter_def plain_name_not_absolute
        path_absolute_append split_sep_join split_sep_name plain_name_def)
qed

lemma path_iter_push_Nil: "plain_name s \<Longrightarrow> path_iter (path_push [] s) = [s]"
  by (simp add: path_push_def plain_name_not_absolute path_iter_plain)

text \<open>Pushing the components of a path one by one gives a path with the same components.\<close>

definition path_collect :: "bytes list \<Rightarrow> path" where
  "path_collect ss = foldl path_push [] ss"

lemma path_collect_names:
  "\<forall>s \<in> set ss. plain_name s \<Longrightarrow> p \<noteq> [] \<Longrightarrow>
   foldl path_push p ss \<noteq> [] \<and> path_iter (foldl path_push p ss) = path_iter p @ ss"
proof (induction ss arbitrary: p)
  case (Cons s ss)
  have "path_push p s \<noteq> []" using Cons.prems by (auto simp: path_push_def plain_name_def path_absolute_def)
  with Cons show ?case by (simp add: path_iter_push)
qed simp

lemma path_collect_plain: "\<forall>s \<in> set ss. plain_name s \<Longrightarrow> path_iter (path_collect ss) = ss"
proof (cases ss)
  case Nil
  then show ?thesis by (simp add: path_collect_def path_iter_def path_absolute_def CUR_DIR_def)
next
  case (Cons s ss')
  assume plain: "\<forall>s \<in> set ss. plain_name s"
  have "path_push [] s = s" using plain Cons by (simp add: path_push_def plain_name_not_absolute)
  moreover have "s \<noteq> []" using plain Cons by (simp add: plain_name_def)
  ultimately show ?thesis
    using path_collect_names [of ss' s] plain Cons by (simp add: path_collect_def path_iter_plain)
qed

lemma path_iter_names: "s \<in> set (filter (\<lambda>s. s \<noteq> [] \<and> s \<noteq> CUR_DIR) (split_sep p)) \<Longrightarrow> plain_name s"
  using split_sep_no_sep [of s p] by (simp add: plain_name_def)

lemma path_collect_head:
  assumes "path_push [] h = h" "path_iter h = [h]" "h \<noteq> []" "\<forall>s \<in> set ss. plain_name s"
  shows "path_iter (path_collect (h # ss)) = h # ss"
  using path_collect_names [OF assms(4,3)] assms(1,2) by (simp add: path_collect_def)

lemma path_iter_collect: "path_iter (path_collect (path_iter p)) = path_iter p"
proof -
  let ?names = "filter (\<lambda>s. s \<noteq> [] \<and> s \<noteq> CUR_DIR) (split_sep p)"
  have names: "\<forall>s \<in> set ?names. plain_name s" using path_iter_names by blast
  have root: "path_push [] [SEP] = [SEP]" "path_iter [SEP] = [[SEP]]"
    by (simp_all add: path_push_def path_absolute_def path_iter_def CUR_DIR_def)
  have cur: "path_push [] CUR_DIR = CUR_DIR" "path_iter CUR_DIR = [CUR_DIR]" "CUR_DIR \<noteq> []"
    by (simp_all add: path_push_def path_absolute_def path_iter_def CUR_DIR_def SEP_def)
  consider "path_iter p = [SEP] # ?names" | "path_iter p = CUR_DIR # ?names" | "path_iter p = ?names"
    by (cases "path_absolute p"; cases "hd (split_sep p) = CUR_DIR") (simp_all add: path_iter_def)
  then show ?thesis
  proof cases
    case 1
    then show ?thesis using path_collect_head [OF root _ names] by simp
  next
    case 2
    then show ?thesis using path_collect_head [OF cur names] by simp
  next
    case 3
    then show ?thesis using path_collect_plain [OF names] by simp
  qed
qed

section \<open>Conversion to a string\<close>

text \<open>
  \<open>to_string_lossy\<close>: how many bytes at the head of a nonempty string are one character, or,
  where there is none, are what one replacement character stands for.
\<close>

definition next_in :: "nat \<Rightarrow> nat \<Rightarrow> bytes \<Rightarrow> nat \<Rightarrow> bool" where
  "next_in lo hi bs i \<longleftrightarrow> i < length bs \<and> in_range lo hi (bs ! i)"

definition utf8_chunk :: "bytes \<Rightarrow> nat \<times> bool" where
  "utf8_chunk bs =
     (let a = hd bs; cont = next_in 128 191 bs
      in if in_range 0 127 a then (1, True)
         else if in_range 194 223 a then if cont 1 then (2, True) else (1, False)
         else if in_range 224 239 a then
           if \<not> (if unat a = 224 then next_in 160 191 bs 1
                  else if unat a = 237 then next_in 128 159 bs 1 else cont 1) then (1, False)
           else if cont 2 then (3, True) else (2, False)
         else if in_range 240 244 a then
           if \<not> (if unat a = 240 then next_in 144 191 bs 1
                  else if unat a = 244 then next_in 128 143 bs 1 else cont 1) then (1, False)
           else if \<not> cont 2 then (2, False) else if cont 3 then (4, True) else (3, False)
         else (1, False))"

lemma chunk_less: "(n, valid) = utf8_chunk bs \<Longrightarrow> bs \<noteq> [] \<Longrightarrow> length bs - n < length bs"
proof -
  have "0 < fst (utf8_chunk bs)" by (simp add: utf8_chunk_def Let_def)
  moreover assume "(n, valid) = utf8_chunk bs" "bs \<noteq> []"
  ultimately show ?thesis by (cases bs) (auto dest: arg_cong [of _ _ fst])
qed

function to_string_lossy :: "bytes \<Rightarrow> bytes" where
  "to_string_lossy bs =
     (if bs = [] then []
      else case utf8_chunk bs of (n, valid) \<Rightarrow>
        (if valid then take n bs else [239, 191, 189]) @ to_string_lossy (drop n bs))"
  by auto
termination to_string_lossy
  by (relation "measure length") (auto dest: chunk_less)

declare to_string_lossy.simps [simp del]

lemma utf8_chunk_valid:
  assumes "from_utf8 (a # bs)"
  shows "\<exists>n. utf8_chunk (a # bs) = (n, True) \<and> n \<le> length (a # bs) \<and> from_utf8 (drop n (a # bs))"
proof -
  consider "in_range 0 127 a" | "\<not> in_range 0 127 a" "in_range 194 223 a"
    | "\<not> in_range 0 127 a" "\<not> in_range 194 223 a" "in_range 224 239 a"
    | "\<not> in_range 0 127 a" "\<not> in_range 194 223 a" "\<not> in_range 224 239 a" "in_range 240 244 a"
    using assms by (auto simp: from_utf8.simps(2) split: if_splits)
  then show ?thesis
  proof cases
    case 1
    then show ?thesis using assms by (simp add: from_utf8.simps(2) utf8_chunk_def)
  next
    case 2
    with assms obtain b cs where "bs = b # cs" "in_range 128 191 b" "from_utf8 cs"
      by (auto simp: from_utf8.simps(2) split: list.splits)
    then show ?thesis using 2 by (simp add: utf8_chunk_def next_in_def)
  next
    case 3
    with assms obtain b c ds where "bs = b # c # ds" "in_range 128 191 c" "from_utf8 ds"
      "if unat a = 224 then in_range 160 191 b else if unat a = 237 then in_range 128 159 b else in_range 128 191 b"
      by (auto simp: from_utf8.simps(2) split: list.splits)
    then show ?thesis using 3 by (auto simp: utf8_chunk_def next_in_def split: if_splits)
  next
    case 4
    with assms obtain b c d es where "bs = b # c # d # es" "in_range 128 191 c" "in_range 128 191 d" "from_utf8 es"
      "if unat a = 240 then in_range 144 191 b else if unat a = 244 then in_range 128 143 b else in_range 128 191 b"
      by (auto simp: from_utf8.simps(2) split: list.splits)
    then show ?thesis using 4 by (auto simp: utf8_chunk_def next_in_def split: if_splits)
  qed
qed

lemma to_string_lossy_id: "from_utf8 bs \<Longrightarrow> to_string_lossy bs = bs"
proof (induction bs rule: to_string_lossy.induct)
  case (1 bs)
  show ?case
  proof (cases bs)
    case Nil
    then show ?thesis by (simp add: to_string_lossy.simps)
  next
    case (Cons a bs')
    then obtain n where n: "utf8_chunk bs = (n, True)" "from_utf8 (drop n bs)"
      using utf8_chunk_valid [of a bs'] "1.prems" by auto
    have "to_string_lossy (drop n bs) = drop n bs" using 1(1) [of n True] n Cons by simp
    then show ?thesis unfolding to_string_lossy.simps [of bs] using n Cons by simp
  qed
qed

end
