(* ===== verification/Metainfo.thy ===== *)
theory Metainfo
  imports Bencode_Props Rust_Path Sha
begin

text \<open>
  \<open>bip_metainfo/src\<close>: the torrent file, \<open>metainfo.rs\<close>, and how it is read from bencode,
  \<open>parse.rs\<close>, \<open>iter.rs\<close>, \<open>error.rs\<close>. The SHA-1 function is a parameter, as in \<open>Sha\<close>. The
  dictionaries that BEP 3 prescribes are written out as \<open>info_bencode\<close> and
  \<open>metainfo_bencode\<close>; the property is that they are read back exactly.
\<close>

section \<open>error.rs\<close>

text \<open>The errors of I/O and of the directory walker are a parameter.\<close>

datatype 'io ParseError =
    ParseIo 'io
  | ParseDir 'io
  | ParseBencodeConvert BencodeConvertErrorKind
  | ParseBencodeParse BencodeParseErrorKind
  | MissingData string

section \<open>Metainfo, Info, File\<close>

record File =
  fl_len :: u64
  fl_path :: path
  fl_md5sum :: "bytes option"

record Info =
  inf_hash :: ShaHash
  inf_files :: "File list"
  inf_pieces :: "ShaHash list"
  inf_piece_len :: u64
  inf_private :: "bool option"
  inf_dir :: "path option"

record Metainfo =
  mi_comment :: "bytes option"
  mi_announce :: "bytes option"
  mi_announce_list :: "bytes list list option"
  mi_encoding :: "bytes option"
  mi_created_by :: "bytes option"
  mi_creation_date :: "i64 option"
  mi_info :: Info

definition Metainfo_from_info :: "Info \<Rightarrow> Metainfo" where
  "Metainfo_from_info info =
     \<lparr>mi_comment = None, mi_announce = None, mi_announce_list = None, mi_encoding = None,
      mi_created_by = None, mi_creation_date = None, mi_info = info\<rparr>"

text \<open>The iterators \<open>Files\<close> and \<open>Pieces\<close> over a slice.\<close>

record 'a SliceIter =
  it_index :: nat
  it_items :: "'a list"

definition Files_new :: "File list \<Rightarrow> File SliceIter" where
  "Files_new files = \<lparr>it_index = 0, it_items = files\<rparr>"

definition Pieces_new :: "ShaHash list \<Rightarrow> ShaHash SliceIter" where
  "Pieces_new pieces = \<lparr>it_index = 0, it_items = pieces\<rparr>"

definition Files_next :: "File SliceIter \<Rightarrow> File option \<times> File SliceIter" where
  "Files_next self =
     (case get_at (it_items self) (it_index self) of
        Some file \<Rightarrow> (Some file, self\<lparr>it_index := it_index self + 1\<rparr>)
      | None \<Rightarrow> (None, self))"

definition Pieces_next :: "ShaHash SliceIter \<Rightarrow> ShaHash option \<times> ShaHash SliceIter" where
  "Pieces_next self =
     (case get_at (it_items self) (it_index self) of
        Some hash \<Rightarrow> (Some hash, self\<lparr>it_index := it_index self + 1\<rparr>)
      | None \<Rightarrow> (None, self))"

section \<open>parse.rs\<close>

definition ROOT_ERROR_KEY :: bytes where "ROOT_ERROR_KEY = ascii ''root''"
definition ANNOUNCE_LIST_KEY :: bytes where "ANNOUNCE_LIST_KEY = ascii ''announce-list''"
definition ANNOUNCE_URL_KEY :: bytes where "ANNOUNCE_URL_KEY = ascii ''announce''"
definition CREATION_DATE_KEY :: bytes where "CREATION_DATE_KEY = ascii ''creation date''"
definition COMMENT_KEY :: bytes where "COMMENT_KEY = ascii ''comment''"
definition CREATED_BY_KEY :: bytes where "CREATED_BY_KEY = ascii ''created by''"
definition ENCODING_KEY :: bytes where "ENCODING_KEY = ascii ''encoding''"
definition INFO_KEY :: bytes where "INFO_KEY = ascii ''info''"
definition PIECE_LENGTH_KEY :: bytes where "PIECE_LENGTH_KEY = ascii ''piece length''"
definition PIECES_KEY :: bytes where "PIECES_KEY = ascii ''pieces''"
definition PRIVATE_KEY :: bytes where "PRIVATE_KEY = ascii ''private''"
definition NAME_KEY :: bytes where "NAME_KEY = ascii ''name''"
definition FILES_KEY :: bytes where "FILES_KEY = ascii ''files''"
definition LENGTH_KEY :: bytes where "LENGTH_KEY = ascii ''length''"
definition MD5SUM_KEY :: bytes where "MD5SUM_KEY = ascii ''md5sum''"
definition PATH_KEY :: bytes where "PATH_KEY = ascii ''path''"

lemmas key_defs = ANNOUNCE_LIST_KEY_def ANNOUNCE_URL_KEY_def CREATION_DATE_KEY_def COMMENT_KEY_def
  CREATED_BY_KEY_def ENCODING_KEY_def INFO_KEY_def PIECE_LENGTH_KEY_def PIECES_KEY_def
  PRIVATE_KEY_def NAME_KEY_def FILES_KEY_def LENGTH_KEY_def MD5SUM_KEY_def PATH_KEY_def

type_synonym dict = "(bytes, BencodeRef) btree_map"

text \<open>\<open>MetainfoConverter::handle_error\<close> wraps the error of the conversion.\<close>

definition handle_error :: "BencodeConvertErrorKind \<Rightarrow> 'io ParseError" where
  "handle_error e = ParseBencodeConvert e"

text \<open>Where the caller drops the error with \<open>ok()\<close>.\<close>

abbreviation dropped_error :: "BencodeConvertErrorKind \<Rightarrow> unit ParseError" where
  "dropped_error \<equiv> handle_error"

definition parse_root_dict :: "BencodeRef \<Rightarrow> (dict, 'io ParseError) res" where
  "parse_root_dict root_bencode = convert_dict handle_error root_bencode ROOT_ERROR_KEY"

definition parse_announce_list :: "dict \<Rightarrow> BencodeRef list option" where
  "parse_announce_list root_dict =
     res_ok (lookup_and_convert_list dropped_error root_dict ANNOUNCE_LIST_KEY)"

definition convert_announce_list :: "BencodeRef list \<Rightarrow> bytes list list" where
  "convert_announce_list list = map (List.map_filter ref_str) (List.map_filter ref_list list)"

definition parse_announce_url :: "dict \<Rightarrow> bytes option" where
  "parse_announce_url root_dict = res_ok (lookup_and_convert_str dropped_error root_dict ANNOUNCE_URL_KEY)"

definition parse_creation_date :: "dict \<Rightarrow> i64 option" where
  "parse_creation_date root_dict = res_ok (lookup_and_convert_int dropped_error root_dict CREATION_DATE_KEY)"

definition parse_comment :: "dict \<Rightarrow> bytes option" where
  "parse_comment root_dict = res_ok (lookup_and_convert_str dropped_error root_dict COMMENT_KEY)"

definition parse_created_by :: "dict \<Rightarrow> bytes option" where
  "parse_created_by root_dict = res_ok (lookup_and_convert_str dropped_error root_dict CREATED_BY_KEY)"

definition parse_encoding :: "dict \<Rightarrow> bytes option" where
  "parse_encoding root_dict = res_ok (lookup_and_convert_str dropped_error root_dict ENCODING_KEY)"

definition parse_info_bencode :: "dict \<Rightarrow> (BencodeRef, 'io ParseError) res" where
  "parse_info_bencode root_dict = convert_lookup handle_error root_dict INFO_KEY"

text \<open>The cast \<open>len as u64\<close> keeps the word: a negative length becomes a large one.\<close>

definition parse_piece_length :: "dict \<Rightarrow> (u64, 'io ParseError) res" where
  "parse_piece_length info_dict =
     try_res (lookup_and_convert_int handle_error info_dict PIECE_LENGTH_KEY) (\<lambda>len. Ok len)"

definition parse_pieces :: "dict \<Rightarrow> (bytes, 'io ParseError) res" where
  "parse_pieces info_dict = lookup_and_convert_bytes handle_error info_dict PIECES_KEY"

definition parse_private :: "dict \<Rightarrow> bool option" where
  "parse_private info_dict =
     map_option (\<lambda>p. p = 1) (res_ok (lookup_and_convert_int dropped_error info_dict PRIVATE_KEY))"

definition parse_name :: "dict \<Rightarrow> (bytes, 'io ParseError) res" where
  "parse_name info_dict = lookup_and_convert_str handle_error info_dict NAME_KEY"

definition parse_files_list :: "dict \<Rightarrow> (BencodeRef list, 'io ParseError) res" where
  "parse_files_list info_dict = lookup_and_convert_list handle_error info_dict FILES_KEY"

definition parse_file_dict :: "BencodeRef \<Rightarrow> (dict, 'io ParseError) res" where
  "parse_file_dict file_bencode = convert_dict handle_error file_bencode FILES_KEY"

definition parse_length :: "dict \<Rightarrow> (u64, 'io ParseError) res" where
  "parse_length info_or_file_dict =
     try_res (lookup_and_convert_int handle_error info_or_file_dict LENGTH_KEY) (\<lambda>len. Ok len)"

definition parse_md5sum :: "dict \<Rightarrow> bytes option" where
  "parse_md5sum info_or_file_dict =
     res_ok (lookup_and_convert_bytes dropped_error info_or_file_dict MD5SUM_KEY)"

definition parse_path_list :: "dict \<Rightarrow> (BencodeRef list, 'io ParseError) res" where
  "parse_path_list file_dict = lookup_and_convert_list handle_error file_dict PATH_KEY"

definition parse_path_str :: "BencodeRef \<Rightarrow> (bytes, 'io ParseError) res" where
  "parse_path_str path_bencode = convert_str handle_error path_bencode PATH_KEY"

section \<open>Reading a torrent file\<close>

definition File_as_single_file :: "dict \<Rightarrow> (File, 'io ParseError) res" where
  "File_as_single_file info_dict =
     try_res (parse_length info_dict) (\<lambda>length.
     let md5sum = parse_md5sum info_dict
     in try_res (parse_name info_dict) (\<lambda>name.
        Ok \<lparr>fl_len = length, fl_path = name, fl_md5sum = md5sum\<rparr>))"

fun push_path_strs :: "BencodeRef list \<Rightarrow> path \<Rightarrow> (path, 'io ParseError) res" where
  "push_path_strs [] path_buf = Ok path_buf"
| "push_path_strs (path_bencode # rest) path_buf =
     try_res (parse_path_str path_bencode) (\<lambda>path. push_path_strs rest (path_push path_buf path))"

definition File_as_multi_file :: "dict \<Rightarrow> (File, 'io ParseError) res" where
  "File_as_multi_file file_dict =
     try_res (parse_length file_dict) (\<lambda>length.
     let md5sum = parse_md5sum file_dict
     in try_res (parse_path_list file_dict) (\<lambda>path_list_bencode.
        try_res (push_path_strs path_list_bencode []) (\<lambda>path_buf.
        Ok \<lparr>fl_len = length, fl_path = path_buf, fl_md5sum = md5sum\<rparr>)))"

fun push_files :: "BencodeRef list \<Rightarrow> File list \<Rightarrow> (File list, 'io ParseError) res" where
  "push_files [] files_list = Ok files_list"
| "push_files (file_bencode # rest) files_list =
     try_res (parse_file_dict file_bencode) (\<lambda>file_dict.
     try_res (File_as_multi_file file_dict) (\<lambda>file. push_files rest (files_list @ [file])))"

text \<open>\<open>slice.chunks(n)\<close>, for a positive \<open>n\<close>.\<close>

fun chunks :: "nat \<Rightarrow> 'a list \<Rightarrow> 'a list list" where
  "chunks n [] = []"
| "chunks n (x # xs) = take (Suc (n - 1)) (x # xs) # chunks n (drop (n - 1) xs)"

text \<open>The buffer of one hash is filled again for every chunk.\<close>

fun push_hashes :: "bytes list \<Rightarrow> bytes \<Rightarrow> ShaHash list \<Rightarrow> ShaHash list" where
  "push_hashes [] hash_bytes hash_buffers = hash_buffers"
| "push_hashes (chunk # rest) hash_bytes hash_buffers =
     (let hash_bytes = zip_assign (\<lambda>src dst. src) chunk hash_bytes
      in push_hashes rest hash_bytes (hash_buffers @ [hash_bytes]))"

definition allocate_pieces :: "bytes \<Rightarrow> (ShaHash list, 'io ParseError) res" where
  "allocate_pieces pieces =
     (if length pieces mod SHA_HASH_LEN \<noteq> 0
      then Err (MissingData (''Piece Hash Length Of '' @ map (\<lambda>b. char_of (unat b)) (to_dec (length pieces)) @ '' Is Invalid''))
      else Ok (push_hashes (chunks SHA_HASH_LEN pieces) (replicate SHA_HASH_LEN 0) []))"

definition is_multi_file_torrent :: "dict \<Rightarrow> bool" where
  "is_multi_file_torrent info_dict =
     (case parse_length info_dict :: (u64, unit ParseError) res of Err _ \<Rightarrow> True | _ \<Rightarrow> False)"

definition parse_info_dictionary :: "'s Sha1 \<Rightarrow> BencodeRef \<Rightarrow> (Info, 'io ParseError) res" where
  "parse_info_dictionary D info_bencode =
     (let info_hash = ShaHash_from_bytes D (buffer info_bencode)
      in try_res (parse_root_dict info_bencode) (\<lambda>info_dict.
         try_res (parse_piece_length info_dict) (\<lambda>piece_len.
         let is_private = parse_private info_dict
         in try_res (parse_pieces info_dict) (\<lambda>pieces.
            try_res (allocate_pieces pieces) (\<lambda>piece_buffers.
            if is_multi_file_torrent info_dict
            then try_res (parse_name info_dict) (\<lambda>file_directory.
                 let file_directory_path = path_push [] file_directory
                 in try_res (parse_files_list info_dict) (\<lambda>files_bencode.
                    try_res (push_files files_bencode []) (\<lambda>files_list.
                    Ok \<lparr>inf_hash = info_hash, inf_files = files_list, inf_pieces = piece_buffers,
                        inf_piece_len = piece_len, inf_private = is_private,
                        inf_dir = Some file_directory_path\<rparr>)))
            else try_res (File_as_single_file info_dict) (\<lambda>file.
                 Ok \<lparr>inf_hash = info_hash, inf_files = [file], inf_pieces = piece_buffers,
                     inf_piece_len = piece_len, inf_private = is_private, inf_dir = None\<rparr>))))))"

definition decode_default :: "bytes \<Rightarrow> (BencodeRef, 'io ParseError) res" where
  "decode_default bytes = map_err ParseBencodeParse (BencodeRef_decode bytes BDecodeOpt_default)"

definition parse_info_bytes :: "'s Sha1 \<Rightarrow> bytes \<Rightarrow> (Info, 'io ParseError) res" where
  "parse_info_bytes D bytes =
     try_res (decode_default bytes) (\<lambda>info_bencode. parse_info_dictionary D info_bencode)"

definition Info_from_bytes :: "'s Sha1 \<Rightarrow> bytes \<Rightarrow> (Info, 'io ParseError) res" where
  "Info_from_bytes D bytes = parse_info_bytes D bytes"

definition parse_meta_bytes :: "'s Sha1 \<Rightarrow> bytes \<Rightarrow> (Metainfo, 'io ParseError) res" where
  "parse_meta_bytes D bytes =
     try_res (decode_default bytes) (\<lambda>root_bencode.
     try_res (parse_root_dict root_bencode) (\<lambda>root_dict.
     let announce = parse_announce_url root_dict;
         opt_announce_list = map_option convert_announce_list (parse_announce_list root_dict);
         opt_comment = parse_comment root_dict;
         opt_encoding = parse_encoding root_dict;
         opt_created_by = parse_created_by root_dict;
         opt_creation_date = parse_creation_date root_dict
     in try_res (parse_info_bencode root_dict) (\<lambda>info_bencode.
        try_res (parse_info_dictionary D info_bencode) (\<lambda>info.
        Ok \<lparr>mi_comment = opt_comment, mi_announce = announce, mi_announce_list = opt_announce_list,
            mi_encoding = opt_encoding, mi_created_by = opt_created_by,
            mi_creation_date = opt_creation_date, mi_info = info\<rparr>))))"

definition Metainfo_from_bytes :: "'s Sha1 \<Rightarrow> bytes \<Rightarrow> (Metainfo, 'io ParseError) res" where
  "Metainfo_from_bytes D bytes = parse_meta_bytes D bytes"

section \<open>The dictionaries of BEP 3\<close>

definition opt_entry :: "bytes \<Rightarrow> ('a \<Rightarrow> BencodeMut) \<Rightarrow> 'a option \<Rightarrow> (bytes \<times> BencodeMut) list" where
  "opt_entry key g x = (case x of None \<Rightarrow> [] | Some a \<Rightarrow> [(key, g a)])"

definition file_bencode :: "File \<Rightarrow> BencodeMut" where
  "file_bencode f = MutDict
     ([(LENGTH_KEY, MutInt (fl_len f))] @ opt_entry MD5SUM_KEY MutBytes (fl_md5sum f) @
      [(PATH_KEY, MutList (map MutBytes (path_iter (fl_path f))))])"

definition private_int :: "bool \<Rightarrow> BencodeMut" where
  "private_int b = MutInt (if b then 1 else 0)"

definition files_entries :: "Info \<Rightarrow> (bytes \<times> BencodeMut) list" where
  "files_entries i =
     (case inf_dir i of
        Some d \<Rightarrow> [(FILES_KEY, MutList (map file_bencode (inf_files i))), (NAME_KEY, MutBytes d)]
      | None \<Rightarrow> (LENGTH_KEY, MutInt (fl_len (hd (inf_files i)))) #
          opt_entry MD5SUM_KEY MutBytes (fl_md5sum (hd (inf_files i))) @
          [(NAME_KEY, MutBytes (fl_path (hd (inf_files i))))])"

definition info_bencode :: "Info \<Rightarrow> BencodeMut" where
  "info_bencode i = MutDict
     (files_entries i @
      [(PIECE_LENGTH_KEY, MutInt (inf_piece_len i)), (PIECES_KEY, MutBytes (concat (inf_pieces i)))] @
      opt_entry PRIVATE_KEY private_int (inf_private i))"

definition metainfo_bencode :: "Metainfo \<Rightarrow> BencodeMut" where
  "metainfo_bencode m = MutDict
     (opt_entry ANNOUNCE_URL_KEY MutBytes (mi_announce m) @
      opt_entry ANNOUNCE_LIST_KEY (\<lambda>gs. MutList (map (\<lambda>g. MutList (map MutBytes g)) gs)) (mi_announce_list m) @
      opt_entry COMMENT_KEY MutBytes (mi_comment m) @
      opt_entry CREATED_BY_KEY MutBytes (mi_created_by m) @
      opt_entry CREATION_DATE_KEY MutInt (mi_creation_date m) @
      opt_entry ENCODING_KEY MutBytes (mi_encoding m) @
      [(INFO_KEY, info_bencode (mi_info m))])"

text \<open>
  What a torrent must satisfy to be written that way: strings are UTF-8, hashes have 20 bytes, a
  torrent without a directory has one file, and paths are written with single separators.
\<close>

definition str_wf :: "bytes \<Rightarrow> bool" where
  "str_wf s \<longleftrightarrow> from_utf8 s \<and> length s < 2 ^ 63"

definition file_wf :: "File \<Rightarrow> bool" where
  "file_wf f \<longleftrightarrow> list_all str_wf (path_iter (fl_path f)) \<and> path_collect (path_iter (fl_path f)) = fl_path f \<and>
     pred_option (\<lambda>s. length s < 2 ^ 63) (fl_md5sum f)"

definition info_wf :: "Info \<Rightarrow> bool" where
  "info_wf i \<longleftrightarrow> list_all sha_ok (inf_pieces i) \<and> length (concat (inf_pieces i)) < 2 ^ 63 \<and>
     (case inf_dir i of
        Some d \<Rightarrow> str_wf d \<and> list_all file_wf (inf_files i)
      | None \<Rightarrow> length (inf_files i) = 1 \<and> str_wf (fl_path (hd (inf_files i))) \<and>
          pred_option (\<lambda>s. length s < 2 ^ 63) (fl_md5sum (hd (inf_files i))))"

definition metainfo_wf :: "Metainfo \<Rightarrow> bool" where
  "metainfo_wf m \<longleftrightarrow> pred_option str_wf (mi_comment m) \<and> pred_option str_wf (mi_announce m) \<and>
     pred_option (list_all (list_all str_wf)) (mi_announce_list m) \<and> pred_option str_wf (mi_encoding m) \<and>
     pred_option str_wf (mi_created_by m) \<and> info_wf (mi_info m)"

section \<open>Reading what was written\<close>

text \<open>The accessors on what the decoder gives for an encoded value.\<close>

lemma ref_of_accessors [simp]:
  "ref_int (ref_of b) = mut_int b"
  "ref_bytes (ref_of b) = mut_bytes b"
  "ref_str (ref_of b) = mut_str b"
  "ref_list (ref_of b) = map_option (map ref_of) (mut_list b)"
  "ref_dict (ref_of b) = map_option (map (\<lambda>(k, v). (k, ref_of v))) (mut_dict b)"
  by (cases b; simp add: ref_bytes_def ref_str_def ref_str_ext_def mut_str_def)+

lemma btree_lookup_ref [simp]:
  "btree_lookup (map (\<lambda>(k, v). (k, ref_of v)) d) key = map_option ref_of (map_of d key)"
  by (simp add: btree_lookup_def btree_get_def map_of_map [unfolded split_def] split_def)

lemma key_bytes [simp]:
  "ANNOUNCE_LIST_KEY = [97, 110, 110, 111, 117, 110, 99, 101, 45, 108, 105, 115, 116]"
  "ANNOUNCE_URL_KEY = [97, 110, 110, 111, 117, 110, 99, 101]"
  "CREATION_DATE_KEY = [99, 114, 101, 97, 116, 105, 111, 110, 32, 100, 97, 116, 101]"
  "COMMENT_KEY = [99, 111, 109, 109, 101, 110, 116]"
  "CREATED_BY_KEY = [99, 114, 101, 97, 116, 101, 100, 32, 98, 121]"
  "ENCODING_KEY = [101, 110, 99, 111, 100, 105, 110, 103]"
  "INFO_KEY = [105, 110, 102, 111]"
  "PIECE_LENGTH_KEY = [112, 105, 101, 99, 101, 32, 108, 101, 110, 103, 116, 104]"
  "PIECES_KEY = [112, 105, 101, 99, 101, 115]"
  "PRIVATE_KEY = [112, 114, 105, 118, 97, 116, 101]"
  "NAME_KEY = [110, 97, 109, 101]"
  "FILES_KEY = [102, 105, 108, 101, 115]"
  "LENGTH_KEY = [108, 101, 110, 103, 116, 104]"
  "MD5SUM_KEY = [109, 100, 53, 115, 117, 109]"
  "PATH_KEY = [112, 97, 116, 104]"
  by (simp_all add: key_defs ascii_def)

lemma opt_entry_simps [simp]:
  "opt_entry key g None = []" "opt_entry key g (Some a) = [(key, g a)]"
  by (simp_all add: opt_entry_def)

lemma map_of_opt_entry:
  "map_of (opt_entry key g x @ es) k = (if k = key then case x of None \<Rightarrow> map_of es k | Some a \<Rightarrow> Some (g a) else map_of es k)"
  by (cases x) auto

lemma list_all_opt_entry [simp]: "list_all P (opt_entry key g x) = pred_option (\<lambda>a. P (key, g a)) x"
  by (cases x) auto

lemma file_bencode_wf: "file_wf f \<Longrightarrow> wf_mut (file_bencode f) \<and> height (file_bencode f) \<le> 3"
  by (cases "fl_md5sum f")
    (auto simp: file_wf_def file_bencode_def str_wf_def list_all_iff height.simps fold_max_le)

lemma str_entry_wf: "str_wf s \<Longrightarrow> wf_mut (MutBytes s)"
  by (simp add: str_wf_def)

lemma info_bencode_wf:
  assumes "info_wf i"
  shows "wf_mut (info_bencode i) \<and> height (info_bencode i) \<le> 5"
proof (cases "inf_dir i")
  case None
  then show ?thesis
    using assms by (cases "inf_private i"; cases "fl_md5sum (hd (inf_files i))")
      (auto simp: info_wf_def info_bencode_def files_entries_def private_int_def str_wf_def height.simps)
next
  case (Some d)
  have "wf_mut (file_bencode f) \<and> height (file_bencode f) \<le> 3" if "f \<in> set (inf_files i)" for f
    using assms that Some by (auto simp: info_wf_def list_all_iff intro!: file_bencode_wf)
  then have "wf_mut (MutList (map file_bencode (inf_files i)))"
    "height (MutList (map file_bencode (inf_files i))) \<le> 4"
    by (auto simp: list_all_iff height.simps fold_max_le)
  then show ?thesis
    using assms Some by (cases "inf_private i")
      (auto simp: info_wf_def info_bencode_def files_entries_def private_int_def str_wf_def height.simps(1,2,4))
qed

lemma announce_list_wf:
  "list_all (list_all str_wf) gs \<Longrightarrow>
   wf_mut (MutList (map (\<lambda>g. MutList (map MutBytes g)) gs)) \<and>
   height (MutList (map (\<lambda>g. MutList (map MutBytes g)) gs)) \<le> 3"
  by (auto simp: list_all_iff height.simps fold_max_le str_wf_def)

lemma metainfo_entries_sorted:
  "btree_inv (opt_entry ANNOUNCE_URL_KEY f1 x1 @ opt_entry ANNOUNCE_LIST_KEY f2 x2 @
     opt_entry COMMENT_KEY f3 x3 @ opt_entry CREATED_BY_KEY f4 x4 @ opt_entry CREATION_DATE_KEY f5 x5 @
     opt_entry ENCODING_KEY f6 x6 @ [(INFO_KEY, v)])"
  by (auto simp: opt_entry_def split: option.split)

lemma metainfo_bencode_wf:
  assumes "metainfo_wf m"
  shows "wf_mut (metainfo_bencode m) \<and> height (metainfo_bencode m) \<le> 6"
proof -
  have "wf_mut (info_bencode (mi_info m))" "height (info_bencode (mi_info m)) \<le> 5"
    using info_bencode_wf assms by (auto simp: metainfo_wf_def)
  moreover have "pred_option (\<lambda>gs. wf_mut (MutList (map (\<lambda>g. MutList (map MutBytes g)) gs))) (mi_announce_list m)"
    "pred_option (\<lambda>gs. height (MutList (map (\<lambda>g. MutList (map MutBytes g)) gs)) \<le> 5) (mi_announce_list m)"
    using assms announce_list_wf by (cases "mi_announce_list m"; force simp: metainfo_wf_def)+
  moreover have "height (MutDict d) \<le> 6" if "list_all (\<lambda>e. height (snd e) \<le> 5) d" for d
    using height_dict_le [of d 5] that by (auto simp: list_all_iff)
  ultimately show ?thesis
    using assms metainfo_entries_sorted
    by (auto simp: metainfo_wf_def metainfo_bencode_def str_wf_def pred_option_def height.simps(1,2))
qed

lemmas read_defs = convert_defs btree_lookup_def btree_get_def mut_str_def str_wf_def
  parse_root_dict_def parse_piece_length_def parse_pieces_def parse_private_def parse_length_def
  parse_md5sum_def parse_name_def parse_files_list_def parse_file_dict_def parse_path_list_def
  is_multi_file_torrent_def File_as_single_file_def File_as_multi_file_def

lemma chunks_append: "length h = n \<Longrightarrow> 0 < n \<Longrightarrow> chunks n (h @ xs) = h # chunks n xs"
  by (cases h) auto

lemma chunks_concat: "list_all (\<lambda>h. length h = n) hs \<Longrightarrow> 0 < n \<Longrightarrow> chunks n (concat hs) = hs"
  by (induction hs) (auto simp: chunks_append)

lemma push_hashes_copy:
  "list_all (\<lambda>h. length h = length buf) hs \<Longrightarrow> push_hashes hs buf acc = acc @ hs"
  by (induction hs arbitrary: buf acc) (auto simp: zip_assign_copy)

lemma allocate_pieces_concat:
  assumes "list_all sha_ok hs"
  shows "allocate_pieces (concat hs) = Ok hs"
proof -
  have len: "list_all (\<lambda>h. length h = SHA_HASH_LEN) hs" using assms by (simp add: sha_ok_def [abs_def])
  then have "length (concat hs) = SHA_HASH_LEN * length hs" by (induction hs) auto
  with len show ?thesis
    by (simp add: allocate_pieces_def chunks_concat push_hashes_copy SHA_HASH_LEN_def)
qed

lemma push_path_strs_ref:
  "list_all str_wf cs \<Longrightarrow> push_path_strs (map (ref_of \<circ> MutBytes) cs) p = Ok (foldl path_push p cs)"
  by (induction cs arbitrary: p)
    (auto simp: parse_path_str_def convert_str_def mut_str_def str_wf_def simp del: ref_of.simps)

lemma as_multi_file_ref:
  "file_wf f \<Longrightarrow> push_files (ref_of (file_bencode f) # fs) acc = push_files fs (acc @ [f])"
  by (cases f; cases "fl_md5sum f")
    (auto simp: file_bencode_def file_wf_def read_defs path_collect_def push_path_strs_ref
      simp del: ref_of.simps)

lemma push_files_ref:
  "list_all file_wf fs \<Longrightarrow> push_files (map (ref_of \<circ> file_bencode) fs) acc = Ok (acc @ fs)"
  by (induction fs arbitrary: acc) (auto simp: as_multi_file_ref simp del: push_files.simps(2) ref_of.simps)

lemma path_push_Nil [simp]: "path_push [] q = q"
  by (simp add: path_push_def)

lemma parse_info_ref:
  assumes "info_wf i"
  shows "parse_info_dictionary D (ref_of (info_bencode i)) =
    Ok (i\<lparr>inf_hash := ShaHash_from_bytes D (BencodeMut_encode (info_bencode i))\<rparr>)"
proof (cases "inf_dir i")
  case None
  then obtain f where "inf_files i = [f]" using assms by (auto simp: info_wf_def length_Suc_conv)
  then show ?thesis
    using assms None by (cases "inf_private i"; cases "fl_md5sum f")
      (auto simp: info_wf_def parse_info_dictionary_def info_bencode_def files_entries_def private_int_def
        read_defs allocate_pieces_concat Let_def simp del: ref_of.simps)
next
  case (Some d)
  then have "list_all file_wf (inf_files i)" using assms by (simp add: info_wf_def)
  then show ?thesis
    using assms Some by (cases "inf_private i")
      (auto simp: info_wf_def parse_info_dictionary_def info_bencode_def files_entries_def private_int_def
        read_defs allocate_pieces_concat push_files_ref Let_def simp del: ref_of.simps)
qed

lemma map_filter_str: "list_all str_wf g \<Longrightarrow> List.map_filter ref_str (map (ref_of \<circ> MutBytes) g) = g"
  by (induction g) (auto simp: map_filter_simps mut_str_def str_wf_def simp del: ref_of.simps)

lemma convert_announce_list_ref:
  "list_all (list_all str_wf) gs \<Longrightarrow>
   convert_announce_list (map (ref_of \<circ> (\<lambda>g. MutList (map MutBytes g))) gs) = gs"
  by (induction gs)
    (auto simp: convert_announce_list_def map_filter_simps map_filter_str simp del: ref_of.simps)

lemma map_of_metainfo:
  assumes "d = opt_entry ANNOUNCE_URL_KEY f1 x1 @ opt_entry ANNOUNCE_LIST_KEY f2 x2 @
     opt_entry COMMENT_KEY f3 x3 @ opt_entry CREATED_BY_KEY f4 x4 @ opt_entry CREATION_DATE_KEY f5 x5 @
     opt_entry ENCODING_KEY f6 x6 @ [(INFO_KEY, v)]"
  shows "map_of d ANNOUNCE_URL_KEY = map_option f1 x1" "map_of d ANNOUNCE_LIST_KEY = map_option f2 x2"
    "map_of d COMMENT_KEY = map_option f3 x3" "map_of d CREATED_BY_KEY = map_option f4 x4"
    "map_of d CREATION_DATE_KEY = map_option f5 x5" "map_of d ENCODING_KEY = map_option f6 x6"
    "map_of d INFO_KEY = Some v"
  unfolding assms map_of_opt_entry by (simp_all split: option.split)

lemma lookup_str_ref:
  "map_of d key = map_option MutBytes x \<Longrightarrow> pred_option str_wf x \<Longrightarrow>
   res_ok (lookup_and_convert_str h (map (\<lambda>(k, v). (k, ref_of v)) d) key) = x"
  by (cases x) (auto simp: convert_lookup_def lookup_and_convert_str_def convert_str_def mut_str_def str_wf_def
      simp del: ref_of.simps)

lemma parse_metainfo_ref:
  assumes "metainfo_wf m"
  shows "(Metainfo_from_bytes D (BencodeMut_encode (metainfo_bencode m)) :: (Metainfo, 'io ParseError) res) =
    Ok (m\<lparr>mi_info := (mi_info m)\<lparr>inf_hash := ShaHash_from_bytes D (BencodeMut_encode (info_bencode (mi_info m)))\<rparr>\<rparr>)"
proof -
  obtain d where d: "metainfo_bencode m = MutDict d" by (simp add: metainfo_bencode_def)
  note lookups = map_of_metainfo [OF d [unfolded metainfo_bencode_def BencodeMut.inject, symmetric]]
  have dec: "(decode_default (BencodeMut_encode (metainfo_bencode m)) :: (BencodeRef, 'io ParseError) res) =
      Ok (ref_of (MutDict d))"
    using metainfo_bencode_wf [OF assms] decode_encode [of "metainfo_bencode m" BDecodeOpt_default] d
    by (simp add: decode_default_def BDecodeOpt_default_def BDecodeOpt_new_def del: ref_of.simps)
  let ?dict = "map (\<lambda>(k, v). (k, ref_of v)) d"
  have "parse_announce_url ?dict = mi_announce m" "parse_comment ?dict = mi_comment m"
    "parse_created_by ?dict = mi_created_by m" "parse_encoding ?dict = mi_encoding m"
    using assms
    by (simp_all add: parse_announce_url_def parse_comment_def parse_created_by_def parse_encoding_def
        lookup_str_ref lookups metainfo_wf_def del: key_bytes)
  moreover have "parse_creation_date ?dict = mi_creation_date m"
    by (cases "mi_creation_date m")
      (simp_all add: parse_creation_date_def convert_defs lookups del: key_bytes ref_of.simps)
  moreover have "map_option convert_announce_list (parse_announce_list ?dict) = mi_announce_list m"
    using assms by (cases "mi_announce_list m")
      (simp_all add: parse_announce_list_def convert_defs lookups convert_announce_list_ref metainfo_wf_def
        del: key_bytes ref_of.simps)
  moreover have "(parse_info_bencode ?dict :: (BencodeRef, 'io ParseError) res) = Ok (ref_of (info_bencode (mi_info m)))"
    by (simp add: parse_info_bencode_def convert_lookup_def lookups del: key_bytes)
  ultimately show ?thesis
    using assms by (simp add: Metainfo_from_bytes_def parse_meta_bytes_def dec parse_root_dict_def
        convert_dict_def parse_info_ref metainfo_wf_def del: ref_of.simps)
qed

end
