(* ===== verification/Metainfo_Build.thy ===== *)
theory Metainfo_Build
  imports Metainfo "HOL-Library.Multiset"
begin

text \<open>
  \<open>bip_metainfo/src/builder\<close> and \<open>accessor.rs\<close>: how a torrent file is built. \<open>Accessor\<close> is the
  trait of the data to build from, with the instances for a file tree, for bytes in memory and
  for an \<open>Info\<close>; the hashing workers of \<open>worker.rs\<close> are a step relation of the master thread and
  the workers, over the queue of work, the pool of buffers and the channel back to the master.
  The progress callback sees numbers only and is left out.
\<close>

section \<open>accessor.rs\<close>

text \<open>
  A \<open>Read\<close>: what is left of its bytes, and for each call to come the number of bytes it is willing
  to hand out at most (at least one) or the error it ends with.
\<close>

record 'io Reader =
  rd_data :: bytes
  rd_calls :: nat
  rd_limit :: "nat \<Rightarrow> nat"
  rd_fault :: "nat \<Rightarrow> 'io option"

definition Reader_read :: "'io Reader \<Rightarrow> nat \<Rightarrow> (bytes \<times> 'io Reader, 'io) res" where
  "Reader_read self n =
     (case rd_fault self (rd_calls self) of
        Some e \<Rightarrow> Err e
      | None \<Rightarrow>
          let k = min n (max 1 (rd_limit self (rd_calls self)))
          in Ok (take k (rd_data self),
                 self\<lparr>rd_data := drop k (rd_data self), rd_calls := rd_calls self + 1\<rparr>))"

datatype 'io PieceAccess = Compute "'io Reader" | PreComputed ShaHash

text \<open>
  An accessor hands its callbacks the files and the pieces: the model has the list of what it
  hands out, and the result it ends with.
\<close>

record 'io Accessor =
  access_directory :: "path option"
  access_metadata :: "(u64 \<times> path) list \<times> (unit, 'io) res"
  access_pieces :: "'io PieceAccess list \<times> (unit, 'io) res"

text \<open>
  \<open>FileAccessor\<close>: the directory walker of the crate \<open>walkdir\<close> is a parameter, the list of what it
  yields: a path with its metadata and contents, or an error.
\<close>

record 'io DirEntry =
  de_path :: path
  de_is_file :: bool
  de_len :: "(u64, 'io) res"
  de_open :: "('io Reader, 'io) res"

record FileAccessor =
  fa_absolute_path :: path
  fa_directory_name :: "path option"

definition FileAccessor_new :: "(path, 'io) res \<Rightarrow> bool \<Rightarrow> (FileAccessor, 'io) res" where
  "FileAccessor_new canonicalized is_dir =
     try_res canonicalized (\<lambda>absolute_path.
     if is_dir
     then (if path_iter absolute_path = [] then Panic
           else Ok \<lparr>fa_absolute_path = absolute_path, fa_directory_name = Some (last (path_iter absolute_path))\<rparr>)
     else Ok \<lparr>fa_absolute_path = absolute_path, fa_directory_name = None\<rparr>)"

definition entry_file_filter :: "('io DirEntry, 'io) res \<Rightarrow> bool" where
  "entry_file_filter res_entry = (case res_entry of Ok f \<Rightarrow> de_is_file f | _ \<Rightarrow> True)"

definition num_skip_paths :: "FileAccessor \<Rightarrow> nat" where
  "num_skip_paths self =
     (if fa_directory_name self \<noteq> None then length (path_iter (fa_absolute_path self))
      else length (path_iter (fa_absolute_path self)) - 1)"

fun file_metadata ::
  "nat \<Rightarrow> ('io DirEntry, 'io) res list \<Rightarrow> (u64 \<times> path) list \<Rightarrow> (u64 \<times> path) list \<times> (unit, 'io) res" where
  "file_metadata skip [] acc = (acc, Ok ())"
| "file_metadata skip (Ok entry # rest) acc =
     (case de_len entry of
        Ok file_length \<Rightarrow>
          (let relative_path = path_collect (drop skip (path_iter (de_path entry)))
           in file_metadata skip rest (acc @ [(file_length, relative_path)]))
      | Err e \<Rightarrow> (acc, Err e)
      | Panic \<Rightarrow> (acc, Panic))"
| "file_metadata skip (Err e # rest) acc = (acc, Err e)"
| "file_metadata skip (Panic # rest) acc = (acc, Panic)"

fun file_pieces ::
  "('io DirEntry, 'io) res list \<Rightarrow> 'io PieceAccess list \<Rightarrow> 'io PieceAccess list \<times> (unit, 'io) res" where
  "file_pieces [] acc = (acc, Ok ())"
| "file_pieces (Ok entry # rest) acc =
     (case de_open entry of
        Ok file \<Rightarrow> file_pieces rest (acc @ [Compute file])
      | Err e \<Rightarrow> (acc, Err e)
      | Panic \<Rightarrow> (acc, Panic))"
| "file_pieces (Err e # rest) acc = (acc, Err e)"
| "file_pieces (Panic # rest) acc = (acc, Panic)"

definition FileAccessor_accessor :: "('io DirEntry, 'io) res list \<Rightarrow> FileAccessor \<Rightarrow> 'io Accessor" where
  "FileAccessor_accessor walk self =
     \<lparr>access_directory = fa_directory_name self,
      access_metadata = file_metadata (num_skip_paths self) (filter entry_file_filter walk) [],
      access_pieces = file_pieces (filter entry_file_filter walk) []\<rparr>"

text \<open>\<open>DirectAccessor\<close>; a \<open>Cursor\<close> over a slice hands out all that is asked for.\<close>

record DirectAccessor =
  da_file_name :: bytes
  da_file_contents :: bytes

definition cursor :: "bytes \<Rightarrow> 'io Reader" where
  "cursor bs = \<lparr>rd_data = bs, rd_calls = 0, rd_limit = (\<lambda>_. length bs), rd_fault = (\<lambda>_. None)\<rparr>"

definition DirectAccessor_accessor :: "DirectAccessor \<Rightarrow> 'io Accessor" where
  "DirectAccessor_accessor self =
     \<lparr>access_directory = None,
      access_metadata = ([(of_nat (length (da_file_contents self)), da_file_name self)], Ok ()),
      access_pieces = ([Compute (cursor (da_file_contents self))], Ok ())\<rparr>"

text \<open>The accessor of an \<open>Info\<close>. Its pieces have the type of an array of 20 bytes, so \<open>from_hash\<close> does not fail.\<close>

definition Info_accessor :: "Info \<Rightarrow> 'io Accessor" where
  "Info_accessor self =
     \<lparr>access_directory = inf_dir self,
      access_metadata = (map (\<lambda>file. (fl_len file, fl_path file)) (inf_files self), Ok ()),
      access_pieces = (map PreComputed (inf_pieces self), Ok ())\<rparr>"

section \<open>buffer.rs\<close>

definition calculate_total_buffers :: "nat \<Rightarrow> nat" where
  "calculate_total_buffers num_workers = num_workers * 2 + 0"

record PieceBuffer =
  pb_buffer :: bytes
  pb_bytes_read :: nat

definition PieceBuffer_new :: "nat \<Rightarrow> PieceBuffer" where
  "PieceBuffer_new piece_length = \<lparr>pb_buffer = replicate piece_length 0, pb_bytes_read = 0\<rparr>"

definition checkin_buffer :: "PieceBuffer \<Rightarrow> PieceBuffer" where
  "checkin_buffer buf = buf\<lparr>pb_bytes_read := 0\<rparr>"

definition write_bytes :: "'io Reader \<Rightarrow> PieceBuffer \<Rightarrow> (nat \<times> 'io Reader \<times> PieceBuffer, 'io) res" where
  "write_bytes region self =
     (if pb_bytes_read self \<le> length (pb_buffer self)
      then try_res (Reader_read region (length (pb_buffer self) - pb_bytes_read self)) (\<lambda>(new, region).
           Ok (length new, region,
               self\<lparr>pb_buffer := take (pb_bytes_read self) (pb_buffer self) @ new @
                      drop (pb_bytes_read self + length new) (pb_buffer self),
                    pb_bytes_read := pb_bytes_read self + length new\<rparr>))
      else Panic)"

definition is_whole :: "PieceBuffer \<Rightarrow> bool" where
  "is_whole self \<longleftrightarrow> pb_bytes_read self = length (pb_buffer self)"

definition buffer_is_empty :: "PieceBuffer \<Rightarrow> bool" where
  "buffer_is_empty self \<longleftrightarrow> pb_bytes_read self = 0"

definition as_slice :: "PieceBuffer \<Rightarrow> (bytes, 'io) res" where
  "as_slice self = slice (pb_buffer self) 0 (pb_bytes_read self)"

section \<open>worker.rs: chunking\<close>

datatype WorkerMessage = HashPiece nat PieceBuffer | Finish

datatype MasterMessage = AcceptPiece nat ShaHash | WorkerFinished

text \<open>
  What the closure of the master keeps between its calls. The \<open>k\<close>-th checkout gives the buffer
  \<open>pool k\<close>: of the length of a piece, empty, with whatever it was left with.
\<close>

record Chunker =
  ch_pieces :: "(nat \<times> ShaHash) list"
  ch_index :: nat
  ch_buffer :: "PieceBuffer option"
  ch_checkouts :: nat
  ch_work :: "WorkerMessage list"

definition Chunker_new :: Chunker where
  "Chunker_new = \<lparr>ch_pieces = [], ch_index = 0, ch_buffer = None, ch_checkouts = 0, ch_work = []\<rparr>"

function read_region ::
  "(nat \<Rightarrow> PieceBuffer) \<Rightarrow> 'io Reader \<Rightarrow> PieceBuffer \<Rightarrow> Chunker \<Rightarrow> (PieceBuffer \<times> Chunker, 'io) res" where
  "read_region pool region cur st =
     try_res (write_bytes region cur) (\<lambda>(n, region, cur).
     let (cur, st) =
       (if is_whole cur
        then (pool (ch_checkouts st),
              st\<lparr>ch_work := ch_work st @ [HashPiece (ch_index st) cur], ch_index := ch_index st + 1,
                 ch_checkouts := ch_checkouts st + 1\<rparr>)
        else (cur, st))
     in if n = 0 then Ok (cur, st) else read_region pool region cur st)"
  by pat_completeness auto

lemma Reader_read_shrinks:
  "Reader_read r k = Ok (new, r') \<Longrightarrow> rd_data r = new @ rd_data r' \<and> length new \<le> k"
  by (auto simp: Reader_read_def Let_def split: option.splits)

lemma write_bytes_shrinks:
  "write_bytes region cur = Ok (n, region', cur') \<Longrightarrow> length (rd_data region) = n + length (rd_data region')"
  by (auto simp: write_bytes_def res_simps dest: Reader_read_shrinks split: if_splits)

termination read_region
  by (relation "measure (\<lambda>(pool, region, cur, st). length (rd_data region))")
    (auto dest: write_bytes_shrinks)

declare read_region.simps [simp del]

definition chunk_access :: "(nat \<Rightarrow> PieceBuffer) \<Rightarrow> 'io PieceAccess \<Rightarrow> Chunker \<Rightarrow> (Chunker, 'io) res" where
  "chunk_access pool piece_access st =
     (case piece_access of
        Compute piece_region \<Rightarrow>
          (let (curr_piece_buffer, st) =
             (case ch_buffer st of
                Some piece_buffer \<Rightarrow> (piece_buffer, st\<lparr>ch_buffer := None\<rparr>)
              | None \<Rightarrow> (pool (ch_checkouts st), st\<lparr>ch_checkouts := ch_checkouts st + 1\<rparr>))
           in try_res (read_region pool piece_region curr_piece_buffer st) (\<lambda>(curr_piece_buffer, st).
              Ok (st\<lparr>ch_buffer := Some curr_piece_buffer\<rparr>)))
      | PreComputed hash \<Rightarrow>
          Ok (st\<lparr>ch_pieces := ch_pieces st @ [(ch_index st, hash)], ch_index := ch_index st + 1\<rparr>))"

fun chunk_all :: "(nat \<Rightarrow> PieceBuffer) \<Rightarrow> 'io PieceAccess list \<Rightarrow> Chunker \<Rightarrow> (Chunker, 'io) res" where
  "chunk_all pool [] st = Ok st"
| "chunk_all pool (a # as) st = try_res (chunk_access pool a st) (chunk_all pool as)"

definition push_partial :: "Chunker \<Rightarrow> Chunker" where
  "push_partial st =
     (case ch_buffer st of
        Some piece_buffer \<Rightarrow>
          if \<not> buffer_is_empty piece_buffer
          then st\<lparr>ch_work := ch_work st @ [HashPiece (ch_index st) piece_buffer], ch_index := ch_index st + 1\<rparr>
          else st
      | None \<Rightarrow> st)"

text \<open>What the master pushes for the workers before it tells them to finish, and the hashes it was given.\<close>

definition master_work ::
  "(nat \<Rightarrow> PieceBuffer) \<Rightarrow> 'io Accessor \<Rightarrow> ((nat \<times> ShaHash) list \<times> WorkerMessage list, 'io) res" where
  "master_work pool accessor =
     try_res (chunk_all pool (fst (access_pieces accessor)) Chunker_new) (\<lambda>st.
     try_res (snd (access_pieces accessor)) (\<lambda>_.
     let st = push_partial st in Ok (ch_pieces st, ch_work st)))"

section \<open>Chunking is right\<close>

text \<open>The bytes a buffer holds, and the bytes of the pieces in a list of work.\<close>

definition held :: "PieceBuffer \<Rightarrow> bytes" where
  "held b = take (pb_bytes_read b) (pb_buffer b)"

definition buffer_ok :: "nat \<Rightarrow> PieceBuffer \<Rightarrow> bool" where
  "buffer_ok n b \<longleftrightarrow> length (pb_buffer b) = n \<and> pb_bytes_read b \<le> n"

definition pool_ok :: "nat \<Rightarrow> (nat \<Rightarrow> PieceBuffer) \<Rightarrow> bool" where
  "pool_ok n pool \<longleftrightarrow> (\<forall>k. length (pb_buffer (pool k)) = n \<and> pb_bytes_read (pool k) = 0)"

fun work_bytes :: "WorkerMessage \<Rightarrow> bytes" where
  "work_bytes (HashPiece i b) = held b"
| "work_bytes Finish = []"

text \<open>Numbered pieces, from an index on.\<close>

fun numbered :: "nat \<Rightarrow> nat \<Rightarrow> WorkerMessage list \<Rightarrow> bool" where
  "numbered n i [] = True"
| "numbered n i (HashPiece j b # ws) = (j = i \<and> buffer_ok n b \<and> numbered n (Suc i) ws)"
| "numbered n i (Finish # ws) = False"

lemma numbered_append: "numbered n i (xs @ ys) \<longleftrightarrow> numbered n i xs \<and> numbered n (i + length xs) ys"
  by (induction n i xs rule: numbered.induct) auto

lemma write_bytes_ok:
  assumes "buffer_ok n b" "write_bytes r b = Ok (k, r', b')"
  shows "buffer_ok n b'" "held b' @ rd_data r' = held b @ rd_data r" "length (held b') = length (held b) + k"
    "rd_fault r' = rd_fault r"
proof -
  from assms obtain new where new: "Reader_read r (n - pb_bytes_read b) = Ok (new, r')" "k = length new"
    "b' = b\<lparr>pb_buffer := take (pb_bytes_read b) (pb_buffer b) @ new @ drop (pb_bytes_read b + length new) (pb_buffer b),
      pb_bytes_read := pb_bytes_read b + length new\<rparr>"
    by (auto simp: write_bytes_def buffer_ok_def res_simps split: if_splits)
  then show "buffer_ok n b'" "held b' @ rd_data r' = held b @ rd_data r" "length (held b') = length (held b) + k"
    using assms(1) Reader_read_shrinks [OF new(1)] by (auto simp: buffer_ok_def held_def)
  show "rd_fault r' = rd_fault r" using new(1) by (auto simp: Reader_read_def Let_def split: option.splits)
qed

lemma write_bytes_total:
  assumes "buffer_ok n b" "\<forall>i. rd_fault r i = None"
  obtains k r' b' where "write_bytes r b = Ok (k, r', b')" "k = 0 \<longrightarrow> rd_data r = [] \<or> pb_bytes_read b = n"
    "rd_data r = [] \<longrightarrow> k = 0"
  using assms by (auto simp: write_bytes_def Reader_read_def buffer_ok_def Let_def min_def split: if_splits)

text \<open>
  The chunker went on from \<open>st\<close> over the bytes \<open>bs\<close>: they are the bytes of whole pieces, pushed
  in order and numbered on, and what the buffer holds.
\<close>

definition chunked :: "nat \<Rightarrow> Chunker \<Rightarrow> bytes \<Rightarrow> PieceBuffer \<times> Chunker \<Rightarrow> bool" where
  "chunked n st bs out \<longleftrightarrow>
     (case out of (cur', st') \<Rightarrow>
        buffer_ok n cur' \<and> pb_bytes_read cur' < n \<and> ch_pieces st' = ch_pieces st \<and> ch_buffer st' = ch_buffer st \<and>
        (\<exists>ws. ch_work st' = ch_work st @ ws \<and> numbered n (ch_index st) ws \<and>
           list_all (\<lambda>w. length (work_bytes w) = n) ws \<and> concat (map work_bytes ws) @ held cur' = bs \<and>
           ch_index st' = ch_index st + length ws))"

lemma chunked_stop: "buffer_ok n b \<Longrightarrow> pb_bytes_read b < n \<Longrightarrow> chunked n st (held b) (b, st)"
  by (simp add: chunked_def)

lemma chunked_push:
  assumes "buffer_ok n b" "length (held b) = n"
    and "chunked n (st\<lparr>ch_work := ch_work st @ [HashPiece (ch_index st) b], ch_index := ch_index st + 1,
      ch_checkouts := c\<rparr>) bs out"
  shows "chunked n st (held b @ bs) out"
proof -
  obtain cur' st' where out: "out = (cur', st')" by (cases out)
  with assms(3) obtain ws where ws: "ch_work st' = (ch_work st @ [HashPiece (ch_index st) b]) @ ws"
    "numbered n (ch_index st + 1) ws" "list_all (\<lambda>w. length (work_bytes w) = n) ws"
    "concat (map work_bytes ws) @ held cur' = bs" "ch_index st' = ch_index st + 1 + length ws"
    by (auto simp: chunked_def)
  with assms out show ?thesis
    by (auto simp: chunked_def intro!: exI [of _ "HashPiece (ch_index st) b # ws"])
qed

lemma read_region_ok:
  assumes "pool_ok n pool" "buffer_ok n cur" "pb_bytes_read cur < n" "\<forall>i. rd_fault region i = None"
  shows "\<exists>out. read_region pool region cur st = Ok out \<and> chunked n st (held cur @ rd_data region) out"
  using assms
proof (induction pool region cur st rule: read_region.induct)
  case (1 pool region cur st)
  obtain k r b where w: "write_bytes region cur = Ok (k, r, b)" "k = 0 \<longrightarrow> rd_data region = [] \<or> pb_bytes_read cur = n"
    using write_bytes_total [OF "1.prems"(2,4)] by metis
  note b = write_bytes_ok [OF "1.prems"(2) w(1)]
  have len: "length (held b) = pb_bytes_read cur + k" using b(3) "1.prems"(2,3) by (simp add: held_def buffer_ok_def)
  have whole: "is_whole b \<longleftrightarrow> length (held b) = n" "\<not> is_whole b \<Longrightarrow> pb_bytes_read b < n"
    using b(1) by (auto simp: is_whole_def held_def buffer_ok_def)
  have pool: "buffer_ok n (pool i)" "held (pool i) = []" "pb_bytes_read (pool i) < n" for i
    using "1.prems" by (auto simp: pool_ok_def buffer_ok_def held_def)
  consider "k = 0" | "k \<noteq> 0" "is_whole b" | "k \<noteq> 0" "\<not> is_whole b" by blast
  then show ?case
  proof cases
    case 1
    with w(2) "1.prems"(3) len whole(1) have "\<not> is_whole b" "rd_data region = []" by auto
    moreover have "rd_data r = []" using write_bytes_shrinks [OF w(1)] \<open>rd_data region = []\<close> by simp
    ultimately show ?thesis
      using 1 b chunked_stop [of n b st] whole(2) by (simp add: read_region.simps [of pool region] w)
  next
    case 2
    let ?st = "st\<lparr>ch_work := ch_work st @ [HashPiece (ch_index st) b], ch_index := ch_index st + 1,
        ch_checkouts := ch_checkouts st + 1\<rparr>"
    obtain out where "read_region pool r (pool (ch_checkouts st)) ?st = Ok out" "chunked n ?st (rd_data r) out"
      using "1.IH" [OF w(1) refl refl _ refl, of "pool (ch_checkouts st)" ?st] 2 b(4) "1.prems" pool by auto
    moreover from this have "chunked n st (held cur @ rd_data region) out"
      using chunked_push [OF b(1)] whole(1) 2 b(2) by metis
    ultimately show ?thesis using 2 by (simp add: read_region.simps [of pool region] w)
  next
    case 3
    then show ?thesis
      using "1.IH" [OF w(1) refl refl _ refl, of b st] whole(2) b "1.prems"
      by (simp add: read_region.simps [of pool region] w)
  qed
qed

text \<open>The chunker has read \<open>bs\<close> in all, from readers only.\<close>

definition fed :: "nat \<Rightarrow> bytes \<Rightarrow> Chunker \<Rightarrow> bool" where
  "fed n bs st \<longleftrightarrow> ch_pieces st = [] \<and> numbered n 0 (ch_work st) \<and> ch_index st = length (ch_work st) \<and>
     list_all (\<lambda>w. length (work_bytes w) = n) (ch_work st) \<and>
     pred_option (\<lambda>b. buffer_ok n b \<and> pb_bytes_read b < n) (ch_buffer st) \<and>
     concat (map work_bytes (ch_work st)) @ (case ch_buffer st of None \<Rightarrow> [] | Some b \<Rightarrow> held b) = bs"

lemma fed_chunked:
  assumes "fed n bs st" "chunked n st' cs (cur, st'')" "ch_work st' = ch_work st" "ch_index st' = ch_index st"
    "ch_pieces st' = ch_pieces st" "cs = (case ch_buffer st of None \<Rightarrow> [] | Some b \<Rightarrow> held b) @ ds"
  shows "fed n (bs @ ds) (st''\<lparr>ch_buffer := Some cur\<rparr>)"
  using assms by (auto simp: fed_def chunked_def numbered_append)

lemma chunk_access_fed:
  assumes "pool_ok n pool" "0 < n" "fed n bs st" "\<forall>i. rd_fault r i = None"
  shows "\<exists>st'. chunk_access pool (Compute r) st = Ok st' \<and> fed n (bs @ rd_data r) st'"
proof (cases "ch_buffer st")
  case None
  have "buffer_ok n (pool k)" "held (pool k) = []" "pb_bytes_read (pool k) < n" for k
    using assms(1,2) by (auto simp: pool_ok_def buffer_ok_def held_def)
  then obtain cur st'' where "read_region pool r (pool (ch_checkouts st)) (st\<lparr>ch_checkouts := ch_checkouts st + 1\<rparr>) = Ok (cur, st'')"
    "chunked n (st\<lparr>ch_checkouts := ch_checkouts st + 1\<rparr>) (rd_data r) (cur, st'')"
    using read_region_ok [OF assms(1) _ _ assms(4), of "pool (ch_checkouts st)" "st\<lparr>ch_checkouts := ch_checkouts st + 1\<rparr>"]
    by (metis append_Nil surj_pair)
  with fed_chunked [OF assms(3) this(2)] None show ?thesis by (simp add: chunk_access_def)
next
  case (Some b)
  then have "buffer_ok n b" "pb_bytes_read b < n" using assms(3) by (auto simp: fed_def)
  then obtain cur st'' where "read_region pool r b (st\<lparr>ch_buffer := None\<rparr>) = Ok (cur, st'')"
    "chunked n (st\<lparr>ch_buffer := None\<rparr>) (held b @ rd_data r) (cur, st'')"
    using read_region_ok [OF assms(1) _ _ assms(4), of b "st\<lparr>ch_buffer := None\<rparr>"] by (metis surj_pair)
  with fed_chunked [OF assms(3) this(2)] Some show ?thesis by (simp add: chunk_access_def)
qed

lemma chunk_all_fed:
  assumes "pool_ok n pool" "0 < n" "fed n bs st" "\<forall>r \<in> set rs. \<forall>i. rd_fault r i = None"
  shows "\<exists>st'. chunk_all pool (map Compute rs) st = Ok st' \<and> fed n (bs @ concat (map rd_data rs)) st'"
  using assms(3,4)
proof (induction rs arbitrary: bs st)
  case (Cons r rs)
  obtain st' where "chunk_access pool (Compute r) st = Ok st'" "fed n (bs @ rd_data r) st'"
    using chunk_access_fed [OF assms(1,2) Cons.prems(1), of r] Cons.prems(2) by auto
  with Cons.IH [OF this(2)] Cons.prems(2) show ?case by auto
qed simp

lemma chunks_pieces:
  "list_all (\<lambda>x. length x = n) xs \<Longrightarrow> 0 < n \<Longrightarrow> length y < n \<Longrightarrow>
   chunks n (concat xs @ y) = xs @ (if y = [] then [] else [y])"
proof (induction xs)
  case Nil
  then show ?case by (cases y) auto
next
  case (Cons x xs)
  then show ?case by (simp add: chunks_append)
qed

lemma push_partial_chunks:
  assumes "fed n bs st" "0 < n"
  shows "map work_bytes (ch_work (push_partial st)) = chunks n bs" "ch_pieces (push_partial st) = []"
    "numbered n 0 (ch_work (push_partial st))"
proof -
  let ?ws = "ch_work st" and ?y = "case ch_buffer st of None \<Rightarrow> [] | Some b \<Rightarrow> held b"
  have "list_all (\<lambda>x. length x = n) (map work_bytes ?ws)" "length ?y < n"
    using assms by (auto simp: fed_def list_all_iff held_def buffer_ok_def split: option.splits)
  moreover have "bs = concat (map work_bytes ?ws) @ ?y" using assms(1) by (auto simp: fed_def)
  ultimately have "chunks n bs = map work_bytes ?ws @ (if ?y = [] then [] else [?y])"
    using assms(2) by (simp only: chunks_pieces)
  then show "map work_bytes (ch_work (push_partial st)) = chunks n bs" "ch_pieces (push_partial st) = []"
    "numbered n 0 (ch_work (push_partial st))"
    using assms by (auto simp: push_partial_def fed_def buffer_is_empty_def held_def buffer_ok_def numbered_append
        split: option.splits)
qed

lemma master_work_chunks:
  assumes "pool_ok n pool" "0 < n" "access_pieces acc = (map Compute rs, Ok ())" "\<forall>r \<in> set rs. \<forall>i. rd_fault r i = None"
  shows "\<exists>ws. master_work pool acc = Ok ([], ws) \<and> numbered n 0 ws \<and>
    map work_bytes ws = chunks n (concat (map rd_data rs))"
proof -
  have "fed n [] Chunker_new" by (simp add: fed_def Chunker_new_def)
  from chunk_all_fed [OF assms(1,2) this assms(4)] obtain st where
    "chunk_all pool (map Compute rs) Chunker_new = Ok st" "fed n (concat (map rd_data rs)) st" by auto
  with push_partial_chunks [OF this(2) assms(2)] assms(3) show ?thesis
    by (auto simp: master_work_def Let_def)
qed

end
