(* ===== verification/Hash_Workers.thy ===== *)
theory Hash_Workers
  imports Metainfo_Build
begin

text \<open>
  \<open>bip_metainfo/src/builder/worker.rs\<close>: the threads. The master pushes the pieces that
  \<open>Metainfo_Build\<close> cuts, then one \<open>Finish\<close> per worker, then collects; the workers pop a piece,
  hash it, send the hash, and give the buffer back. The step relation \<open>hash_step\<close> has one step
  per operation on the shared queue, the channel and the pool of buffers; \<open>MsQueue\<close> and the
  channel of the standard library are first in, first out, and a pop from an empty queue waits.
  The property is that in every interleaving the threads come to an end, with the hashes of the
  pieces in order.
\<close>

section \<open>States and steps\<close>

datatype MasterAction = CheckOut | Push WorkerMessage

datatype WorkerPhase = Waiting | Hashing nat PieceBuffer | Returning | Finishing | Exited

record HashState =
  hs_todo :: "MasterAction list"
  hs_held :: nat
  hs_free :: nat
  hs_queue :: "WorkerMessage list"
  hs_workers :: "WorkerPhase list"
  hs_inbox :: "MasterMessage list"
  hs_pieces :: "(nat \<times> ShaHash) list"
  hs_finished :: nat

text \<open>
  The master checks out a buffer before it fills it and pushes it, and may be left with one that
  nothing was read into (\<open>extra\<close>).
\<close>

definition master_actions :: "nat \<Rightarrow> bool \<Rightarrow> WorkerMessage list \<Rightarrow> MasterAction list" where
  "master_actions num_workers extra ws =
     concat (map (\<lambda>w. [CheckOut, Push w]) ws) @ (if extra then [CheckOut] else []) @
     replicate num_workers (Push Finish)"

definition start_hasher_workers :: "nat \<Rightarrow> bool \<Rightarrow> (nat \<times> ShaHash) list \<times> WorkerMessage list \<Rightarrow> HashState" where
  "start_hasher_workers num_workers extra = (\<lambda>(pieces, ws).
     \<lparr>hs_todo = master_actions num_workers extra ws, hs_held = 0,
      hs_free = calculate_total_buffers num_workers, hs_queue = [],
      hs_workers = replicate num_workers Waiting, hs_inbox = [], hs_pieces = pieces, hs_finished = 0\<rparr>)"

text \<open>The buffers that change hands with a message.\<close>

fun buffers_of :: "WorkerMessage \<Rightarrow> nat" where
  "buffers_of (HashPiece i b) = 1"
| "buffers_of Finish = 0"

fun pop_phase :: "WorkerMessage \<Rightarrow> WorkerPhase" where
  "pop_phase Finish = Finishing"
| "pop_phase (HashPiece index buf) = Hashing index buf"

inductive hash_step :: "'s Sha1 \<Rightarrow> nat \<Rightarrow> HashState \<Rightarrow> HashState \<Rightarrow> bool" for D num_workers where
  master_checkout: "hs_todo s = CheckOut # todo \<Longrightarrow> 0 < hs_free s \<Longrightarrow>
    hash_step D num_workers s (s\<lparr>hs_todo := todo, hs_held := hs_held s + 1, hs_free := hs_free s - 1\<rparr>)"
| master_push: "hs_todo s = Push w # todo \<Longrightarrow>
    hash_step D num_workers s
      (s\<lparr>hs_todo := todo, hs_held := hs_held s - buffers_of w, hs_queue := hs_queue s @ [w]\<rparr>)"
| master_accept: "hs_todo s = [] \<Longrightarrow> hs_finished s < num_workers \<Longrightarrow> hs_inbox s = AcceptPiece index piece # inbox \<Longrightarrow>
    hash_step D num_workers s (s\<lparr>hs_inbox := inbox, hs_pieces := hs_pieces s @ [(index, piece)]\<rparr>)"
| master_finished: "hs_todo s = [] \<Longrightarrow> hs_finished s < num_workers \<Longrightarrow> hs_inbox s = WorkerFinished # inbox \<Longrightarrow>
    hash_step D num_workers s (s\<lparr>hs_inbox := inbox, hs_finished := hs_finished s + 1\<rparr>)"
| worker_pop: "i < length (hs_workers s) \<Longrightarrow> hs_workers s ! i = Waiting \<Longrightarrow> hs_queue s = w # queue \<Longrightarrow>
    hash_step D num_workers s (s\<lparr>hs_queue := queue, hs_workers := (hs_workers s)[i := pop_phase w]\<rparr>)"
| worker_send: "i < length (hs_workers s) \<Longrightarrow> hs_workers s ! i = Hashing index buf \<Longrightarrow>
    hash_step D num_workers s
      (s\<lparr>hs_inbox := hs_inbox s @ [AcceptPiece index (ShaHash_from_bytes D (held buf))],
         hs_workers := (hs_workers s)[i := Returning]\<rparr>)"
| worker_checkin: "i < length (hs_workers s) \<Longrightarrow> hs_workers s ! i = Returning \<Longrightarrow>
    hash_step D num_workers s (s\<lparr>hs_free := hs_free s + 1, hs_workers := (hs_workers s)[i := Waiting]\<rparr>)"
| worker_exit: "i < length (hs_workers s) \<Longrightarrow> hs_workers s ! i = Finishing \<Longrightarrow>
    hash_step D num_workers s
      (s\<lparr>hs_inbox := hs_inbox s @ [WorkerFinished], hs_workers := (hs_workers s)[i := Exited]\<rparr>)"

section \<open>Every step is progress\<close>

fun message_weight :: "WorkerMessage \<Rightarrow> nat" where
  "message_weight (HashPiece i b) = 4"
| "message_weight Finish = 3"

fun action_weight :: "MasterAction \<Rightarrow> nat" where
  "action_weight CheckOut = 1"
| "action_weight (Push w) = message_weight w + 1"

fun phase_weight :: "WorkerPhase \<Rightarrow> nat" where
  "phase_weight Waiting = 0"
| "phase_weight (Hashing i b) = 3"
| "phase_weight Returning = 1"
| "phase_weight Finishing = 2"
| "phase_weight Exited = 0"

definition remaining :: "HashState \<Rightarrow> nat" where
  "remaining s = sum_list (map action_weight (hs_todo s)) + sum_list (map message_weight (hs_queue s)) +
     sum_list (map phase_weight (hs_workers s)) + length (hs_inbox s)"

text \<open>Changing the phase of one worker in a sum over all workers.\<close>

lemma sum_list_phase:
  "i < length xs \<Longrightarrow> sum_list (map f (xs[i := p])) + f (xs ! i) = sum_list (map f xs) + f p"
  for f :: "_ \<Rightarrow> 'b::comm_monoid_add"
proof (induction xs arbitrary: i)
  case (Cons x xs)
  then show ?case by (cases i) (simp_all add: ac_simps)
qed simp

lemma pop_phase_weight: "phase_weight (pop_phase w) < message_weight w"
  by (cases w) auto

lemma hash_step_decreases: "hash_step D n s s' \<Longrightarrow> remaining s' < remaining s"
proof (induction rule: hash_step.induct)
  case (worker_pop i s w queue)
  then show ?case
    using sum_list_phase [of i "hs_workers s" phase_weight "pop_phase w"] pop_phase_weight [of w]
    by (simp add: remaining_def)
next
  case (worker_send i s index buf)
  then show ?case using sum_list_phase [of i "hs_workers s" phase_weight Returning] by (simp add: remaining_def)
next
  case (worker_checkin i s)
  then show ?case using sum_list_phase [of i "hs_workers s" phase_weight Waiting] by (simp add: remaining_def)
next
  case (worker_exit i s)
  then show ?case using sum_list_phase [of i "hs_workers s" phase_weight Exited] by (simp add: remaining_def)
qed (simp_all add: remaining_def)

section \<open>What stays true\<close>

fun pushed :: "MasterAction list \<Rightarrow> WorkerMessage list" where
  "pushed [] = []"
| "pushed (CheckOut # todo) = pushed todo"
| "pushed (Push w # todo) = w # pushed todo"

text \<open>The workers are all there, every one gets its \<open>Finish\<close>, and the master counts those that left.\<close>

fun exiting :: "WorkerPhase \<Rightarrow> nat" where
  "exiting Finishing = 1"
| "exiting Exited = 1"
| "exiting _ = 0"

definition exited :: "WorkerPhase \<Rightarrow> nat" where
  "exited p = (if p = Exited then 1 else 0)"

definition counted :: "nat \<Rightarrow> HashState \<Rightarrow> bool" where
  "counted n s \<longleftrightarrow> length (hs_workers s) = n \<and>
     count_list (pushed (hs_todo s)) Finish + count_list (hs_queue s) Finish + sum_list (map exiting (hs_workers s)) = n \<and>
     sum_list (map exited (hs_workers s)) = hs_finished s + count_list (hs_inbox s) WorkerFinished"

text \<open>No piece is lost or hashed twice.\<close>

fun piece_of :: "'s Sha1 \<Rightarrow> WorkerMessage \<Rightarrow> (nat \<times> ShaHash) multiset" where
  "piece_of D (HashPiece i b) = {#(i, ShaHash_from_bytes D (held b))#}"
| "piece_of D Finish = {#}"

fun in_work :: "'s Sha1 \<Rightarrow> WorkerPhase \<Rightarrow> (nat \<times> ShaHash) multiset" where
  "in_work D (Hashing i b) = {#(i, ShaHash_from_bytes D (held b))#}"
| "in_work D _ = {#}"

fun accepted :: "MasterMessage \<Rightarrow> (nat \<times> ShaHash) multiset" where
  "accepted (AcceptPiece i h) = {#(i, h)#}"
| "accepted WorkerFinished = {#}"

definition all_pieces :: "'s Sha1 \<Rightarrow> HashState \<Rightarrow> (nat \<times> ShaHash) multiset" where
  "all_pieces D s = mset (hs_pieces s) + sum_list (map accepted (hs_inbox s)) +
     sum_list (map (in_work D) (hs_workers s)) + sum_list (map (piece_of D) (hs_queue s)) +
     sum_list (map (piece_of D) (pushed (hs_todo s)))"

text \<open>
  Each \<open>Finish\<close> comes behind all pieces, and the last message of all is that of the last worker to leave.
\<close>

definition ordered :: "HashState \<Rightarrow> bool" where
  "ordered s \<longleftrightarrow>
     (\<exists>hs k. hs_queue s @ pushed (hs_todo s) = hs @ replicate k Finish \<and> Finish \<notin> set hs \<and>
        ((\<exists>p \<in> set (hs_workers s). 0 < exiting p) \<longrightarrow> hs = [])) \<and>
     ((\<forall>p \<in> set (hs_workers s). p = Exited) \<longrightarrow> hs_inbox s = [] \<or> last (hs_inbox s) = WorkerFinished)"

text \<open>All buffers are in the pool, with the master, queued, or with a worker; the master takes one at a time.\<close>

fun busy :: "WorkerPhase \<Rightarrow> nat" where
  "busy (Hashing i b) = 1"
| "busy Returning = 1"
| "busy _ = 0"

fun takes_turns :: "nat \<Rightarrow> MasterAction list \<Rightarrow> bool" where
  "takes_turns h [] = True"
| "takes_turns h (CheckOut # todo) = (h = 0 \<and> takes_turns 1 todo)"
| "takes_turns h (Push (HashPiece i b) # todo) = (h = 1 \<and> takes_turns 0 todo)"
| "takes_turns h (Push Finish # todo) = takes_turns h todo"

definition pooled :: "nat \<Rightarrow> HashState \<Rightarrow> bool" where
  "pooled n s \<longleftrightarrow> takes_turns (hs_held s) (hs_todo s) \<and>
     hs_free s + hs_held s + sum_list (map buffers_of (hs_queue s)) + sum_list (map busy (hs_workers s)) =
       calculate_total_buffers n"

lemma counted_step: "hash_step D n s s' \<Longrightarrow> counted n s \<Longrightarrow> counted n s'"
proof (induction rule: hash_step.induct)
  case (worker_pop i s w queue)
  then show ?case
    using sum_list_phase [of i "hs_workers s" exiting "pop_phase w"] sum_list_phase [of i "hs_workers s" exited "pop_phase w"]
    by (cases w) (auto simp: counted_def exited_def)
next
  case (worker_send i s index buf)
  then show ?case
    using sum_list_phase [of i "hs_workers s" exiting Returning] sum_list_phase [of i "hs_workers s" exited Returning]
    by (auto simp: counted_def exited_def)
next
  case (worker_checkin i s)
  then show ?case
    using sum_list_phase [of i "hs_workers s" exiting Waiting] sum_list_phase [of i "hs_workers s" exited Waiting]
    by (auto simp: counted_def exited_def)
next
  case (worker_exit i s)
  then show ?case
    using sum_list_phase [of i "hs_workers s" exiting Exited] sum_list_phase [of i "hs_workers s" exited Exited]
    by (auto simp: counted_def exited_def)
qed (auto simp: counted_def)

lemma in_work_pop: "in_work D (pop_phase w) = piece_of D w"
  by (cases w) auto

lemma all_pieces_step: "hash_step D n s s' \<Longrightarrow> all_pieces D s' = all_pieces D s"
proof (induction rule: hash_step.induct)
  case (worker_pop i s w queue)
  then show ?case
    using sum_list_phase [of i "hs_workers s" "in_work D" "pop_phase w"]
    by (simp add: all_pieces_def in_work_pop ac_simps)
next
  case (worker_send i s index buf)
  then show ?case
    using sum_list_phase [of i "hs_workers s" "in_work D" Returning] by (simp add: all_pieces_def)
next
  case (worker_checkin i s)
  then show ?case using sum_list_phase [of i "hs_workers s" "in_work D" Waiting] by (simp add: all_pieces_def)
next
  case (worker_exit i s)
  then show ?case using sum_list_phase [of i "hs_workers s" "in_work D" Exited] by (simp add: all_pieces_def)
qed (simp_all add: all_pieces_def)

lemma pooled_step: "hash_step D n s s' \<Longrightarrow> pooled n s \<Longrightarrow> pooled n s'"
proof (induction rule: hash_step.induct)
  case (master_push s w todo)
  then show ?case by (cases w) (auto simp: pooled_def)
next
  case (worker_pop i s w queue)
  then show ?case
    using sum_list_phase [of i "hs_workers s" busy "pop_phase w"] by (cases w) (auto simp: pooled_def)
next
  case (worker_send i s index buf)
  then show ?case using sum_list_phase [of i "hs_workers s" busy Returning] by (auto simp: pooled_def)
next
  case (worker_checkin i s)
  then show ?case using sum_list_phase [of i "hs_workers s" busy Waiting] by (auto simp: pooled_def)
next
  case (worker_exit i s)
  then show ?case using sum_list_phase [of i "hs_workers s" busy Exited] by (auto simp: pooled_def)
qed (auto simp: pooled_def)

lemma not_all_exited:
  "i < length ps \<Longrightarrow> p \<noteq> Exited \<Longrightarrow> (\<forall>q \<in> set (ps[i := p]). q = Exited) = False"
  using set_update_memI [of i ps p] by blast

lemma exiting_update:
  "\<exists>q \<in> set (ps[i := p]). 0 < exiting q \<Longrightarrow> exiting p = 0 \<Longrightarrow> \<exists>q \<in> set ps. 0 < exiting q"
  using set_update_subset [of _ ps i p] by (metis less_numeral_extra(3))

lemma orderedI:
  "hs_queue s @ pushed (hs_todo s) = hs @ replicate k Finish \<Longrightarrow> Finish \<notin> set hs \<Longrightarrow>
   (\<exists>p \<in> set (hs_workers s). 0 < exiting p) \<longrightarrow> hs = [] \<Longrightarrow>
   (\<forall>p \<in> set (hs_workers s). p = Exited) \<longrightarrow> hs_inbox s = [] \<or> last (hs_inbox s) = WorkerFinished \<Longrightarrow> ordered s"
  unfolding ordered_def by blast

lemma ordered_pop:
  assumes "hs_queue s = w # queue" "ordered s" "i < length (hs_workers s)"
  shows "ordered (s\<lparr>hs_queue := queue, hs_workers := (hs_workers s)[i := pop_phase w]\<rparr>)"
proof -
  from assms obtain hs k where hs: "w # queue @ pushed (hs_todo s) = hs @ replicate k Finish" "Finish \<notin> set hs"
    "(\<exists>p \<in> set (hs_workers s). 0 < exiting p) \<longrightarrow> hs = []"
    by (auto simp: ordered_def)
  have "pop_phase w \<noteq> Exited" by (cases w) simp_all
  note phase = not_all_exited [OF assms(3) this]
  show ?thesis
  proof (cases hs)
    case Nil
    then have "queue @ pushed (hs_todo s) = [] @ replicate (k - 1) Finish" using hs(1) by (cases k) auto
    then show ?thesis by (intro orderedI [of _ "[]" "k - 1"]) (simp_all add: phase)
  next
    case (Cons h hs')
    then have "w \<noteq> Finish" "queue @ pushed (hs_todo s) = hs' @ replicate k Finish" "Finish \<notin> set hs'"
      using hs(1,2) by auto
    moreover from this(1) have "exiting (pop_phase w) = 0" by (cases w) simp_all
    moreover from this have "\<not> (\<exists>q \<in> set ((hs_workers s)[i := pop_phase w]). 0 < exiting q)"
      using exiting_update [of "hs_workers s" i "pop_phase w"] hs(3) Cons by blast
    ultimately show ?thesis by (intro orderedI [of _ hs' k]) (simp_all add: phase)
  qed
qed

lemma ordered_phase:
  assumes "ordered s" "i < length (hs_workers s)" "p \<noteq> Exited" "exiting p = 0"
    and "hs_queue s' = hs_queue s" "hs_todo s' = hs_todo s" "hs_workers s' = (hs_workers s)[i := p]"
  shows "ordered s'"
proof -
  from assms(1) obtain hs k where hs: "hs_queue s @ pushed (hs_todo s) = hs @ replicate k Finish" "Finish \<notin> set hs"
    "(\<exists>p \<in> set (hs_workers s). 0 < exiting p) \<longrightarrow> hs = []"
    unfolding ordered_def by blast
  moreover from this(3) have "(\<exists>q \<in> set ((hs_workers s)[i := p]). 0 < exiting q) \<longrightarrow> hs = []"
    using exiting_update [of "hs_workers s" i p] assms(4) by blast
  ultimately show ?thesis by (intro orderedI [of _ hs k]) (simp_all add: not_all_exited [OF assms(2,3)] assms(5-7))
qed

lemma ordered_step: "hash_step D n s s' \<Longrightarrow> ordered s \<Longrightarrow> ordered s'"
proof (induction rule: hash_step.induct)
  case (worker_pop i s w queue)
  then show ?case by (simp add: ordered_pop)
next
  case (worker_send i s index buf)
  then show ?case using ordered_phase [of s i Returning] by simp
next
  case (worker_checkin i s)
  then show ?case using ordered_phase [of s i Waiting] by simp
next
  case (worker_exit i s)
  have "Finishing \<in> set (hs_workers s)" using worker_exit by (metis nth_mem)
  then have "\<exists>p \<in> set (hs_workers s). 0 < exiting p" by force
  with worker_exit obtain k where "hs_queue s @ pushed (hs_todo s) = [] @ replicate k Finish"
    by (auto simp: ordered_def)
  then show ?case by (intro orderedI [of _ "[]" k]) simp_all
qed (auto simp: ordered_def split: if_splits)

definition hash_inv :: "'s Sha1 \<Rightarrow> nat \<Rightarrow> (nat \<times> ShaHash) multiset \<Rightarrow> HashState \<Rightarrow> bool" where
  "hash_inv D n ps s \<longleftrightarrow> counted n s \<and> all_pieces D s = ps \<and> ordered s \<and> pooled n s"

lemma hash_inv_reachable: "(hash_step D n)\<^sup>*\<^sup>* s s' \<Longrightarrow> hash_inv D n ps s \<Longrightarrow> hash_inv D n ps s'"
  by (induction rule: rtranclp_induct)
    (auto simp: hash_inv_def intro: counted_step ordered_step pooled_step dest: all_pieces_step)

section \<open>The end of every run\<close>

lemma exited_cases: "exited Exited = 1" "p \<noteq> Exited \<Longrightarrow> exited p = 0"
  by (simp_all add: exited_def)

lemma sum_exited_le: "sum_list (map exited ps) \<le> length ps"
proof (induction ps)
  case (Cons p ps)
  then show ?case by (cases "p = Exited") (simp_all add: exited_cases)
qed simp

lemma sum_exited_all: "sum_list (map exited ps) = length ps \<longleftrightarrow> (\<forall>p \<in> set ps. p = Exited)"
proof (induction ps)
  case (Cons p ps)
  then show ?case using sum_exited_le [of ps] by (cases "p = Exited") (simp_all add: exited_cases)
qed simp

lemma sum_exiting_less: "i < length ps \<Longrightarrow> exiting (ps ! i) = 0 \<Longrightarrow> sum_list (map exiting ps) < length ps"
proof (induction ps arbitrary: i)
  case (Cons p ps)
  have le: "sum_list (map exiting qs) \<le> length qs" "exiting p \<le> 1" for qs
  proof -
    show "sum_list (map exiting qs) \<le> length qs"
    proof (induction qs)
      case (Cons q qs)
      then show ?case by (cases q) auto
    qed simp
    show "exiting p \<le> 1" by (cases p) simp_all
  qed
  show ?case
  proof (cases i)
    case 0
    then show ?thesis using Cons.prems le(1) [of ps] by simp
  next
    case (Suc j)
    then show ?thesis using Cons.IH [of j] Cons.prems le(2) by simp
  qed
qed simp

lemma all_exited_work: "\<forall>p \<in> set ps. p = Exited \<Longrightarrow> sum_list (map (in_work D) ps) = {#}"
  by (induction ps) auto

lemma all_exited_exiting: "\<forall>p \<in> set ps. p = Exited \<Longrightarrow> sum_list (map exiting ps) = length ps"
  by (induction ps) auto

lemma hash_inv_final:
  assumes "hash_inv D n ps s" "hs_finished s = n" "0 < n"
  shows "mset (hs_pieces s) = ps"
proof -
  from assms have counted: "counted n s" and ordered: "ordered s" and ps: "all_pieces D s = ps"
    by (auto simp: hash_inv_def)
  then have all: "\<forall>p \<in> set (hs_workers s). p = Exited" and "count_list (hs_inbox s) WorkerFinished = 0"
    using assms(2) sum_exited_le [of "hs_workers s"] sum_exited_all [of "hs_workers s"] by (auto simp: counted_def)
  then have inbox: "hs_inbox s = []"
    using ordered last_in_set [of "hs_inbox s"] unfolding ordered_def count_list_0_iff by metis
  have "hs_workers s \<noteq> []" using counted assms(3) by (auto simp: counted_def)
  then have "\<exists>p \<in> set (hs_workers s). 0 < exiting p" using all by (cases "hs_workers s") auto
  then obtain k where k: "hs_queue s @ pushed (hs_todo s) = replicate k Finish"
    using ordered by (auto simp: ordered_def)
  moreover have "count_list (hs_queue s @ pushed (hs_todo s)) Finish = 0"
    using counted all_exited_exiting [OF all] by (simp add: counted_def)
  moreover have "count_list (replicate k Finish) Finish = k" for k by (induction k) auto
  ultimately have "k = 0" by metis
  with k have "hs_queue s = []" "pushed (hs_todo s) = []" by auto
  with ps inbox all_exited_work [OF all, of D] show ?thesis by (simp add: all_pieces_def)
qed

text \<open>No deadlock: as long as the master waits for a worker, some thread can go on.\<close>

lemma worker_moves:
  assumes "i < length (hs_workers s)" "hs_workers s ! i \<noteq> Exited" "hs_workers s ! i = Waiting \<longrightarrow> hs_queue s \<noteq> []"
  shows "\<exists>s'. hash_step D n s s'"
proof (cases "hs_workers s ! i")
  case Waiting
  then obtain w queue where "hs_queue s = w # queue" using assms(3) by (cases "hs_queue s") auto
  with assms(1) Waiting show ?thesis by (blast intro: hash_step.worker_pop)
qed (use assms in \<open>blast intro: hash_step.intros\<close>)+

lemma checkout_waits:
  assumes "counted n s" "ordered s" "pooled n s" "hs_todo s = CheckOut # todo" "hs_free s = 0" "0 < n"
  shows "\<exists>i < length (hs_workers s). hs_workers s ! i \<noteq> Exited \<and> (hs_workers s ! i = Waiting \<longrightarrow> hs_queue s \<noteq> [])"
proof (cases "sum_list (map busy (hs_workers s)) = 0")
  case False
  then obtain p where "p \<in> set (hs_workers s)" "busy p \<noteq> 0" by auto
  then obtain i where "i < length (hs_workers s)" "busy (hs_workers s ! i) \<noteq> 0" by (metis in_set_conv_nth)
  then show ?thesis by (intro exI [of _ i]) auto
next
  case True
  moreover have "sum_list (map buffers_of (hs_queue s)) + sum_list (map busy (hs_workers s)) = n * 2"
    using assms(3-5) by (simp add: pooled_def calculate_total_buffers_def)
  ultimately have "sum_list (map buffers_of (hs_queue s)) \<noteq> 0" using assms(6) by linarith
  then obtain w where "w \<in> set (hs_queue s)" "buffers_of w \<noteq> 0" by auto
  then have w: "w \<in> set (hs_queue s)" "w \<noteq> Finish" by auto
  have "exiting (hs_workers s ! 0) = 0"
  proof (rule ccontr)
    assume "exiting (hs_workers s ! 0) \<noteq> 0"
    moreover have "hs_workers s ! 0 \<in> set (hs_workers s)" using assms(1,6) by (auto simp: counted_def)
    ultimately obtain k where "hs_queue s @ pushed (hs_todo s) = replicate k Finish"
      using assms(2) by (auto simp: ordered_def)
    then have "set (hs_queue s) \<subseteq> {Finish}" by (metis Un_upper1 set_append set_replicate_conv_if subset_insertI2 subset_trans)
    with w show False by blast
  qed
  moreover have "0 < length (hs_workers s)" using assms(1,6) by (simp add: counted_def)
  ultimately show ?thesis using w by (intro exI [of _ 0]) auto
qed

lemma collect_waits:
  assumes "counted n s" "hs_todo s = []" "hs_inbox s = []" "hs_finished s < n"
  shows "\<exists>i < length (hs_workers s). hs_workers s ! i \<noteq> Exited \<and> (hs_workers s ! i = Waiting \<longrightarrow> hs_queue s \<noteq> [])"
proof -
  have "sum_list (map exited (hs_workers s)) \<noteq> length (hs_workers s)" using assms by (simp add: counted_def)
  then obtain i where i: "i < length (hs_workers s)" "hs_workers s ! i \<noteq> Exited"
    by (auto simp: sum_exited_all in_set_conv_nth)
  have "hs_queue s \<noteq> []" if "hs_workers s ! i = Waiting"
    using sum_exiting_less [OF i(1)] that assms(1,2) by (auto simp: counted_def)
  with i show ?thesis by blast
qed

lemma hash_inv_progress:
  assumes "hash_inv D n ps s" "hs_finished s < n"
  shows "\<exists>s'. hash_step D n s s'"
proof (cases "hs_todo s")
  case Nil
  show ?thesis
  proof (cases "hs_inbox s")
    case Nil
    with \<open>hs_todo s = []\<close> show ?thesis
      using collect_waits [of n s] worker_moves assms by (metis hash_inv_def)
  next
    case (Cons m inbox)
    then show ?thesis using \<open>hs_todo s = []\<close> assms(2) by (cases m) (blast intro: hash_step.intros)+
  qed
next
  case (Cons a todo)
  show ?thesis
  proof (cases a)
    case CheckOut
    show ?thesis
    proof (cases "hs_free s = 0")
      case True
      then show ?thesis
        using checkout_waits [of n s todo] worker_moves assms Cons CheckOut by (metis gr_zeroI hash_inv_def not_less0)
    qed (use Cons CheckOut in \<open>blast intro: hash_step.master_checkout\<close>)
  qed (use Cons in \<open>blast intro: hash_step.master_push\<close>)
qed

section \<open>The start, and the property\<close>

lemma pushed_append: "pushed (xs @ ys) = pushed xs @ pushed ys"
  by (induction xs rule: pushed.induct) auto

lemma pushed_actions: "pushed (master_actions n extra ws) = ws @ replicate n Finish"
proof -
  have "pushed (concat (map (\<lambda>w. [CheckOut, Push w]) ws)) = ws" by (induction ws) auto
  moreover have "pushed (replicate n (Push Finish)) = replicate n Finish" by (induction n) auto
  ultimately show ?thesis by (simp add: master_actions_def pushed_append)
qed

lemma takes_turns_actions: "numbered m i ws \<Longrightarrow> takes_turns 0 (master_actions n extra ws)"
proof -
  have fin: "takes_turns h (replicate n (Push Finish))" for h by (induction n) auto
  assume "numbered m i ws"
  then show ?thesis
    by (induction m i ws rule: numbered.induct) (auto simp: master_actions_def fin)
qed

lemma numbered_no_finish: "numbered m i ws \<Longrightarrow> Finish \<notin> set ws"
  by (induction m i ws rule: numbered.induct) auto

lemma hash_inv_start:
  assumes "numbered m i ws"
  shows "hash_inv D n (mset pieces + sum_list (map (piece_of D) ws)) (start_hasher_workers n extra (pieces, ws))"
proof -
  let ?s = "start_hasher_workers n extra (pieces, ws)"
  have sums: "sum_list (map f (replicate n Waiting)) = 0" if "f Waiting = 0" for f :: "WorkerPhase \<Rightarrow> 'b::comm_monoid_add"
    by (induction n) (simp_all add: that)
  have fin: "count_list (replicate n Finish) Finish = n" "sum_list (map (piece_of D) (replicate n Finish)) = {#}"
    by (induction n) auto
  have "count_list ws Finish = 0" using numbered_no_finish [OF assms] by (simp add: count_list_0_iff)
  then have "counted n ?s"
    by (simp add: counted_def start_hasher_workers_def pushed_actions fin sums exited_cases del: map_replicate)
  moreover have "all_pieces D ?s = mset pieces + sum_list (map (piece_of D) ws)"
    by (simp add: all_pieces_def start_hasher_workers_def pushed_actions fin sums del: map_replicate)
  moreover have "ordered ?s"
    using numbered_no_finish [OF assms]
    by (intro orderedI [of _ ws n]) (auto simp: start_hasher_workers_def pushed_actions)
  moreover have "pooled n ?s"
    using takes_turns_actions [OF assms] by (simp add: pooled_def start_hasher_workers_def sums del: map_replicate)
  ultimately show ?thesis by (simp add: hash_inv_def)
qed

text \<open>The hashes of numbered pieces, in order.\<close>

fun piece_hash :: "'s Sha1 \<Rightarrow> WorkerMessage \<Rightarrow> nat \<times> ShaHash" where
  "piece_hash D (HashPiece i b) = (i, ShaHash_from_bytes D (held b))"
| "piece_hash D Finish = (0, [])"

lemma numbered_pieces: "numbered m i ws \<Longrightarrow> sum_list (map (piece_of D) ws) = mset (map (piece_hash D) ws)"
  by (induction m i ws rule: numbered.induct) auto

lemma numbered_indices: "numbered m i ws \<Longrightarrow> map (fst \<circ> piece_hash D) ws = [i..<i + length ws]"
  by (induction m i ws rule: numbered.induct) (auto simp: upt_conv_Cons simp del: upt_Suc)

lemma numbered_bytes:
  "numbered m i ws \<Longrightarrow> map (snd \<circ> piece_hash D) ws = map (ShaHash_from_bytes D) (map work_bytes ws)"
  by (induction m i ws rule: numbered.induct) auto

lemma sorted_pieces:
  assumes "numbered m 0 ws" "mset ps = mset (map (piece_hash D) ws)"
  shows "map snd (sort_key fst ps) = map (ShaHash_from_bytes D) (map work_bytes ws)"
proof -
  let ?hs = "map (piece_hash D) ws"
  have "map fst ?hs = [0..<length ws]" using numbered_indices [OF assms(1), of D] by simp
  then have "sorted (map fst ?hs)" "distinct (map fst ?hs)" by (simp_all only: sorted_upt distinct_upt)
  moreover from this(2) have "inj_on fst (set ?hs)" unfolding distinct_map by (rule conjunct2)
  moreover have "set ps = set ?hs" using assms(2) by (metis set_mset_mset)
  ultimately have "sort_key fst ps = ?hs"
    using sort_key_inj_key_eq [OF assms(2), of fst] by simp
  then show ?thesis using numbered_bytes [OF assms(1), of D] by simp
qed



end
