(* ===== verification/Metainfo_Builder.thy ===== *)
theory Metainfo_Builder
  imports Hash_Workers
begin

text \<open>
  \<open>bip_metainfo/src/builder/mod.rs\<close>: the builders of torrent files and info dictionaries, the
  choice of the piece length, and \<open>to_bytes\<close> of \<open>metainfo.rs\<close>. The hashes come from the threads
  of \<open>Hash_Workers\<close>. The properties are what is read back from the bytes of a torrent, and the
  bounds on the piece length that is chosen.
\<close>

section \<open>The piece length\<close>

definition ALL_OPT_MAX_PIECE_LENGTH :: nat where "ALL_OPT_MAX_PIECE_LENGTH = 16 * 1024 * 1024"
definition BALANCED_MAX_PIECES_SIZE :: nat where "BALANCED_MAX_PIECES_SIZE = 40000"
definition BALANCED_MIN_PIECE_LENGTH :: nat where "BALANCED_MIN_PIECE_LENGTH = 512 * 1024"
definition FILE_SIZE_MAX_PIECES_SIZE :: nat where "FILE_SIZE_MAX_PIECES_SIZE = 20000"
definition FILE_SIZE_MIN_PIECE_LENGTH :: nat where "FILE_SIZE_MIN_PIECE_LENGTH = 1 * 1024 * 1024"
definition TRANSFER_MAX_PIECES_SIZE :: nat where "TRANSFER_MAX_PIECES_SIZE = 60000"
definition TRANSFER_MIN_PIECE_LENGTH :: nat where "TRANSFER_MIN_PIECE_LENGTH = 1 * 1024"

lemmas piece_length_consts = ALL_OPT_MAX_PIECE_LENGTH_def BALANCED_MAX_PIECES_SIZE_def
  BALANCED_MIN_PIECE_LENGTH_def FILE_SIZE_MAX_PIECES_SIZE_def FILE_SIZE_MIN_PIECE_LENGTH_def
  TRANSFER_MAX_PIECES_SIZE_def TRANSFER_MIN_PIECE_LENGTH_def

datatype PieceLength = OptBalanced | OptFileSize | OptTransfer | CustomLength nat

text \<open>\<open>usize::next_power_of_two\<close>.\<close>

function power_from :: "nat \<Rightarrow> nat \<Rightarrow> nat" where
  "power_from k n = (if n \<le> 2 ^ k then 2 ^ k else power_from (Suc k) n)"
  by auto
termination power_from
  by (relation "measure (\<lambda>(k, n). n - 2 ^ k)") (auto intro: diff_less_mono2)

declare power_from.simps [simp del]

definition next_power_of_two :: "nat \<Rightarrow> nat" where
  "next_power_of_two n = power_from 0 n"

text \<open>
  The division is of floating point numbers, rounded to the nearest integer. Up to \<open>2 ^ 53\<close> bytes
  the quotient by 1000, 2000 or 3000 is at least \<open>1 / 6000\<close> away from the next half, more than
  the rounding error; above, the result is the largest piece length whatever the rounding. So
  the model divides exactly.
\<close>

definition calculate_piece_length :: "nat \<Rightarrow> nat \<Rightarrow> nat \<Rightarrow> nat" where
  "calculate_piece_length total_file_size max_pieces_size min_piece_length =
     (let num_pieces = max_pieces_size div SHA_HASH_LEN;
          piece_length = (2 * total_file_size + num_pieces) div (2 * num_pieces);
          pot_piece_length = next_power_of_two piece_length
      in case (pot_piece_length > min_piece_length, pot_piece_length < ALL_OPT_MAX_PIECE_LENGTH) of
           (True, True) \<Rightarrow> pot_piece_length
         | (False, _) \<Rightarrow> min_piece_length
         | (_, False) \<Rightarrow> ALL_OPT_MAX_PIECE_LENGTH)"

fun determine_piece_length :: "nat \<Rightarrow> PieceLength \<Rightarrow> nat" where
  "determine_piece_length total_file_size (CustomLength len) = len"
| "determine_piece_length total_file_size OptBalanced =
     calculate_piece_length total_file_size BALANCED_MAX_PIECES_SIZE BALANCED_MIN_PIECE_LENGTH"
| "determine_piece_length total_file_size OptFileSize =
     calculate_piece_length total_file_size FILE_SIZE_MAX_PIECES_SIZE FILE_SIZE_MIN_PIECE_LENGTH"
| "determine_piece_length total_file_size OptTransfer =
     calculate_piece_length total_file_size TRANSFER_MAX_PIECES_SIZE TRANSFER_MIN_PIECE_LENGTH"

section \<open>The builders\<close>

record InfoBuilder =
  ib_info :: BencodeMut
  ib_piece_length :: PieceLength

record MetainfoBuilder =
  mb_root :: BencodeMut
  mb_info :: InfoBuilder

definition InfoBuilder_new :: InfoBuilder where
  "InfoBuilder_new = \<lparr>ib_info = new_dict, ib_piece_length = OptBalanced\<rparr>"

definition MetainfoBuilder_new :: MetainfoBuilder where
  "MetainfoBuilder_new = \<lparr>mb_root = new_dict, mb_info = InfoBuilder_new\<rparr>"

text \<open>
  The flag is inserted; \<open>insert\<close> gives back the old value, and where there was none \<open>or_else\<close> goes
  on with the removal.
\<close>

definition info_set_private_flag :: "bool option \<Rightarrow> InfoBuilder \<Rightarrow> (InfoBuilder, 'e) res" where
  "info_set_private_flag opt_is_private self =
     try_res (unwrap (dict_mut (\<lambda>dict_access.
       case (case opt_is_private of
               Some is_private \<Rightarrow> btree_dict_insert dict_access PRIVATE_KEY (new_int (if is_private then 1 else 0))
             | None \<Rightarrow> (dict_access, None)) of
         (dict_access, Some old) \<Rightarrow> dict_access
       | (dict_access, None) \<Rightarrow> fst (btree_dict_remove dict_access PRIVATE_KEY)) (ib_info self)))
     (\<lambda>info. Ok (self\<lparr>ib_info := info\<rparr>))"

definition info_set_piece_length :: "PieceLength \<Rightarrow> InfoBuilder \<Rightarrow> InfoBuilder" where
  "info_set_piece_length piece_length self = self\<lparr>ib_piece_length := piece_length\<rparr>"

text \<open>What the setters of the root dictionary share: insert a value, or remove the key.\<close>

definition set_root :: "bytes \<Rightarrow> BencodeMut option \<Rightarrow> MetainfoBuilder \<Rightarrow> (MetainfoBuilder, 'e) res" where
  "set_root key opt_value self =
     try_res (unwrap (dict_mut (\<lambda>dict_access.
       case opt_value of
         Some v \<Rightarrow> fst (btree_dict_insert dict_access key v)
       | None \<Rightarrow> fst (btree_dict_remove dict_access key)) (mb_root self)))
     (\<lambda>root. Ok (self\<lparr>mb_root := root\<rparr>))"

definition trackers_list :: "bytes list list \<Rightarrow> BencodeMut" where
  "trackers_list groups = MutList (map (\<lambda>group. MutList (map new_bytes group)) groups)"

definition set_trackers :: "bytes list list option \<Rightarrow> MetainfoBuilder \<Rightarrow> (MetainfoBuilder, 'e) res" where
  "set_trackers opt_trackers self = set_root ANNOUNCE_LIST_KEY (map_option trackers_list opt_trackers) self"

definition set_main_tracker :: "bytes option \<Rightarrow> MetainfoBuilder \<Rightarrow> (MetainfoBuilder, 'e) res" where
  "set_main_tracker opt_tracker_url self = set_root ANNOUNCE_URL_KEY (map_option new_bytes opt_tracker_url) self"

definition set_creation_date :: "i64 option \<Rightarrow> MetainfoBuilder \<Rightarrow> (MetainfoBuilder, 'e) res" where
  "set_creation_date opt_secs_epoch self = set_root CREATION_DATE_KEY (map_option new_int opt_secs_epoch) self"

definition set_comment :: "bytes option \<Rightarrow> MetainfoBuilder \<Rightarrow> (MetainfoBuilder, 'e) res" where
  "set_comment opt_comment self = set_root COMMENT_KEY (map_option new_bytes opt_comment) self"

definition set_created_by :: "bytes option \<Rightarrow> MetainfoBuilder \<Rightarrow> (MetainfoBuilder, 'e) res" where
  "set_created_by opt_created_by self = set_root CREATED_BY_KEY (map_option new_bytes opt_created_by) self"

definition set_private_flag :: "bool option \<Rightarrow> MetainfoBuilder \<Rightarrow> (MetainfoBuilder, 'e) res" where
  "set_private_flag opt_is_private self =
     try_res (info_set_private_flag opt_is_private (mb_info self)) (\<lambda>info. Ok (self\<lparr>mb_info := info\<rparr>))"

definition set_piece_length :: "PieceLength \<Rightarrow> MetainfoBuilder \<Rightarrow> MetainfoBuilder" where
  "set_piece_length piece_length self =
     self\<lparr>mb_info := info_set_piece_length piece_length (mb_info self)\<rparr>"

text \<open>The getters read the root dictionary through \<open>parse.rs\<close>, at the type of the mutable bencode.\<close>

definition root_lookup :: "(BencodeMut \<Rightarrow> 'a option) \<Rightarrow> bytes \<Rightarrow> MetainfoBuilder \<Rightarrow> ('a option, 'e) res" where
  "root_lookup convert key self =
     try_res (unwrap (mut_dict (mb_root self))) (\<lambda>dict_access.
     Ok (case btree_lookup dict_access key of Some b \<Rightarrow> convert b | None \<Rightarrow> None))"

definition get_trackers :: "MetainfoBuilder \<Rightarrow> (bytes list list option, 'e) res" where
  "get_trackers self =
     try_res (root_lookup mut_list ANNOUNCE_LIST_KEY self) (\<lambda>l.
     Ok (map_option (\<lambda>list. map (List.map_filter mut_str) (List.map_filter mut_list list)) l))"

definition get_main_tracker :: "MetainfoBuilder \<Rightarrow> (bytes option, 'e) res" where
  "get_main_tracker self = root_lookup mut_str ANNOUNCE_URL_KEY self"

definition get_creation_date :: "MetainfoBuilder \<Rightarrow> (i64 option, 'e) res" where
  "get_creation_date self = root_lookup mut_int CREATION_DATE_KEY self"

definition get_comment :: "MetainfoBuilder \<Rightarrow> (bytes option, 'e) res" where
  "get_comment self = root_lookup mut_str COMMENT_KEY self"

definition get_created_by :: "MetainfoBuilder \<Rightarrow> (bytes option, 'e) res" where
  "get_created_by self = root_lookup mut_str CREATED_BY_KEY self"

section \<open>Building\<close>

definition map_pieces_list :: "ShaHash list \<Rightarrow> bytes" where
  "map_pieces_list pieces = fold (\<lambda>piece concated_pieces. concated_pieces @ piece) pieces []"

text \<open>
  What \<open>worker::start_hasher_workers\<close> returns: the hashes that were given and those of the work,
  sorted by index. For data that is read the threads end with it (\<open>hash_workers_correct\<close>); hashes
  that are given make no work.
\<close>

definition hashed_pieces :: "'s Sha1 \<Rightarrow> (nat \<Rightarrow> PieceBuffer) \<Rightarrow> 'io Accessor \<Rightarrow> ((nat \<times> ShaHash) list, 'io) res" where
  "hashed_pieces D pool accessor =
     try_res (master_work pool accessor) (\<lambda>(pieces, ws). Ok (sort_key fst (pieces @ map (piece_hash D) ws)))"

text \<open>The files of a multi file torrent.\<close>

definition file_dict :: "u64 \<times> bytes list \<Rightarrow> BencodeMut" where
  "file_dict = (\<lambda>(len, path). MutDict (fold (\<lambda>(key, val) map. fst (btree_dict_insert map key val))
     [(LENGTH_KEY, new_int len), (PATH_KEY, MutList (map new_bytes path))] []))"

definition insert_files :: "bytes \<Rightarrow> (u64 \<times> bytes list) list \<Rightarrow> (bytes, BencodeMut) btree_map \<Rightarrow> (bytes, BencodeMut) btree_map" where
  "insert_files name files_info info_access =
     (let bencode_files = MutList (map file_dict files_info);
          info_access = fst (btree_dict_insert info_access NAME_KEY (new_bytes name))
      in fst (btree_dict_insert info_access FILES_KEY bencode_files))"

definition fill_info ::
  "path option \<Rightarrow> (u64 \<times> bytes list) list \<Rightarrow> nat \<Rightarrow> bytes \<Rightarrow> (bytes, BencodeMut) btree_map
    \<Rightarrow> ((bytes, BencodeMut) btree_map, 'e) res" where
  "fill_info access_dir files_info piece_length pieces info_access =
     (let info_access = fst (btree_dict_insert info_access PIECE_LENGTH_KEY (new_int (of_nat piece_length)));
          info_access = fst (btree_dict_insert info_access PIECES_KEY (new_bytes pieces))
      in case (access_dir, length files_info > 1) of
           (Some directory, _) \<Rightarrow> Ok (insert_files directory files_info info_access)
         | (None, True) \<Rightarrow> Ok (insert_files [] files_info info_access)
         | (None, False) \<Rightarrow>
             (case files_info of
                [] \<Rightarrow> Panic
              | (len, path) # _ \<Rightarrow>
                  (let single_file_name = fold (\<lambda>name_component name. name @ name_component) path [];
                       info_access = fst (btree_dict_insert info_access LENGTH_KEY (new_int len))
                   in Ok (fst (btree_dict_insert info_access NAME_KEY (new_bytes single_file_name))))))"

definition build_with_accessor ::
  "'s Sha1 \<Rightarrow> (nat \<Rightarrow> nat \<Rightarrow> PieceBuffer) \<Rightarrow> nat \<Rightarrow> 'io Accessor \<Rightarrow> BencodeMut option \<Rightarrow> BencodeMut
    \<Rightarrow> PieceLength \<Rightarrow> (bytes, 'io ParseError) res" where
  "build_with_accessor D pool threads accessor opt_root info piece_length =
     (if threads = 0 then Panic
      else try_res (map_err ParseIo (snd (access_metadata accessor))) (\<lambda>_.
        let files_info = map (\<lambda>(len, path). (len, map to_string_lossy (path_iter path))) (fst (access_metadata accessor));
            total_files_len = fold (\<lambda>nex acc. acc + fst nex) files_info 0;
            piece_length = determine_piece_length (unat total_files_len) piece_length
        in try_res (map_err ParseIo (hashed_pieces D (pool piece_length) accessor)) (\<lambda>pieces_list.
           let pieces = map_pieces_list (map snd pieces_list);
               access_dir = map_option to_string_lossy (access_directory accessor)
           in try_res (unwrap (mut_dict info)) (\<lambda>info_access.
              try_res (fill_info access_dir files_info piece_length pieces info_access) (\<lambda>info_access.
              let info = MutDict info_access
              in case opt_root of
                   Some root \<Rightarrow>
                     try_res (unwrap (dict_mut (\<lambda>d. fst (btree_dict_insert d INFO_KEY info)) root)) (\<lambda>root.
                     Ok (BencodeMut_encode root))
                 | None \<Rightarrow> Ok (BencodeMut_encode info))))))"

definition InfoBuilder_build ::
  "'s Sha1 \<Rightarrow> (nat \<Rightarrow> nat \<Rightarrow> PieceBuffer) \<Rightarrow> nat \<Rightarrow> 'io Accessor \<Rightarrow> InfoBuilder \<Rightarrow> (bytes, 'io ParseError) res" where
  "InfoBuilder_build D pool threads accessor self =
     build_with_accessor D pool threads accessor None (ib_info self) (ib_piece_length self)"

definition MetainfoBuilder_build ::
  "'s Sha1 \<Rightarrow> (nat \<Rightarrow> nat \<Rightarrow> PieceBuffer) \<Rightarrow> nat \<Rightarrow> 'io Accessor \<Rightarrow> MetainfoBuilder \<Rightarrow> (bytes, 'io ParseError) res" where
  "MetainfoBuilder_build D pool threads accessor self =
     build_with_accessor D pool threads accessor (Some (mb_root self)) (ib_info (mb_info self)) (ib_piece_length (mb_info self))"

text \<open>\<open>to_bytes\<close> of \<open>Info\<close> and \<open>Metainfo\<close>; the final \<open>unwrap\<close> panics on an error.\<close>

definition Info_to_bytes :: "'s Sha1 \<Rightarrow> (nat \<Rightarrow> nat \<Rightarrow> PieceBuffer) \<Rightarrow> Info \<Rightarrow> (bytes, unit) res" where
  "Info_to_bytes D pool self =
     try_res (info_set_private_flag (inf_private self) InfoBuilder_new) (\<lambda>b.
     let b = info_set_piece_length (CustomLength (unat (inf_piece_len self))) b
     in unwrap_res (InfoBuilder_build D pool 1 (Info_accessor self :: unit Accessor) b))"

definition Metainfo_to_bytes :: "'s Sha1 \<Rightarrow> (nat \<Rightarrow> nat \<Rightarrow> PieceBuffer) \<Rightarrow> Metainfo \<Rightarrow> (bytes, unit) res" where
  "Metainfo_to_bytes D pool self =
     try_res (set_main_tracker (mi_announce self) MetainfoBuilder_new) (\<lambda>b.
     try_res (set_creation_date (mi_creation_date self) b) (\<lambda>b.
     try_res (set_comment (mi_comment self) b) (\<lambda>b.
     try_res (set_created_by (mi_created_by self) b) (\<lambda>b.
     try_res (set_private_flag (inf_private (mi_info self)) b) (\<lambda>b.
     let b = set_piece_length (CustomLength (unat (inf_piece_len (mi_info self)))) b
     in unwrap_res (MetainfoBuilder_build D pool 1 (Info_accessor (mi_info self) :: unit Accessor) b))))))"

section \<open>What \<open>to_bytes\<close> writes\<close>

lemma btree_remove_insert:
  "btree_inv d \<Longrightarrow> btree_get d k = None \<Longrightarrow> btree_remove k (btree_insert k v d) = d"
proof (induction d)
  case (Cons e d)
  obtain k' v' where e: "e = (k', v')" by (cases e)
  have "btree_remove k d = d" if "k \<notin> fst ` set d" for d :: "('a, 'b) btree_map"
    using that by (induction d) auto
  with Cons show ?case by (auto simp: e btree_get_None)
qed simp

lemma btree_remove_absent: "btree_get d k = None \<Longrightarrow> btree_remove k d = d"
  by (induction d) (auto simp: btree_get_None)

lemma private_flag_removed:
  assumes "btree_inv d" "btree_lookup d PRIVATE_KEY = None" "ib_info b = MutDict d"
  shows "info_set_private_flag p b = Ok b"
  using assms by (cases p)
    (simp_all add: info_set_private_flag_def btree_dict_insert_def btree_dict_remove_def btree_lookup_def
      btree_remove_insert btree_remove_absent del: key_bytes)

lemma private_flag_new: "info_set_private_flag p InfoBuilder_new = Ok InfoBuilder_new"
  by (rule private_flag_removed [of "[]"]) (simp_all add: InfoBuilder_new_def new_dict_def btree_lookup_def btree_get_def)

lemma chunk_all_precomputed:
  "chunk_all pool (map PreComputed hs) st =
   Ok (st\<lparr>ch_pieces := ch_pieces st @ enumerate (ch_index st) hs, ch_index := ch_index st + length hs\<rparr>)"
  by (induction hs arbitrary: st) (simp_all add: chunk_access_def)

lemma hashed_pieces_info: "hashed_pieces D pool (Info_accessor i) = Ok (enumerate 0 (inf_pieces i))"
proof -
  have "sort_key fst (enumerate 0 (inf_pieces i)) = enumerate 0 (inf_pieces i)"
    by (rule sort_key_id_if_sorted) (simp add: map_fst_enumerate)
  then show ?thesis
    by (simp add: hashed_pieces_def master_work_def Info_accessor_def chunk_all_precomputed Chunker_new_def push_partial_def)
qed

lemma map_pieces_list_concat: "map_pieces_list ps = concat ps"
  unfolding map_pieces_list_def by (subst fold_snoc_concat [of _ _ id]) simp_all

text \<open>What is lost on the way: the private flag, and the MD5 sums.\<close>

definition written_info :: "Info \<Rightarrow> Info" where
  "written_info i = i\<lparr>inf_private := None, inf_files := map (\<lambda>f. f\<lparr>fl_md5sum := None\<rparr>) (inf_files i)\<rparr>"

definition name_plain :: "Info \<Rightarrow> bool" where
  "name_plain i \<longleftrightarrow> (inf_dir i = None \<longrightarrow> list_all (\<lambda>f. plain_name (fl_path f)) (inf_files i))"

lemma file_dict_written:
  "file_wf f \<Longrightarrow> file_dict (fl_len f, map to_string_lossy (path_iter (fl_path f))) = file_bencode (f\<lparr>fl_md5sum := None\<rparr>)"
proof -
  assume "file_wf f"
  then have "map to_string_lossy (path_iter (fl_path f)) = path_iter (fl_path f)"
    by (auto simp: file_wf_def str_wf_def list_all_iff to_string_lossy_id intro!: map_idI)
  then show ?thesis by (simp add: file_dict_def file_bencode_def btree_dict_insert_def new_int_def new_bytes_def)
qed

definition info_entries :: "Info \<Rightarrow> (bytes, BencodeMut) btree_map" where
  "info_entries i = files_entries (written_info i) @
     [(PIECE_LENGTH_KEY, MutInt (inf_piece_len i)), (PIECES_KEY, MutBytes (concat (inf_pieces i)))]"

lemma info_bencode_written: "info_bencode (written_info i) = MutDict (info_entries i)"
  by (simp add: info_bencode_def info_entries_def written_info_def)

lemma fill_info_written:
  assumes "info_wf i" "name_plain i"
  shows "fill_info (map_option to_string_lossy (inf_dir i))
      (map (\<lambda>(len, path). (len, map to_string_lossy (path_iter path))) (map (\<lambda>f. (fl_len f, fl_path f)) (inf_files i)))
      (unat (inf_piece_len i)) (concat (inf_pieces i)) [] = Ok (info_entries i)"
proof (cases "inf_dir i")
  case None
  then obtain f where f: "inf_files i = [f]" "str_wf (fl_path f)" "plain_name (fl_path f)"
    using assms by (auto simp: info_wf_def name_plain_def length_Suc_conv)
  then have "map to_string_lossy (path_iter (fl_path f)) = [fl_path f]"
    by (simp add: path_iter_plain str_wf_def to_string_lossy_id)
  with None f show ?thesis
    by (simp add: fill_info_def btree_dict_insert_def info_entries_def files_entries_def written_info_def
        new_int_def new_bytes_def)
next
  case (Some d)
  then have d: "to_string_lossy d = d" "list_all file_wf (inf_files i)"
    using assms by (auto simp: info_wf_def str_wf_def to_string_lossy_id)
  from d(2) have "map (\<lambda>f. file_dict (fl_len f, map to_string_lossy (path_iter (fl_path f)))) (inf_files i) =
      map (\<lambda>f. file_bencode (f\<lparr>fl_md5sum := None\<rparr>)) (inf_files i)"
    by (auto simp: list_all_iff file_dict_written)
  with Some d(1) show ?thesis
    by (simp add: fill_info_def insert_files_def btree_dict_insert_def info_entries_def files_entries_def
        written_info_def new_int_def new_bytes_def comp_def)
qed

lemma build_info_written:
  assumes "info_wf i" "name_plain i" "0 < threads"
  shows "build_with_accessor D pool threads (Info_accessor i) opt_root new_dict (CustomLength (unat (inf_piece_len i))) =
    (case opt_root of
       Some root \<Rightarrow> try_res (unwrap (dict_mut (\<lambda>d. btree_insert INFO_KEY (info_bencode (written_info i)) d) root))
         (\<lambda>root. Ok (BencodeMut_encode root))
     | None \<Rightarrow> Ok (BencodeMut_encode (info_bencode (written_info i))))"
proof -
  have acc: "access_metadata (Info_accessor i) = (map (\<lambda>f. (fl_len f, fl_path f)) (inf_files i), Ok ())"
    "access_directory (Info_accessor i) = inf_dir i"
    by (simp_all add: Info_accessor_def)
  show ?thesis
    unfolding build_with_accessor_def acc fst_conv snd_conv hashed_pieces_info Let_def
    using assms(3) by (simp add: fill_info_written [OF assms(1,2), simplified] map_pieces_list_concat new_dict_def
        info_bencode_written btree_dict_insert_def del: key_bytes split: option.split)
qed

text \<open>A torrent without its announce list and encoding.\<close>

definition written_metainfo :: "Metainfo \<Rightarrow> Metainfo" where
  "written_metainfo m = m\<lparr>mi_announce_list := None, mi_encoding := None, mi_info := written_info (mi_info m)\<rparr>"

lemma root_written:
  "\<exists>b. try_res (set_main_tracker (mi_announce m) MetainfoBuilder_new) (\<lambda>b.
      try_res (set_creation_date (mi_creation_date m) b) (\<lambda>b.
      try_res (set_comment (mi_comment m) b) (\<lambda>b. set_created_by (mi_created_by m) b))) = (Ok b :: (_, unit) res) \<and>
    mb_info b = InfoBuilder_new \<and>
    (\<exists>d. mb_root b = MutDict d \<and> MutDict (btree_insert INFO_KEY (info_bencode i) d) =
       metainfo_bencode (m\<lparr>mi_announce_list := None, mi_encoding := None, mi_info := i\<rparr>))"
  by (cases "mi_announce m"; cases "mi_creation_date m"; cases "mi_comment m"; cases "mi_created_by m")
    (simp_all add: set_main_tracker_def set_creation_date_def set_comment_def set_created_by_def set_root_def
      MetainfoBuilder_new_def new_dict_def metainfo_bencode_def btree_dict_insert_def btree_dict_remove_def
      new_int_def new_bytes_def)

lemma wf_written: "info_wf i \<Longrightarrow> info_wf (written_info i)"
  by (cases "inf_dir i") (auto simp: info_wf_def written_info_def file_wf_def list_all_iff length_Suc_conv)

lemma metainfo_written:
  assumes "info_wf (mi_info m)" "name_plain (mi_info m)"
  shows "Metainfo_to_bytes D pool m = Ok (BencodeMut_encode (metainfo_bencode (written_metainfo m)))"
proof -
  obtain b d where b: "try_res (set_main_tracker (mi_announce m) MetainfoBuilder_new) (\<lambda>b.
      try_res (set_creation_date (mi_creation_date m) b) (\<lambda>b.
      try_res (set_comment (mi_comment m) b) (\<lambda>b. set_created_by (mi_created_by m) b))) = (Ok b :: (_, unit) res)"
    and d: "mb_info b = InfoBuilder_new" "mb_root b = MutDict d"
      "MutDict (btree_insert INFO_KEY (info_bencode (written_info (mi_info m))) d) = metainfo_bencode (written_metainfo m)"
    using root_written [of m "written_info (mi_info m)"] by (auto simp: written_metainfo_def)
  have "set_private_flag (inf_private (mi_info m)) b = (Ok b :: (_, unit) res)"
    using d(1) by (cases b) (simp add: set_private_flag_def private_flag_new)
  with b d show ?thesis
    by (auto simp: Metainfo_to_bytes_def set_piece_length_def info_set_piece_length_def MetainfoBuilder_build_def
        InfoBuilder_new_def build_info_written [OF assms] res_simps simp del: key_bytes)
qed



text \<open>
  The private flag never gets into a torrent: set on a builder that has none, it is removed
  again, so that nothing built from a new builder has the key.
\<close>

theorem private_flag_lost:
  assumes "btree_inv d" "btree_lookup d PRIVATE_KEY = None" "ib_info b = MutDict d"
  shows "info_set_private_flag (Some True) b = Ok b"
  using assms by (rule private_flag_removed)

theorem private_flag_lost_witness: "info_set_private_flag (Some True) InfoBuilder_new = Ok InfoBuilder_new"
  by (rule private_flag_lost [of "[]"]) (simp_all add: InfoBuilder_new_def new_dict_def btree_lookup_def btree_get_def)

section \<open>Bounds on the piece length\<close>

lemma power_from_bounds:
  "\<exists>j \<ge> k. power_from k n = 2 ^ j \<and> n \<le> 2 ^ j \<and> (j = k \<or> 2 ^ j < 2 * n)"
proof (induction k n rule: power_from.induct)
  case (1 k n)
  show ?case
  proof (cases "n \<le> 2 ^ k")
    case True
    then show ?thesis by (auto simp: power_from.simps [of k n])
  next
    case False
    with 1 obtain j where j: "Suc k \<le> j" "power_from (Suc k) n = 2 ^ j" "n \<le> 2 ^ j" "j = Suc k \<or> 2 ^ j < 2 * n"
      by blast
    then have "2 ^ j < 2 * n" using False by auto
    with j False show ?thesis by (auto simp: power_from.simps [of k n] intro!: exI [of _ j])
  qed
qed

lemma next_power_of_two_power: "next_power_of_two (2 ^ k) = 2 ^ k"
proof -
  obtain j where j: "next_power_of_two (2 ^ k) = 2 ^ j" "(2::nat) ^ k \<le> 2 ^ j" "j = 0 \<or> 2 ^ j < 2 * (2::nat) ^ k"
    using power_from_bounds [of 0 "2 ^ k"] unfolding next_power_of_two_def by blast
  then have "k \<le> j" "j < Suc k" using power_strict_increasing_iff [of "2::nat" j "Suc k"] by auto
  with j(1) show ?thesis by (simp add: le_less_Suc_eq)
qed

lemma calculate_piece_length_bounds:
  assumes "0 < num" "num = max_pieces_size div SHA_HASH_LEN" "\<exists>k. min_len = 2 ^ k" "min_len \<le> ALL_OPT_MAX_PIECE_LENGTH"
    and r: "r = calculate_piece_length tot max_pieces_size min_len"
  shows "(\<exists>k. r = 2 ^ k) \<and> min_len \<le> r \<and> r \<le> ALL_OPT_MAX_PIECE_LENGTH \<and>
    (r < ALL_OPT_MAX_PIECE_LENGTH \<longrightarrow> 2 * tot < num * (2 * r + 1))"
proof -
  let ?pl = "(2 * tot + num) div (2 * num)"
  obtain j where j: "next_power_of_two ?pl = 2 ^ j" "?pl \<le> 2 ^ j"
    using power_from_bounds [of 0 ?pl] unfolding next_power_of_two_def by blast
  have "ALL_OPT_MAX_PIECE_LENGTH = 2 ^ 24" by (simp add: piece_length_consts)
  then have max: "\<exists>k. ALL_OPT_MAX_PIECE_LENGTH = 2 ^ k" by blast
  have r_eq: "r = (if 2 ^ j > min_len then if 2 ^ j < ALL_OPT_MAX_PIECE_LENGTH then 2 ^ j else ALL_OPT_MAX_PIECE_LENGTH
      else min_len)"
    unfolding r calculate_piece_length_def Let_def assms(2) [symmetric] j(1) by simp
  then have "?pl \<le> r" if "r < ALL_OPT_MAX_PIECE_LENGTH" using j(2) that by (auto split: if_splits)
  moreover have "2 * tot + num < 2 * num * (?pl + 1)"
    using assms(1) div_less_iff_less_mult [of "2 * num" "2 * tot + num" "?pl + 1"] by (simp add: mult.commute)
  ultimately have "2 * tot + num < 2 * num * (r + 1)" if "r < ALL_OPT_MAX_PIECE_LENGTH"
    using that by (meson add_le_mono1 le_refl less_le_trans mult_le_mono)
  then have "2 * tot < num * (2 * r + 1)" if "r < ALL_OPT_MAX_PIECE_LENGTH"
    using that by (simp add: algebra_simps)
  moreover have "\<exists>k. r = 2 ^ k" "min_len \<le> r" "r \<le> ALL_OPT_MAX_PIECE_LENGTH"
    using assms(3,4) max r_eq by auto
  ultimately show ?thesis by blast
qed

text \<open>The number of hashes a strategy allows, and its smallest piece length.\<close>

fun strategy_limits :: "PieceLength \<Rightarrow> (nat \<times> nat) option" where
  "strategy_limits (CustomLength n) = None"
| "strategy_limits OptBalanced = Some (BALANCED_MAX_PIECES_SIZE div SHA_HASH_LEN, BALANCED_MIN_PIECE_LENGTH)"
| "strategy_limits OptFileSize = Some (FILE_SIZE_MAX_PIECES_SIZE div SHA_HASH_LEN, FILE_SIZE_MIN_PIECE_LENGTH)"
| "strategy_limits OptTransfer = Some (TRANSFER_MAX_PIECES_SIZE div SHA_HASH_LEN, TRANSFER_MIN_PIECE_LENGTH)"

text \<open>
  C34. The piece length that a strategy chooses is a power of two between its minimum and 16 MiB,
  and below 16 MiB it keeps the number of pieces down to that of the strategy up to one half
  byte per piece. That half byte can make a piece too many: for 2000 MiB and one byte the
  balanced strategy chooses pieces of 1 MiB, whose 2001 hashes are more than the 40000 bytes it
  allows.
\<close>

theorem piece_length_bounds:
  assumes "strategy_limits strategy = Some (num, min_len)" "r = determine_piece_length tot strategy"
  shows "(\<exists>k. r = 2 ^ k) \<and> min_len \<le> r \<and> r \<le> 16 * 1024 * 1024 \<and>
    (r < 16 * 1024 * 1024 \<longrightarrow> 2 * tot < num * (2 * r + 1)) \<and>
    (let t = 2000 * 1024 * 1024 + 1; l = determine_piece_length t OptBalanced
     in SHA_HASH_LEN * ((t + l - 1) div l) > BALANCED_MAX_PIECES_SIZE)"
proof -
  have pow: "\<exists>k. BALANCED_MIN_PIECE_LENGTH = 2 ^ k" "\<exists>k. FILE_SIZE_MIN_PIECE_LENGTH = 2 ^ k"
    "\<exists>k. TRANSFER_MIN_PIECE_LENGTH = 2 ^ k"
    by (rule exI [of _ 19], simp add: piece_length_consts, rule exI [of _ 20], simp add: piece_length_consts,
        rule exI [of _ 10], simp add: piece_length_consts)
  have "(\<exists>k. r = 2 ^ k) \<and> min_len \<le> r \<and> r \<le> ALL_OPT_MAX_PIECE_LENGTH \<and>
    (r < ALL_OPT_MAX_PIECE_LENGTH \<longrightarrow> 2 * tot < num * (2 * r + 1))"
  proof (cases strategy)
    case OptBalanced
    then show ?thesis
      using assms calculate_piece_length_bounds [OF _ refl pow(1) _ refl, of BALANCED_MAX_PIECES_SIZE tot]
      by (simp add: piece_length_consts SHA_HASH_LEN_def)
  next
    case OptFileSize
    then show ?thesis
      using assms calculate_piece_length_bounds [OF _ refl pow(2) _ refl, of FILE_SIZE_MAX_PIECES_SIZE tot]
      by (simp add: piece_length_consts SHA_HASH_LEN_def)
  next
    case OptTransfer
    then show ?thesis
      using assms calculate_piece_length_bounds [OF _ refl pow(3) _ refl, of TRANSFER_MAX_PIECES_SIZE tot]
      by (simp add: piece_length_consts SHA_HASH_LEN_def)
  qed (use assms in simp)
  moreover have "determine_piece_length (2000 * 1024 * 1024 + 1) OptBalanced = 1024 * 1024"
  proof -
    have "next_power_of_two 1048576 = 1048576" using next_power_of_two_power [of 20] by simp
    then show ?thesis by (simp add: calculate_piece_length_def piece_length_consts SHA_HASH_LEN_def)
  qed
  ultimately show ?thesis by (simp add: piece_length_consts SHA_HASH_LEN_def)
qed

theorem piece_length_bounds_witness:
  "\<exists>k. determine_piece_length 10 OptTransfer = 2 ^ k \<and> 1024 \<le> determine_piece_length 10 OptTransfer"
  using piece_length_bounds [of OptTransfer 3000 1024 _ 10] by (auto simp: piece_length_consts SHA_HASH_LEN_def)

end
