(* ===== verification/Disk_Fs.thy ===== *)
theory Disk_Fs
  imports Metainfo
begin

text \<open>
  The file systems of \<open>bip_disk\<close>: the trait \<open>FileSystem\<close>, the native file system and the cache of
  file handles (\<open>disk/fs/mod.rs\<close>, \<open>disk/fs/native.rs\<close>, \<open>disk/fs/cache/file_handle.rs\<close>). The
  locale \<open>file_system\<close> states what the rest of the crate relies on; it holds for the native file
  system over the calls of \<open>std::fs\<close>, and the cache keeps it.
\<close>

section \<open>Calls that change a state\<close>

text \<open>The outcome of a call and the state it leaves, also when it fails.\<close>

type_synonym ('s, 'a, 'e) outcome = "('a, 'e) res \<times> 's"

text \<open>\<open>try!\<close> for such calls.\<close>

definition act_try :: "('s, 'a, 'e) outcome \<Rightarrow> ('a \<Rightarrow> 's \<Rightarrow> ('s, 'b, 'e) outcome) \<Rightarrow> ('s, 'b, 'e) outcome" where
  "act_try m f =
     (case m of (Ok a, s) \<Rightarrow> f a s | (Err e, s) \<Rightarrow> (Err e, s) | (Panic, s) \<Rightarrow> (Panic, s))"

lemma act_try_simps [simp]:
  "act_try (Ok a, s) f = f a s" "act_try (Err e, s) f = (Err e, s)" "act_try (Panic, s) f = (Panic, s)"
  by (simp_all add: act_try_def)

lemma act_try_split:
  "P (act_try m f) \<longleftrightarrow>
     (\<forall>a s. m = (Ok a, s) \<longrightarrow> P (f a s)) \<and> (\<forall>e s. m = (Err e, s) \<longrightarrow> P (Err e, s)) \<and>
     (\<forall>s. m = (Panic, s) \<longrightarrow> P (Panic, s))"
  by (cases m; cases "fst m") (auto simp: act_try_def)

lemma act_try_assoc: "act_try (act_try m f) g = act_try m (\<lambda>a s. act_try (f a s) g)"
  by (cases m; cases "fst m") (auto simp: act_try_def)

section \<open>Bytes written at an offset\<close>

text \<open>Writing behind the end of a file fills the gap with zeroes; writing nothing changes nothing.\<close>

definition write_at :: "bytes \<Rightarrow> nat \<Rightarrow> bytes \<Rightarrow> bytes" where
  "write_at b off d =
     (if d = [] then b else take off b @ replicate (off - length b) 0 @ d @ drop (off + length d) b)"

lemma write_at_Nil [simp]: "write_at b off [] = b"
  by (simp add: write_at_def)

lemma length_write_at: "off + length d \<le> length b \<Longrightarrow> length (write_at b off d) = length b"
  by (simp add: write_at_def)

lemma write_at_inside:
  "off + length d \<le> length b \<Longrightarrow> write_at b off d = take off b @ d @ drop (off + length d) b"
  by (simp add: write_at_def)

lemma nth_write_at:
  "off + length d \<le> length b \<Longrightarrow> i < length b \<Longrightarrow>
     write_at b off d ! i = (if off \<le> i \<and> i < off + length d then d ! (i - off) else b ! i)"
  by (auto simp: write_at_inside nth_append)

section \<open>The trait\<close>

text \<open>
  \<open>FileSystem\<close>: \<open>read_file\<close> gets the length of the buffer and returns the bytes it put to its
  front, whose number is what the source returns.
\<close>

record ('s, 'f, 'io) FileSystem =
  fs_open :: "path \<Rightarrow> 's \<Rightarrow> ('s, 'f, 'io) outcome"
  fs_sync :: "path \<Rightarrow> 's \<Rightarrow> ('s, unit, 'io) outcome"
  fs_size :: "'f \<Rightarrow> 's \<Rightarrow> ('s, u64, 'io) outcome"
  fs_read :: "'f \<Rightarrow> u64 \<Rightarrow> nat \<Rightarrow> 's \<Rightarrow> ('s, bytes, 'io) outcome"
  fs_write :: "'f \<Rightarrow> u64 \<Rightarrow> bytes \<Rightarrow> 's \<Rightarrow> ('s, nat, 'io) outcome"

text \<open>
  What a file system promises: \<open>key\<close> is the file a path leads to, \<open>content\<close> what is in it,
  \<open>handle\<close> the file of an open handle, \<open>ok\<close> an invariant of the state. In a \<open>calm\<close> state
  no call fails, reads or writes less than it was asked to, provided the path is \<open>usable\<close>.
  A call that fails leaves the contents as they are.
\<close>

locale file_system =
  fixes fs :: "('s, 'f, 'io) FileSystem" and key :: "path \<Rightarrow> 'k" and content :: "'s \<Rightarrow> 'k \<Rightarrow> bytes option"
    and handle :: "'s \<Rightarrow> 'f \<Rightarrow> 'k option" and ok :: "'s \<Rightarrow> bool" and calm :: "'s \<Rightarrow> bool"
    and usable :: "path \<Rightarrow> bool"
  assumes key_iter: "path_iter p = path_iter q \<Longrightarrow> key p = key q"
    and handle_content: "ok s \<Longrightarrow> handle s f = Some k \<Longrightarrow> content s k \<noteq> None"
    and open_keeps: "ok s \<Longrightarrow> fs_open fs p s = (ro, s') \<Longrightarrow>
      ok s' \<and> (calm s \<longrightarrow> calm s') \<and> handle s \<subseteq>\<^sub>m handle s'"
    and open_law: "ok s \<Longrightarrow> fs_open fs p s = (ro, s') \<Longrightarrow>
      (case ro of
         Ok f \<Rightarrow> handle s' f = Some (key p) \<and>
           content s' = (content s)(key p \<mapsto> (case content s (key p) of None \<Rightarrow> [] | Some b \<Rightarrow> b))
       | Err e \<Rightarrow> content s' = content s
       | Panic \<Rightarrow> False)"
    and open_calm: "ok s \<Longrightarrow> calm s \<Longrightarrow> usable p \<Longrightarrow> \<exists>f s'. fs_open fs p s = (Ok f, s')"
    and sync_law: "ok s \<Longrightarrow> fs_sync fs p s = (ry, s') \<Longrightarrow>
      ok s' \<and> (calm s \<longrightarrow> calm s' \<and> ry = Ok ()) \<and> handle s \<subseteq>\<^sub>m handle s' \<and> content s' = content s \<and> ry \<noteq> Panic"
    and size_keeps: "ok s \<Longrightarrow> handle s f = Some k \<Longrightarrow> fs_size fs f s = (rz, s') \<Longrightarrow>
      ok s' \<and> (calm s \<longrightarrow> calm s') \<and> handle s \<subseteq>\<^sub>m handle s' \<and> content s' = content s"
    and size_law: "ok s \<Longrightarrow> handle s f = Some k \<Longrightarrow> fs_size fs f s = (rz, s') \<Longrightarrow>
      (\<forall>n. rz = Ok n \<longrightarrow> n = of_nat (length (the (content s k)))) \<and> rz \<noteq> Panic \<and> (calm s \<longrightarrow> (\<forall>e. rz \<noteq> Err e))"
    and read_keeps: "ok s \<Longrightarrow> handle s f = Some k \<Longrightarrow> fs_read fs f off n s = (rr, s') \<Longrightarrow>
      ok s' \<and> (calm s \<longrightarrow> calm s') \<and> handle s \<subseteq>\<^sub>m handle s' \<and> content s' = content s"
    and read_law: "ok s \<Longrightarrow> handle s f = Some k \<Longrightarrow> fs_read fs f off n s = (rr, s') \<Longrightarrow>
      (\<forall>d. rr = Ok d \<longrightarrow> (\<exists>m. d = take m (take n (drop (unat off) (the (content s k)))))) \<and> rr \<noteq> Panic \<and>
      (calm s \<longrightarrow> rr = Ok (take n (drop (unat off) (the (content s k)))))"
    and write_keeps: "ok s \<Longrightarrow> handle s f = Some k \<Longrightarrow> fs_write fs f off d s = (rw, s') \<Longrightarrow>
      ok s' \<and> (calm s \<longrightarrow> calm s') \<and> handle s \<subseteq>\<^sub>m handle s'"
    and write_law: "ok s \<Longrightarrow> handle s f = Some k \<Longrightarrow> fs_write fs f off d s = (rw, s') \<Longrightarrow>
      (case rw of
         Ok m \<Rightarrow> m \<le> length d \<and>
           content s' = (content s)(k \<mapsto> write_at (the (content s k)) (unat off) (take m d))
       | Err e \<Rightarrow> content s' = content s
       | Panic \<Rightarrow> False) \<and> (calm s \<longrightarrow> rw = Ok (length d))"

section \<open>The calls of the operating system\<close>

text \<open>
  \<open>std::fs\<close> over files named by \<open>'k\<close>. An open file has a name and a position. What becomes of a
  call is decided from outside: it works, it fails with an error, or it reads or writes at
  most so many bytes. Handles are not closed, which no later call depends on.
\<close>

datatype IoError = OsError nat | InvalidInput string

datatype fate = Works | Fails nat | Short nat

record 'k Os =
  os_files :: "'k \<rightharpoonup> bytes"
  os_open :: "nat \<rightharpoonup> 'k \<times> nat"
  os_next :: nat
  os_fates :: "nat \<Rightarrow> fate"
  os_calls :: nat

definition os_fate :: "'k Os \<Rightarrow> fate" where
  "os_fate s = os_fates s (os_calls s)"

definition os_tick :: "'k Os \<Rightarrow> 'k Os" where
  "os_tick s = s\<lparr>os_calls := os_calls s + 1\<rparr>"

definition os_call :: "('k Os \<Rightarrow> ('k Os, 'a, IoError) outcome) \<Rightarrow> 'k Os \<Rightarrow> ('k Os, 'a, IoError) outcome" where
  "os_call f s = (case os_fate s of Fails n \<Rightarrow> (Err (OsError n), os_tick s) | _ \<Rightarrow> f s)"

definition os_limit :: "'k Os \<Rightarrow> nat \<Rightarrow> nat" where
  "os_limit s n = (case os_fate s of Short m \<Rightarrow> min m n | _ \<Rightarrow> n)"

definition create_dir_all :: "'k Os \<Rightarrow> ('k Os, unit, IoError) outcome" where
  "create_dir_all = os_call (\<lambda>s. (Ok (), os_tick s))"

text \<open>\<open>OpenOptions\<close> with \<open>read\<close>, \<open>write\<close> and \<open>create\<close>.\<close>

definition open_create :: "'k \<Rightarrow> 'k Os \<Rightarrow> ('k Os, nat, IoError) outcome" where
  "open_create k = os_call (\<lambda>s. (Ok (os_next s), (os_tick s)
     \<lparr>os_files := (os_files s)(k \<mapsto> (case os_files s k of None \<Rightarrow> [] | Some b \<Rightarrow> b)),
      os_open := (os_open s)(os_next s \<mapsto> (k, 0)), os_next := os_next s + 1\<rparr>))"

definition file_data :: "'k Os \<Rightarrow> nat \<Rightarrow> bytes" where
  "file_data s f = the (os_files s (fst (the (os_open s f))))"

definition metadata_len :: "nat \<Rightarrow> 'k Os \<Rightarrow> ('k Os, u64, IoError) outcome" where
  "metadata_len f = os_call (\<lambda>s. (Ok (of_nat (length (file_data s f))), os_tick s))"

definition set_pos :: "nat \<Rightarrow> nat \<Rightarrow> 'k Os \<Rightarrow> 'k Os" where
  "set_pos f off s = s\<lparr>os_open := (os_open s)(f \<mapsto> (fst (the (os_open s f)), off))\<rparr>"

definition seek_start :: "nat \<Rightarrow> u64 \<Rightarrow> 'k Os \<Rightarrow> ('k Os, unit, IoError) outcome" where
  "seek_start f off = os_call (\<lambda>s. (Ok (), set_pos f (unat off) (os_tick s)))"

definition file_read :: "nat \<Rightarrow> nat \<Rightarrow> 'k Os \<Rightarrow> ('k Os, bytes, IoError) outcome" where
  "file_read f n = os_call (\<lambda>s.
     let pos = snd (the (os_open s f)); d = take (os_limit s n) (drop pos (file_data s f))
     in (Ok d, set_pos f (pos + length d) (os_tick s)))"

definition file_write :: "nat \<Rightarrow> bytes \<Rightarrow> 'k Os \<Rightarrow> ('k Os, nat, IoError) outcome" where
  "file_write f buf = os_call (\<lambda>s.
     let pos = snd (the (os_open s f)); d = take (os_limit s (length buf)) buf
     in (Ok (length d), set_pos f (pos + length d) ((os_tick s)
          \<lparr>os_files := (os_files s)(fst (the (os_open s f)) \<mapsto> write_at (file_data s f) pos d)\<rparr>)))"

section \<open>NativeFileSystem\<close>

record NativeFileSystem =
  nf_current_dir :: path

definition combine_user_path :: "path \<Rightarrow> path \<Rightarrow> path" where
  "combine_user_path user_path dir =
     (if path_absolute user_path then user_path else fold (\<lambda>q p. path_push p q) (path_iter user_path) dir)"

text \<open>\<open>real\<close> is the file that the components of a path lead to.\<close>

definition create_new_file :: "(bytes list \<Rightarrow> 'k) \<Rightarrow> path \<Rightarrow> 'k Os \<Rightarrow> ('k Os, nat, IoError) outcome" where
  "create_new_file real p s =
     (if path_has_parent p
      then act_try (create_dir_all s) (\<lambda>_ s. open_create (real (path_iter p)) s)
      else (Err (InvalidInput ''File Path Has No Parent''), s))"

definition native_read :: "nat \<Rightarrow> u64 \<Rightarrow> nat \<Rightarrow> 'k Os \<Rightarrow> ('k Os, bytes, IoError) outcome" where
  "native_read f off n s = act_try (seek_start f off s) (\<lambda>_ s. file_read f n s)"

definition native_write :: "nat \<Rightarrow> u64 \<Rightarrow> bytes \<Rightarrow> 'k Os \<Rightarrow> ('k Os, nat, IoError) outcome" where
  "native_write f off buf s = act_try (seek_start f off s) (\<lambda>_ s. file_write f buf s)"

definition native_fs :: "(bytes list \<Rightarrow> 'k) \<Rightarrow> NativeFileSystem \<Rightarrow> ('k Os, nat, IoError) FileSystem" where
  "native_fs real self =
     \<lparr>fs_open = (\<lambda>p. create_new_file real (combine_user_path p (nf_current_dir self))),
      fs_sync = (\<lambda>p s. (Ok (), s)),
      fs_size = metadata_len,
      fs_read = native_read,
      fs_write = native_write\<rparr>"

subsection \<open>The native file system is a file system\<close>

definition native_key :: "(bytes list \<Rightarrow> 'k) \<Rightarrow> NativeFileSystem \<Rightarrow> path \<Rightarrow> 'k" where
  "native_key real self p = real (path_iter (combine_user_path p (nf_current_dir self)))"

definition native_usable :: "NativeFileSystem \<Rightarrow> path \<Rightarrow> bool" where
  "native_usable self p \<longleftrightarrow> path_has_parent (combine_user_path p (nf_current_dir self))"

definition os_handle :: "'k Os \<Rightarrow> nat \<Rightarrow> 'k option" where
  "os_handle s f = map_option fst (os_open s f)"

definition os_ok :: "'k Os \<Rightarrow> bool" where
  "os_ok s \<longleftrightarrow> (\<forall>f k pos. os_open s f = Some (k, pos) \<longrightarrow> f < os_next s \<and> os_files s k \<noteq> None)"

definition os_calm :: "'k Os \<Rightarrow> bool" where
  "os_calm s \<longleftrightarrow> (\<forall>i \<ge> os_calls s. os_fates s i = Works)"

lemma os_call_cases:
  assumes "os_call g s = (r, s')"
  obtains (fails) n where "r = Err (OsError n)" "s' = os_tick s" "\<not> os_calm s" | (runs) "g s = (r, s')"
proof (cases "os_fate s")
  case (Fails n)
  then have "\<not> os_calm s" by (auto simp: os_calm_def os_fate_def)
  then show ?thesis using assms Fails fails by (auto simp: os_call_def)
qed (use assms runs in \<open>auto simp: os_call_def\<close>)

lemma os_tick_simps [simp]:
  "os_files (os_tick s) = os_files s" "os_open (os_tick s) = os_open s" "os_next (os_tick s) = os_next s"
  "os_ok (os_tick s) = os_ok s" "os_handle (os_tick s) = os_handle s" "file_data (os_tick s) f = file_data s f"
  by (simp_all add: os_tick_def os_ok_def os_handle_def [abs_def] file_data_def)

lemma os_calm_tick [simp]: "os_calm s \<Longrightarrow> os_calm (os_tick s)"
  by (simp add: os_calm_def os_tick_def)

lemma os_calm_update [simp]:
  "os_calm (s\<lparr>os_files := x\<rparr>) = os_calm s" "os_calm (s\<lparr>os_open := y\<rparr>) = os_calm s"
  "os_calm (s\<lparr>os_next := n\<rparr>) = os_calm s"
  by (simp_all add: os_calm_def)

lemma os_handle_Some: "os_handle s f = Some k \<longleftrightarrow> (\<exists>pos. os_open s f = Some (k, pos))"
  by (auto simp: os_handle_def)

lemma set_pos_simps [simp]:
  "os_files (set_pos f off s) = os_files s" "os_next (set_pos f off s) = os_next s"
  "os_calls (set_pos f off s) = os_calls s" "os_fates (set_pos f off s) = os_fates s"
  by (simp_all add: set_pos_def)

lemma os_calm_set_pos [simp]: "os_calm (set_pos f off s) = os_calm s"
  by (simp add: os_calm_def)

lemma set_pos_handle [simp]: "os_handle s f = Some k \<Longrightarrow> os_handle (set_pos f off s) = os_handle s"
  by (auto simp: set_pos_def os_handle_def fun_eq_iff)

lemma set_pos_open: "os_open (set_pos f off s) f = Some (fst (the (os_open s f)), off)"
  by (simp add: set_pos_def)

lemma os_ok_handle:
  "os_ok s \<longleftrightarrow> (\<forall>f k. os_handle s f = Some k \<longrightarrow> f < os_next s \<and> os_files s k \<noteq> None)"
  by (auto simp: os_ok_def os_handle_Some)

lemma os_ok_set_pos: "os_ok s \<Longrightarrow> os_handle s f = Some k \<Longrightarrow> os_ok (set_pos f off s)"
  by (simp add: os_ok_handle)

lemma file_data_handle: "os_handle s f = Some k \<Longrightarrow> file_data s f = the (os_files s k)"
  by (auto simp: file_data_def os_handle_def)

lemma os_limit_calm: "os_calm s \<Longrightarrow> os_limit s n = n"
  by (simp add: os_limit_def os_calm_def os_fate_def)

lemma os_limit_le: "os_limit s n \<le> n"
  by (simp add: os_limit_def split: fate.split)

lemma combine_iter_cong:
  assumes "path_iter p = path_iter q"
  shows "path_iter (combine_user_path p d) = path_iter (combine_user_path q d)"
proof -
  have abs: "path_absolute p \<longleftrightarrow> [SEP] \<in> set (path_iter p)" for p
    using split_sep_no_sep [of "[SEP]" p] by (auto simp: path_iter_def CUR_DIR_def SEP_def)
  then show ?thesis using assms abs [of p] abs [of q] by (simp add: combine_user_path_def)
qed

lemma open_create_outcome:
  assumes "os_ok s" "open_create k s = (r, s')"
  shows "os_ok s' \<and> (os_calm s \<longrightarrow> os_calm s') \<and> os_handle s \<subseteq>\<^sub>m os_handle s' \<and>
    (case r of
       Ok f \<Rightarrow> os_handle s' f = Some k \<and>
         os_files s' = (os_files s)(k \<mapsto> (case os_files s k of None \<Rightarrow> [] | Some b \<Rightarrow> b))
     | Err e \<Rightarrow> os_files s' = os_files s \<and> \<not> os_calm s
     | Panic \<Rightarrow> False)"
  using assms(2) unfolding open_create_def
proof (cases rule: os_call_cases)
  case runs
  have fresh: "os_handle s (os_next s) = None"
    using assms(1) by (cases "os_handle s (os_next s)") (auto simp: os_ok_handle)
  have h: "os_handle s' = (os_handle s)(os_next s \<mapsto> k)" and n: "os_next s' = os_next s + 1"
    using runs by (auto simp: os_handle_def fun_eq_iff)
  have f: "os_files s' = (os_files s)(k \<mapsto> (case os_files s k of None \<Rightarrow> [] | Some b \<Rightarrow> b))"
    using runs by auto
  have "os_ok s'"
    using assms(1) by (auto simp: os_ok_handle h n f less_Suc_eq split: if_splits)
  moreover have "os_calm s' = os_calm (os_tick s)" using runs by auto
  moreover have "r = Ok (os_next s)" using runs by simp
  ultimately show ?thesis using fresh f by (auto simp: h map_le_def)
qed (use assms in auto)

lemma create_new_file_outcome:
  assumes "os_ok s" "create_new_file real p s = (r, s')"
  shows "os_ok s' \<and> (os_calm s \<longrightarrow> os_calm s') \<and> os_handle s \<subseteq>\<^sub>m os_handle s' \<and>
    (case r of
       Ok f \<Rightarrow> os_handle s' f = Some (real (path_iter p)) \<and>
         os_files s' = (os_files s)(real (path_iter p) \<mapsto> (case os_files s (real (path_iter p)) of None \<Rightarrow> [] | Some b \<Rightarrow> b))
     | Err e \<Rightarrow> os_files s' = os_files s
     | Panic \<Rightarrow> False) \<and>
    (os_calm s \<longrightarrow> path_has_parent p \<longrightarrow> (\<exists>f. r = Ok f))"
proof (cases "path_has_parent p")
  case True
  obtain r1 s1 where c: "create_dir_all s = (r1, s1)" by (cases "create_dir_all s")
  from c have s1: "s1 = os_tick s" "r1 \<noteq> Panic" "os_calm s \<Longrightarrow> \<exists>u. r1 = Ok u"
    by (auto simp: create_dir_all_def elim!: os_call_cases)
  show ?thesis
  proof (cases r1)
    case (Ok u)
    then show ?thesis
      using assms True c s1 open_create_outcome [of "os_tick s" "real (path_iter p)" r s']
      by (auto simp: create_new_file_def split: res.splits)
  qed (use assms True c s1 in \<open>auto simp: create_new_file_def\<close>)
qed (use assms in \<open>auto simp: create_new_file_def\<close>)

lemma seek_start_outcome:
  assumes "os_ok s" "os_handle s f = Some k" "seek_start f off s = (r, s')"
  shows "os_ok s' \<and> (os_calm s \<longrightarrow> os_calm s' \<and> r = Ok ()) \<and> os_handle s' = os_handle s \<and>
    os_files s' = os_files s \<and> (r = Ok () \<longrightarrow> snd (the (os_open s' f)) = unat off) \<and> r \<noteq> Panic"
  using assms(3) unfolding seek_start_def
  by (cases rule: os_call_cases) (use assms in \<open>auto simp: set_pos_open os_ok_set_pos\<close>)

lemma file_read_outcome:
  assumes "os_ok s" "os_handle s f = Some k" "file_read f n s = (r, s')"
  shows "os_ok s' \<and> (os_calm s \<longrightarrow> os_calm s') \<and> os_handle s' = os_handle s \<and> os_files s' = os_files s \<and>
    (case r of
       Ok d \<Rightarrow> \<exists>m. d = take m (take n (drop (snd (the (os_open s f))) (the (os_files s k)))) \<and> (os_calm s \<longrightarrow> m = n)
     | Err e \<Rightarrow> \<not> os_calm s | Panic \<Rightarrow> False)"
  using assms(3) unfolding file_read_def
proof (cases rule: os_call_cases)
  case runs
  then show ?thesis
    using assms os_limit_le [of s n]
    by (auto simp: Let_def file_data_handle os_ok_set_pos os_limit_calm min_absorb1 intro!: exI [of _ "os_limit s n"])
qed (use assms in auto)

lemma file_write_outcome:
  assumes "os_ok s" "os_handle s f = Some k" "file_write f d s = (r, s')"
  shows "os_ok s' \<and> (os_calm s \<longrightarrow> os_calm s' \<and> r = Ok (length d)) \<and> os_handle s' = os_handle s \<and>
    (case r of
       Ok m \<Rightarrow> m \<le> length d \<and>
         os_files s' = (os_files s)(k \<mapsto> write_at (the (os_files s k)) (snd (the (os_open s f))) (take m d))
     | Err e \<Rightarrow> os_files s' = os_files s
     | Panic \<Rightarrow> False)"
  using assms(3) unfolding file_write_def
proof (cases rule: os_call_cases)
  case runs
  define b where "b = write_at (file_data s f) (snd (the (os_open s f))) (take (os_limit s (length d)) d)"
  define t where "t = (os_tick s)\<lparr>os_files := (os_files s)(k \<mapsto> b)\<rparr>"
  have k: "fst (the (os_open s f)) = k" using assms(2) by (auto simp: os_handle_def)
  have t: "os_handle t = os_handle s" "os_files t = (os_files s)(k \<mapsto> b)" "os_calm t = os_calm (os_tick s)"
    "os_next t = os_next s" by (auto simp: t_def os_handle_def fun_eq_iff)
  have "os_ok t" using assms(1) by (auto simp: os_ok_handle t)
  moreover have "r = Ok (os_limit s (length d))" and s': "s' = set_pos f (snd (the (os_open s f)) + os_limit s (length d)) t"
    using runs os_limit_le [of s "length d"] by (auto simp: Let_def t_def b_def k min_def)
  ultimately show ?thesis
    using assms os_limit_le [of s "length d"]
    by (auto simp: t b_def s' os_ok_set_pos os_limit_calm file_data_handle)
qed (use assms in auto)

lemma native_read_outcome:
  assumes "os_ok s" "os_handle s f = Some k" "native_read f off n s = (r, s')"
  shows "os_ok s' \<and> (os_calm s \<longrightarrow> os_calm s') \<and> os_handle s' = os_handle s \<and> os_files s' = os_files s \<and>
    (\<forall>d. r = Ok d \<longrightarrow> (\<exists>m. d = take m (take n (drop (unat off) (the (os_files s k)))))) \<and> r \<noteq> Panic \<and>
    (os_calm s \<longrightarrow> r = Ok (take n (drop (unat off) (the (os_files s k)))))"
proof -
  obtain r1 s1 where seek: "seek_start f off s = (r1, s1)" by (cases "seek_start f off s")
  note o1 = seek_start_outcome [OF assms(1,2) seek]
  show ?thesis
  proof (cases r1)
    case (Ok u)
    then have "file_read f n s1 = (r, s')" using assms(3) seek by (simp add: native_read_def)
    then show ?thesis
      using o1 Ok file_read_outcome [of s1 f k n r s'] assms(2) by (cases r) auto
  qed (use assms(3) seek o1 in \<open>auto simp: native_read_def\<close>)
qed

lemma native_write_outcome:
  assumes "os_ok s" "os_handle s f = Some k" "native_write f off d s = (r, s')"
  shows "os_ok s' \<and> (os_calm s \<longrightarrow> os_calm s' \<and> r = Ok (length d)) \<and> os_handle s' = os_handle s \<and>
    (case r of
       Ok m \<Rightarrow> m \<le> length d \<and> os_files s' = (os_files s)(k \<mapsto> write_at (the (os_files s k)) (unat off) (take m d))
     | Err e \<Rightarrow> os_files s' = os_files s
     | Panic \<Rightarrow> False)"
proof -
  obtain r1 s1 where seek: "seek_start f off s = (r1, s1)" by (cases "seek_start f off s")
  note o1 = seek_start_outcome [OF assms(1,2) seek]
  show ?thesis
  proof (cases r1)
    case (Ok u)
    then have "file_write f d s1 = (r, s')" using assms(3) seek by (simp add: native_write_def)
    then show ?thesis
      using o1 Ok file_write_outcome [of s1 f k d r s'] assms(2) by (cases r) auto
  qed (use assms(3) seek o1 in \<open>auto simp: native_write_def\<close>)
qed

lemma metadata_len_outcome:
  assumes "os_ok s" "os_handle s f = Some k" "metadata_len f s = (r, s')"
  shows "os_ok s' \<and> (os_calm s \<longrightarrow> os_calm s') \<and> os_handle s' = os_handle s \<and> os_files s' = os_files s \<and>
    (\<forall>n. r = Ok n \<longrightarrow> n = of_nat (length (the (os_files s k)))) \<and> r \<noteq> Panic \<and> (os_calm s \<longrightarrow> (\<forall>e. r \<noteq> Err e))"
  using assms(3) unfolding metadata_len_def
  by (cases rule: os_call_cases) (use assms in \<open>auto simp: file_data_handle\<close>)

lemma native_fs_simps [simp]:
  "fs_open (native_fs real self) p = create_new_file real (combine_user_path p (nf_current_dir self))"
  "fs_sync (native_fs real self) p s = (Ok (), s)" "fs_size (native_fs real self) = metadata_len"
  "fs_read (native_fs real self) = native_read" "fs_write (native_fs real self) = native_write"
  by (simp_all add: native_fs_def)

interpretation native: file_system "native_fs real self" "native_key real self" os_files os_handle os_ok os_calm
  "native_usable self" for real :: "bytes list \<Rightarrow> 'k" and self
proof (unfold_locales, goal_cases)
  case (1 p q)
  then show ?case using combine_iter_cong [of p q] by (simp add: native_key_def)
next
  case (2 s f k)
  then show ?case by (auto simp: os_ok_handle)
next
  case (3 s p r s')
  then show ?case using create_new_file_outcome by fastforce
next
  case (4 s p r s')
  then show ?case
    using create_new_file_outcome [of s real "combine_user_path p (nf_current_dir self)" r s']
    by (auto simp: native_key_def split: res.splits)
next
  case (5 s p)
  then show ?case
    using create_new_file_outcome [of s real "combine_user_path p (nf_current_dir self)"]
    by (cases "create_new_file real (combine_user_path p (nf_current_dir self)) s") (auto simp: native_usable_def)
next
  case (6 s p r s')
  then show ?case by auto
next
  case (7 s f k r s')
  then show ?case using metadata_len_outcome [of s f k r s'] by auto
next
  case (8 s f k r s')
  then show ?case using metadata_len_outcome [of s f k r s'] by auto
next
  case (9 s f k off n r s')
  then show ?case using native_read_outcome [of s f k off n r s'] by auto
next
  case (10 s f k off n r s')
  then show ?case using native_read_outcome [of s f k off n r s'] by auto
next
  case (11 s f k off d r s')
  then show ?case using native_write_outcome [of s f k off d r s'] by auto
next
  case (12 s f k off d r s')
  then show ?case using native_write_outcome [of s f k off d r s'] by auto
qed

section \<open>FileHandleCache\<close>

text \<open>
  The cache of the crate \<open>lru_cache\<close> is a parameter. Its keys are paths, which are compared by
  their components. It may forget entries whenever one is inserted.
\<close>

record ('c, 'f) LruCache =
  lru_new :: "nat \<Rightarrow> 'c"
  lru_get_mut :: "bytes list \<Rightarrow> 'c \<Rightarrow> 'f option \<times> 'c"
  lru_insert :: "bytes list \<Rightarrow> 'f \<Rightarrow> 'c \<Rightarrow> 'c"
  lru_clear :: "'c \<Rightarrow> 'c"

definition lru_laws :: "('c, 'f) LruCache \<Rightarrow> ('c \<Rightarrow> bytes list \<rightharpoonup> 'f) \<Rightarrow> bool" where
  "lru_laws L entries \<longleftrightarrow>
     (\<forall>n. entries (lru_new L n) = Map.empty) \<and>
     (\<forall>p c. fst (lru_get_mut L p c) = entries c p \<and> entries (snd (lru_get_mut L p c)) = entries c) \<and>
     (\<forall>p f c. entries (lru_insert L p f c) \<subseteq>\<^sub>m (entries c)(p \<mapsto> f)) \<and>
     (\<forall>c. entries (lru_clear L c) = Map.empty)"

text \<open>The state is the cache and the state of the inner file system; a handle is shared.\<close>

definition cache_new :: "('c, 'f) LruCache \<Rightarrow> nat \<Rightarrow> 's \<Rightarrow> 'c \<times> 's" where
  "cache_new L capacity inner = (lru_new L capacity, inner)"

definition on_inner :: "('s \<Rightarrow> ('s, 'a, 'io) outcome) \<Rightarrow> 'c \<times> 's \<Rightarrow> ('c \<times> 's, 'a, 'io) outcome" where
  "on_inner call st = (case call (snd st) of (r, s) \<Rightarrow> (r, fst st, s))"

definition cache_open ::
  "('c, 'f) LruCache \<Rightarrow> ('s, 'f, 'io) FileSystem \<Rightarrow> path \<Rightarrow> 'c \<times> 's \<Rightarrow> ('c \<times> 's, 'f, 'io) outcome" where
  "cache_open L inner p st =
     (case lru_get_mut L (path_iter p) (fst st) of
        (Some entry, c) \<Rightarrow> (Ok entry, c, snd st)
      | (None, c) \<Rightarrow>
          act_try (on_inner (fs_open inner p) (c, snd st)) (\<lambda>file (c, s).
          (Ok file, lru_insert L (path_iter p) file c, s)))"

definition cache_sync ::
  "('c, 'f) LruCache \<Rightarrow> ('s, 'f, 'io) FileSystem \<Rightarrow> path \<Rightarrow> 'c \<times> 's \<Rightarrow> ('c \<times> 's, unit, 'io) outcome" where
  "cache_sync L inner p st = on_inner (fs_sync inner p) (lru_clear L (fst st), snd st)"

definition cache_fs :: "('c, 'f) LruCache \<Rightarrow> ('s, 'f, 'io) FileSystem \<Rightarrow> ('c \<times> 's, 'f, 'io) FileSystem" where
  "cache_fs L inner =
     \<lparr>fs_open = cache_open L inner,
      fs_sync = cache_sync L inner,
      fs_size = (\<lambda>f. on_inner (fs_size inner f)),
      fs_read = (\<lambda>f off n. on_inner (fs_read inner f off n)),
      fs_write = (\<lambda>f off d. on_inner (fs_write inner f off d))\<rparr>"

lemma cache_fs_simps [simp]:
  "fs_open (cache_fs L inner) = cache_open L inner" "fs_sync (cache_fs L inner) = cache_sync L inner"
  "fs_size (cache_fs L inner) f = on_inner (fs_size inner f)"
  "fs_read (cache_fs L inner) f off n = on_inner (fs_read inner f off n)"
  "fs_write (cache_fs L inner) f off d = on_inner (fs_write inner f off d)"
  by (simp_all add: cache_fs_def)

text \<open>Every handle in the cache is one of the file its path leads to.\<close>

definition cache_ok ::
  "('c \<Rightarrow> bytes list \<rightharpoonup> 'f) \<Rightarrow> (path \<Rightarrow> 'k) \<Rightarrow> ('s \<Rightarrow> 'f \<Rightarrow> 'k option) \<Rightarrow> ('s \<Rightarrow> bool) \<Rightarrow> 'c \<times> 's \<Rightarrow> bool" where
  "cache_ok entries key handle ok st \<longleftrightarrow>
     ok (snd st) \<and> (\<forall>p f. entries (fst st) (path_iter p) = Some f \<longrightarrow> handle (snd st) f = Some (key p))"

lemma cache_ok_mono:
  "cache_ok entries key handle ok (c, s) \<Longrightarrow> ok s' \<Longrightarrow> handle s \<subseteq>\<^sub>m handle s' \<Longrightarrow>
     entries c' \<subseteq>\<^sub>m entries c \<Longrightarrow> cache_ok entries key handle ok (c', s')"
  unfolding cache_ok_def map_le_def by (metis domI fst_conv snd_conv)

lemma on_inner_eq: "on_inner call st = (r, st') \<longleftrightarrow> call (snd st) = (r, snd st') \<and> fst st' = fst st"
  by (cases "call (snd st)"; cases st') (auto simp: on_inner_def)

lemma cache_ok_inner: "cache_ok entries key handle ok st \<Longrightarrow> ok (snd st)"
  by (simp add: cache_ok_def)

lemma cache_ok_on_inner:
  "cache_ok entries key handle ok st \<Longrightarrow> fst st' = fst st \<Longrightarrow> ok (snd st') \<Longrightarrow>
     handle (snd st) \<subseteq>\<^sub>m handle (snd st') \<Longrightarrow> cache_ok entries key handle ok st'"
  using cache_ok_mono [of entries key handle ok "fst st" "snd st" "snd st'" "fst st'"] by (cases st') simp

context file_system
begin

lemma open_unchanged: "ok s \<Longrightarrow> handle s f = Some (key p) \<Longrightarrow>
    content s = (content s)(key p \<mapsto> (case content s (key p) of None \<Rightarrow> [] | Some b \<Rightarrow> b))"
  using handle_content by (auto simp: fun_eq_iff split: option.splits)

lemma cache_open_outcome:
  assumes L: "lru_laws L entries" and st: "cache_ok entries key handle ok st"
    and call: "cache_open L fs p st = (r, st')"
  shows "cache_ok entries key handle ok st' \<and> (calm (snd st) \<longrightarrow> calm (snd st')) \<and>
    handle (snd st) \<subseteq>\<^sub>m handle (snd st') \<and>
    (case r of
       Ok f \<Rightarrow> handle (snd st') f = Some (key p) \<and> content (snd st') =
         (content (snd st))(key p \<mapsto> (case content (snd st) (key p) of None \<Rightarrow> [] | Some b \<Rightarrow> b))
     | Err e \<Rightarrow> content (snd st') = content (snd st)
     | Panic \<Rightarrow> False) \<and>
    (calm (snd st) \<longrightarrow> usable p \<longrightarrow> (\<exists>f. r = Ok f))"
proof -
  obtain c s where cs: "st = (c, s)" by (cases st)
  obtain e c1 where get: "lru_get_mut L (path_iter p) c = (e, c1)" by (cases "lru_get_mut L (path_iter p) c")
  have e: "e = entries c (path_iter p)" and c1: "entries c1 = entries c"
    using L get unfolding lru_laws_def by (metis fst_conv, metis snd_conv)
  have ok: "ok s" using st cs by (simp add: cache_ok_def)
  show ?thesis
  proof (cases e)
    case (Some f)
    then have hf: "handle s f = Some (key p)" using st cs e by (simp add: cache_ok_def)
    have "r = Ok f" "st' = (c1, s)" using call get Some cs by (auto simp: cache_open_def)
    then show ?thesis using hf st cs c1 open_unchanged [OF ok hf] by (auto simp: cache_ok_def)
  next
    case None
    obtain r1 s1 where op: "fs_open fs p s = (r1, s1)" by (cases "fs_open fs p s")
    note keeps = open_keeps [OF ok op] and law = open_law [OF ok op]
    have ok1: "cache_ok entries key handle ok (c1, s1)"
      using cache_ok_mono [of entries key handle ok c s s1 c1] st cs keeps c1 by simp
    show ?thesis
    proof (cases r1)
      case (Ok f)
      then have f: "handle s1 f = Some (key p)" using law by simp
      have st': "st' = (lru_insert L (path_iter p) f c1, s1)" "r = Ok f"
        using call get None cs op Ok by (auto simp: cache_open_def on_inner_def)
      have "entries (lru_insert L (path_iter p) f c1) q = Some g \<Longrightarrow> ((entries c1)(path_iter p \<mapsto> f)) q = Some g" for q g
        using L unfolding lru_laws_def map_le_def by (metis domI)
      then have "cache_ok entries key handle ok st'"
        using ok1 f key_iter [of _ p] unfolding cache_ok_def st' fst_conv snd_conv
        by (metis fun_upd_apply option.inject)
      then show ?thesis using keeps law Ok cs by (simp add: st')
    next
      case (Err x)
      have "st' = (c1, s1)" "r = Err x" using call get None cs op Err by (auto simp: cache_open_def on_inner_def)
      then show ?thesis using keeps law Err cs ok1 open_calm [OF ok, of p] op by auto
    qed (use law in simp)
  qed
qed

text \<open>A cache in front of a file system is a file system, with the same contents.\<close>

lemma cached:
  assumes L: "lru_laws L entries"
  shows "file_system (cache_fs L fs) key (\<lambda>st. content (snd st)) (\<lambda>st. handle (snd st))
    (cache_ok entries key handle ok) (\<lambda>st. calm (snd st)) usable"
proof (unfold_locales, goal_cases)
  case (3 st p r st')
  then show ?case using cache_open_outcome [OF L, of st p r st'] by simp
next
  case (4 st p r st')
  then show ?case using cache_open_outcome [OF L, of st p r st'] by simp
next
  case (5 st p)
  then show ?case
    using cache_open_outcome [OF L, of st p] by (cases "cache_open L fs p st") auto
next
  case (6 st p r st')
  have "entries (lru_clear L c) = Map.empty" for c using L by (simp add: lru_laws_def)
  then show ?case using 6 sync_law [of "snd st" p r "snd st'"]
    by (auto simp: cache_sync_def on_inner_eq cache_ok_def)
next
  case (7 st f k r st')
  then show ?case using size_keeps [of "snd st" f k r "snd st'"]
      cache_ok_on_inner [of entries key handle ok st st'] cache_ok_inner [of entries key handle ok st]
    by (simp add: on_inner_eq)
next
  case (8 st f k r st')
  then show ?case using size_law [of "snd st" f k r "snd st'"] cache_ok_inner [of entries key handle ok st]
    by (simp add: on_inner_eq)
next
  case (9 st f k off n r st')
  then show ?case using read_keeps [of "snd st" f k off n r "snd st'"]
      cache_ok_on_inner [of entries key handle ok st st'] cache_ok_inner [of entries key handle ok st]
    by (simp add: on_inner_eq)
next
  case (10 st f k off n r st')
  then show ?case using read_law [of "snd st" f k off n r "snd st'"] cache_ok_inner [of entries key handle ok st]
    by (simp add: on_inner_eq)
next
  case (11 st f k off d r st')
  then show ?case using write_keeps [of "snd st" f k off d r "snd st'"]
      cache_ok_on_inner [of entries key handle ok st st'] cache_ok_inner [of entries key handle ok st]
    by (simp add: on_inner_eq)
next
  case (12 st f k off d r st')
  then show ?case using write_law [of "snd st" f k off d r "snd st'"] cache_ok_inner [of entries key handle ok st]
    by (simp add: on_inner_eq)
next
  case (2 st f k)
  then show ?case using handle_content [of "snd st" f k] cache_ok_inner [of entries key handle ok st] by simp
qed (rule key_iter)

end

section \<open>The cache is transparent\<close>

text \<open>
  C13. For every file system that keeps the contract of the trait, the handle cache in front of it
  keeps it too, over the same contents: a path leads to the same file, an open creates a
  missing file, reads and writes reach the file the path names also through a handle that
  was opened before, and what fails leaves the contents alone. This holds for every cache
  that forgets entries as it likes but never invents one.
\<close>

theorem handle_cache_transparent:
  assumes "file_system fs key content handle ok calm usable" "lru_laws L entries"
  shows "file_system (cache_fs L fs) key (\<lambda>st. content (snd st)) (\<lambda>st. handle (snd st))
      (cache_ok entries key handle ok) (\<lambda>st. calm (snd st)) usable \<and>
    (\<forall>s capacity. ok s \<longrightarrow> cache_ok entries key handle ok (cache_new L capacity s))"
  using file_system.cached [OF assms] assms(2) by (simp add: cache_ok_def cache_new_def lru_laws_def)

text \<open>A cache with one entry.\<close>

definition one_entry :: "((bytes list \<times> 'f) option, 'f) LruCache" where
  "one_entry =
     \<lparr>lru_new = (\<lambda>n. None),
      lru_get_mut = (\<lambda>p c. (case c of Some (q, f) \<Rightarrow> if p = q then Some f else None | None \<Rightarrow> None, c)),
      lru_insert = (\<lambda>p f c. Some (p, f)),
      lru_clear = (\<lambda>c. None)\<rparr>"

definition one_entries :: "(bytes list \<times> 'f) option \<Rightarrow> bytes list \<rightharpoonup> 'f" where
  "one_entries c = (\<lambda>p. case c of Some (q, f) \<Rightarrow> if p = q then Some f else None | None \<Rightarrow> None)"

lemma one_entry_laws: "lru_laws one_entry one_entries"
  by (auto simp: lru_laws_def one_entry_def one_entries_def map_le_def fun_eq_iff split: option.splits if_splits)

theorem handle_cache_transparent_witness:
  "file_system (cache_fs one_entry (native_fs (\<lambda>p. p) \<lparr>nf_current_dir = [47, 116]\<rparr>))
     (native_key (\<lambda>p. p) \<lparr>nf_current_dir = [47, 116]\<rparr>) (\<lambda>st. os_files (snd st)) (\<lambda>st. os_handle (snd st))
     (cache_ok one_entries (native_key (\<lambda>p. p) \<lparr>nf_current_dir = [47, 116]\<rparr>) os_handle os_ok)
     (\<lambda>st. os_calm (snd st)) (native_usable \<lparr>nf_current_dir = [47, 116]\<rparr>)"
  using handle_cache_transparent [OF native.file_system_axioms one_entry_laws] by blast

end
