(* ===== verification/Disk_Piece.thy ===== *)
theory Disk_Piece
  imports Disk_Fs
begin

text \<open>
  Blocks of memory and their place in the files of a torrent (\<open>memory/block.rs\<close>,
  \<open>disk/tasks/helpers/mod.rs\<close>, \<open>disk/tasks/helpers/piece_accessor.rs\<close>). For the accessor the
  files of a torrent, one behind the other, are one array of bytes: the lemmas of the locale
  \<open>file_system\<close> below show that reading and writing a block is reading and writing that array,
  and what remains true when calls of the file system fail.
\<close>

section \<open>Blocks\<close>

record BlockMetadata =
  bm_info_hash :: ShaHash
  bm_piece_index :: u64
  bm_block_offset :: u64
  bm_block_length :: nat

definition BlockMetadata_with_default_hash :: "u64 \<Rightarrow> u64 \<Rightarrow> nat \<Rightarrow> BlockMetadata" where
  "BlockMetadata_with_default_hash piece_index block_offset block_length =
     \<lparr>bm_info_hash = replicate INFO_HASH_LEN 0, bm_piece_index = piece_index,
      bm_block_offset = block_offset, bm_block_length = block_length\<rparr>"

text \<open>\<open>Block\<close> and \<open>BlockMut\<close>.\<close>

record Block =
  bl_metadata :: BlockMetadata
  bl_data :: bytes

section \<open>PieceAccessor\<close>

definition build_path :: "path option \<Rightarrow> File \<Rightarrow> path" where
  "build_path parent_directory file =
     (case parent_directory of Some dir \<Rightarrow> path_join dir (fl_path file) | None \<Rightarrow> fl_path file)"

text \<open>
  The loop of \<open>run_with_file_regions\<close>. A callback works on what its closure holds and on the
  file system. The sums of the loop stay below the lengths of a file or of the block.
\<close>

primrec run_files ::
  "('s, 'f, 'io) FileSystem \<Rightarrow> path option \<Rightarrow> ('f \<Rightarrow> u64 \<Rightarrow> nat \<Rightarrow> nat \<Rightarrow> 'b \<times> 's \<Rightarrow> ('b \<times> 's, unit, 'io) outcome) \<Rightarrow>
     nat \<Rightarrow> File list \<Rightarrow> nat \<Rightarrow> nat \<Rightarrow> 'b \<times> 's \<Rightarrow> ('b \<times> 's, unit, 'io) outcome" where
  "run_files fs dir callback total_block_length [] skip accessed st = (Ok (), st)"
| "run_files fs dir callback total_block_length (file # files) skip accessed st =
     (let total_file_size = unat (fl_len file);
          min_bytes_to_skip = min skip total_file_size;
          skip = skip - min_bytes_to_skip;
          bytes_to_access = total_file_size - min_bytes_to_skip
      in if bytes_to_access > 0 \<and> accessed < total_block_length
         then act_try (on_inner (fs_open fs (build_path dir file)) st) (\<lambda>fs_file st.
              let actual_bytes_to_access = min (total_block_length - accessed) bytes_to_access;
                  offset = total_file_size - bytes_to_access
              in act_try (callback fs_file (of_nat offset) accessed (accessed + actual_bytes_to_access) st) (\<lambda>_ st.
                 run_files fs dir callback total_block_length files skip (accessed + actual_bytes_to_access) st))
         else run_files fs dir callback total_block_length files skip accessed st)"

text \<open>\<open>piece_index * piece_length + block_offset\<close>, which wraps around.\<close>

definition block_start :: "Info \<Rightarrow> BlockMetadata \<Rightarrow> nat" where
  "block_start info_dict message =
     unat (bm_piece_index message * inf_piece_len info_dict + bm_block_offset message)"

definition run_with_file_regions ::
  "('s, 'f, 'io) FileSystem \<Rightarrow> Info \<Rightarrow> BlockMetadata \<Rightarrow>
     ('f \<Rightarrow> u64 \<Rightarrow> nat \<Rightarrow> nat \<Rightarrow> 'b \<times> 's \<Rightarrow> ('b \<times> 's, unit, 'io) outcome) \<Rightarrow> 'b \<times> 's \<Rightarrow> ('b \<times> 's, unit, 'io) outcome" where
  "run_with_file_regions fs info_dict message callback st =
     run_files fs (inf_dir info_dict) callback (bm_block_length message) (inf_files info_dict)
       (block_start info_dict message) 0 st"

definition read_region_into ::
  "('s, 'f, 'io) FileSystem \<Rightarrow> 'f \<Rightarrow> u64 \<Rightarrow> nat \<Rightarrow> nat \<Rightarrow> bytes \<times> 's \<Rightarrow> (bytes \<times> 's, unit, 'io) outcome" where
  "read_region_into fs file offset begin_idx end_idx st =
     (if end_idx \<le> length (fst st)
      then act_try (on_inner (fs_read fs file offset (end_idx - begin_idx)) st) (\<lambda>d (piece_buffer, s).
           (if length d = end_idx - begin_idx then Ok () else Panic, write_at piece_buffer begin_idx d, s))
      else (Panic, st))"

definition read_piece ::
  "('s, 'f, 'io) FileSystem \<Rightarrow> Info \<Rightarrow> BlockMetadata \<Rightarrow> bytes \<times> 's \<Rightarrow> (bytes \<times> 's, unit, 'io) outcome" where
  "read_piece fs info_dict message st = run_with_file_regions fs info_dict message (read_region_into fs) st"

definition write_region_from ::
  "('s, 'f, 'io) FileSystem \<Rightarrow> 'f \<Rightarrow> u64 \<Rightarrow> nat \<Rightarrow> nat \<Rightarrow> bytes \<times> 's \<Rightarrow> (bytes \<times> 's, unit, 'io) outcome" where
  "write_region_from fs file offset begin_idx end_idx st =
     (if end_idx \<le> length (fst st)
      then act_try (on_inner (fs_write fs file offset (sub_list (fst st) begin_idx end_idx)) st) (\<lambda>n st.
           (if n = end_idx - begin_idx then Ok () else Panic, st))
      else (Panic, st))"

definition write_piece ::
  "('s, 'f, 'io) FileSystem \<Rightarrow> Info \<Rightarrow> BlockMetadata \<Rightarrow> bytes \<times> 's \<Rightarrow> (bytes \<times> 's, unit, 'io) outcome" where
  "write_piece fs info_dict message st = run_with_file_regions fs info_dict message (write_region_from fs) st"

section \<open>One array of bytes\<close>

text \<open>Writing into an array without making it longer.\<close>

definition overwrite :: "'a list \<Rightarrow> nat \<Rightarrow> 'a list \<Rightarrow> 'a list" where
  "overwrite xs p d = take p xs @ take (length xs - p) d @ drop (p + length d) xs"

text \<open>Some of the places that \<open>overwrite\<close> would change are changed.\<close>

definition partly_overwritten :: "'a list \<Rightarrow> nat \<Rightarrow> 'a list \<Rightarrow> 'a list \<Rightarrow> bool" where
  "partly_overwritten xs p d ys \<longleftrightarrow> length ys = length xs \<and>
     (\<forall>i < length xs. ys ! i = xs ! i \<or> (p \<le> i \<and> i < p + length d \<and> ys ! i = d ! (i - p)))"

lemma length_overwrite [simp]: "length (overwrite xs p d) = length xs"
  by (simp add: overwrite_def min_def)

lemma overwrite_Nil [simp]: "overwrite xs p [] = xs" "overwrite [] p d = []"
  by (simp_all add: overwrite_def)

lemma nth_overwrite:
  "i < length xs \<Longrightarrow> overwrite xs p d ! i = (if p \<le> i \<and> i < p + length d then d ! (i - p) else xs ! i)"
  by (auto simp: overwrite_def nth_append min_def)

lemma overwrite_beyond: "length b \<le> p \<Longrightarrow> overwrite (b @ xs) p d = b @ overwrite xs (p - length b) d"
  by (rule nth_equalityI) (auto simp: nth_overwrite nth_append)

lemma overwrite_across:
  "p \<le> length b \<Longrightarrow> overwrite (b @ xs) p d = overwrite b p d @ overwrite xs 0 (drop (length b - p) d)"
  by (rule nth_equalityI) (auto simp: nth_overwrite nth_append)

lemma overwrite_write_at: "p + length d \<le> length b \<Longrightarrow> overwrite b p d = write_at b p d"
  by (rule nth_equalityI) (auto simp: nth_overwrite nth_write_at length_write_at)

lemma overwrite_take: "overwrite b p (take (length b - p) d) = overwrite b p d"
  by (rule nth_equalityI) (auto simp: nth_overwrite)

lemma partly_overwritten_refl [simp]: "partly_overwritten xs p d xs"
  by (simp add: partly_overwritten_def)

lemma partly_overwritten_overwrite: "partly_overwritten xs p d (overwrite xs p (take n d))"
  by (auto simp: partly_overwritten_def nth_overwrite)

lemma partly_overwritten_beyond:
  assumes "length b \<le> p" "partly_overwritten xs (p - length b) d ys"
  shows "partly_overwritten (b @ xs) p d (b @ ys)"
proof -
  have l: "length ys = length xs" using assms by (simp add: partly_overwritten_def)
  have "(b @ ys) ! i = (b @ xs) ! i \<or> (p \<le> i \<and> i < p + length d \<and> (b @ ys) ! i = d ! (i - p))"
    if i: "i < length (b @ xs)" for i
  proof (cases "i < length b")
    case False
    then have "i - length b < length xs" using i by simp
    then have "ys ! (i - length b) = xs ! (i - length b) \<or>
        (p - length b \<le> i - length b \<and> i - length b < p - length b + length d \<and>
         ys ! (i - length b) = d ! (i - length b - (p - length b)))"
      using assms(2) by (auto simp: partly_overwritten_def)
    then show ?thesis using False assms(1) by (auto simp: nth_append)
  qed (simp add: nth_append)
  then show ?thesis using l by (simp add: partly_overwritten_def)
qed

lemma partly_overwritten_across:
  assumes "p \<le> length b" "partly_overwritten b p d b'"
    "partly_overwritten xs 0 (drop (length b - p) d) ys"
  shows "partly_overwritten (b @ xs) p d (b' @ ys)"
proof -
  have l: "length b' = length b" "length ys = length xs" using assms by (auto simp: partly_overwritten_def)
  have "(b' @ ys) ! i = (b @ xs) ! i \<or> (p \<le> i \<and> i < p + length d \<and> (b' @ ys) ! i = d ! (i - p))"
    if i: "i < length (b @ xs)" for i
  proof (cases "i < length b")
    case True
    then show ?thesis using assms(2) l by (auto simp: partly_overwritten_def nth_append)
  next
    case False
    then have "i - length b < length xs" using i by simp
    then have "ys ! (i - length b) = xs ! (i - length b) \<or>
        (i - length b < length d - (length b - p) \<and> ys ! (i - length b) = d ! (length b - p + (i - length b)))"
      using assms(3) by (auto simp: partly_overwritten_def)
    moreover have "length b - p + (i - length b) = i - p" using False assms(1) by simp
    ultimately show ?thesis using False l assms(1) by (auto simp: nth_append)
  qed
  then show ?thesis using l by (simp add: partly_overwritten_def)
qed

text \<open>The part of the data that goes to the first array, and the rest.\<close>

lemma drop_first_part:
  "m = min (length d) n \<Longrightarrow> drop n d = drop m d"
  by (cases "length d \<le> n") auto

lemma overwrite_first_part:
  assumes "p \<le> length b" "m = min (length d) (length b - p)"
  shows "overwrite (b @ xs) p d = overwrite b p (take m d) @ overwrite xs 0 (drop m d)"
proof -
  have "take m d = take (length b - p) d" using assms(2) by (cases "length d \<le> length b - p") auto
  then show ?thesis
    using assms overwrite_across [of p b xs d] drop_first_part [of m d "length b - p"] overwrite_take [of b p d]
    by simp
qed

lemma partly_first_part:
  assumes "p \<le> length b" "m = min (length d) (length b - p)" "partly_overwritten xs 0 (drop m d) ys"
  shows "partly_overwritten (b @ xs) p d (overwrite b p (take m' d) @ ys)"
  using assms partly_overwritten_across [OF assms(1) partly_overwritten_overwrite] drop_first_part [OF assms(2)]
  by simp

text \<open>Data that is written in two goes.\<close>

lemma overwrite_twice: "overwrite (overwrite xs p d) (p + length d) e = overwrite xs p (d @ e)"
  by (rule nth_equalityI) (auto simp: nth_overwrite nth_append)

lemma partly_overwritten_twice:
  "partly_overwritten (overwrite xs p d) (p + length d) e ys \<Longrightarrow> partly_overwritten xs p (d @ e) ys"
  unfolding partly_overwritten_def
proof (intro conjI allI impI)
  fix i
  assume a: "length ys = length (overwrite xs p d) \<and> (\<forall>i < length (overwrite xs p d). ys ! i = overwrite xs p d ! i \<or>
      p + length d \<le> i \<and> i < p + length d + length e \<and> ys ! i = e ! (i - (p + length d)))"
    and i: "i < length xs"
  show "ys ! i = xs ! i \<or> p \<le> i \<and> i < p + length (d @ e) \<and> ys ! i = (d @ e) ! (i - p)"
  proof (cases "ys ! i = overwrite xs p d ! i")
    case False
    then have "p + length d \<le> i" "i < p + length d + length e" "ys ! i = e ! (i - (p + length d))" using a i by auto
    moreover then have "\<not> i - p < length d" "p \<le> i" by linarith+
    ultimately show ?thesis by (simp add: nth_append diff_diff_left)
  qed (use i in \<open>auto simp: nth_overwrite nth_append\<close>)
qed simp

lemma partly_overwritten_prefix: "partly_overwritten xs p (d @ e) (overwrite xs p (take n d))"
  by (auto simp: partly_overwritten_def nth_overwrite nth_append)

text \<open>The files of a torrent one behind the other.\<close>

definition file_keys :: "(path \<Rightarrow> 'k) \<Rightarrow> path option \<Rightarrow> File list \<Rightarrow> 'k list" where
  "file_keys key dir files = map (\<lambda>f. key (build_path dir f)) files"

definition flat :: "('k \<rightharpoonup> bytes) \<Rightarrow> 'k list \<Rightarrow> bytes" where
  "flat c ks = concat (map (\<lambda>k. the (c k)) ks)"

text \<open>Every file is there, with the length the torrent gives.\<close>

definition sized :: "('k \<rightharpoonup> bytes) \<Rightarrow> (path \<Rightarrow> 'k) \<Rightarrow> path option \<Rightarrow> File list \<Rightarrow> bool" where
  "sized c key dir files \<longleftrightarrow>
     (\<forall>f \<in> set files. \<exists>b. c (key (build_path dir f)) = Some b \<and> length b = unat (fl_len f))"

lemma file_keys_simps [simp]:
  "file_keys key dir [] = []" "file_keys key dir (f # files) = key (build_path dir f) # file_keys key dir files"
  by (simp_all add: file_keys_def)

lemma flat_simps [simp]: "flat c [] = []" "flat c (k # ks) = the (c k) @ flat c ks"
  by (simp_all add: flat_def)

lemma flat_cong: "(\<And>k. k \<in> set ks \<Longrightarrow> c k = c' k) \<Longrightarrow> flat c ks = flat c' ks"
  unfolding flat_def by (metis (mono_tags, lifting) map_cong)

lemma sized_cong:
  "(\<And>k. k \<in> set (file_keys key dir files) \<Longrightarrow> c k = c' k) \<Longrightarrow> sized c key dir files = sized c' key dir files"
  by (simp add: sized_def file_keys_def)

lemma update_outside:
  "k \<notin> set ks \<Longrightarrow> flat (c(k \<mapsto> b)) ks = flat c ks"
  "k \<notin> set (file_keys key dir files) \<Longrightarrow> sized (c(k \<mapsto> b)) key dir files = sized c key dir files"
  by (rule flat_cong, force) (rule sized_cong, force)

lemma sized_Cons:
  "sized c key dir (f # files) \<longleftrightarrow>
     (\<exists>b. c (key (build_path dir f)) = Some b \<and> length b = unat (fl_len f)) \<and> sized c key dir files"
  by (simp add: sized_def)

definition torrent_size :: "File list \<Rightarrow> nat" where
  "torrent_size files = sum_list (map (\<lambda>f. unat (fl_len f)) files)"

lemma length_flat: "sized c key dir files \<Longrightarrow> length (flat c (file_keys key dir files)) = torrent_size files"
  by (induction files) (auto simp: torrent_size_def sized_Cons)

section \<open>Writing and reading a block\<close>

context file_system
begin

lemma write_region_outcome:
  assumes "ok s" "handle s f = Some k" "content s k = Some b" "off + (e - a) \<le> length b" "length b < 2 ^ 64"
    "a \<le> e" "e \<le> length buf" "write_region_from fs f (of_nat off) a e (buf, s) = (r, st')"
  shows "fst st' = buf \<and> ok (snd st') \<and> (calm s \<longrightarrow> calm (snd st')) \<and> handle s \<subseteq>\<^sub>m handle (snd st') \<and>
    (\<exists>m \<le> e - a. content (snd st') = (content s)(k \<mapsto> overwrite b off (take m (drop a buf))) \<and>
       (r = Ok () \<longrightarrow> m = e - a)) \<and> (calm s \<longrightarrow> r = Ok ())"
proof -
  define d where "d = sub_list buf a e"
  have ld: "length d = e - a" using assms(7) by (simp add: d_def)
  have off: "unat (of_nat off :: u64) = off" using assms(4,5) by (simp add: unat_of_nat)
  obtain r1 s1 where w: "fs_write fs f (of_nat off) d s = (r1, s1)" by (cases "fs_write fs f (of_nat off) d s")
  note keeps = write_keeps [OF assms(1,2) w] and law = write_law [OF assms(1,2) w]
  have st': "st' = (buf, s1)"
    using assms(7,8) w by (cases r1) (auto simp: write_region_from_def d_def on_inner_def)
  have ow: "write_at b off (take m d) = overwrite b off (take m (drop a buf))" if "m \<le> e - a" for m
  proof -
    have "take m d = take m (drop a buf)" using that by (simp add: d_def sub_list_def min_absorb1)
    moreover have "off + length (take m d) \<le> length b" using that assms(4) by simp
    ultimately show ?thesis using overwrite_write_at [of off "take m d" b] by simp
  qed
  show ?thesis
  proof (cases r1)
    case (Ok m)
    then have "m \<le> e - a" "content s1 = (content s)(k \<mapsto> overwrite b off (take m (drop a buf)))"
      using law ld off assms(3) ow [of m] by auto
    moreover have "r = (if m = e - a then Ok () else Panic)"
      using assms(7,8) w Ok by (simp add: write_region_from_def d_def on_inner_def)
    ultimately show ?thesis using keeps law ld Ok by (auto simp: st' d_def)
  next
    case (Err x)
    then have "content s1 = (content s)(k \<mapsto> overwrite b off (take 0 (drop a buf)))" using law assms(3) by auto
    moreover have "r = Err x" using assms(7,8) w Err by (simp add: write_region_from_def d_def on_inner_def)
    ultimately show ?thesis using keeps law Err by (auto simp: st' d_def intro: exI [of _ 0])
  qed (use law in simp)
qed

text \<open>Opening a file that is there and writing to it.\<close>

lemma write_file_outcome:
  assumes "ok s" "content s (key p) = Some b" "off + m \<le> length b" "length b < 2 ^ 64" "a + m \<le> length buf"
    "act_try (on_inner (fs_open fs p) (buf, s)) (\<lambda>f. write_region_from fs f (of_nat off) a (a + m)) = (r, st')"
  shows "fst st' = buf \<and> ok (snd st') \<and> (calm s \<longrightarrow> calm (snd st')) \<and>
    (\<exists>m' \<le> m. content (snd st') = (content s)(key p \<mapsto> overwrite b off (take m' (drop a buf))) \<and>
       (r = Ok () \<longrightarrow> m' = m)) \<and> (calm s \<longrightarrow> usable p \<longrightarrow> r = Ok ())"
proof -
  obtain r1 s1 where op: "fs_open fs p s = (r1, s1)" by (cases "fs_open fs p s")
  note keeps1 = open_keeps [OF assms(1) op] and law1 = open_law [OF assms(1) op]
  have c1: "content s1 = content s" using law1 assms(2) by (auto split: res.splits simp: fun_eq_iff)
  show ?thesis
  proof (cases r1)
    case (Ok f)
    then have "write_region_from fs f (of_nat off) a (a + m) (buf, s1) = (r, st')"
      using assms(6) op by (simp add: on_inner_def)
    then show ?thesis
      using write_region_outcome [of s1 f "key p" b off "a + m" a buf r st'] keeps1 law1 Ok assms c1 by auto
  next
    case (Err x)
    then have "st' = (buf, s1)" "r = Err x" using assms(6) op by (auto simp: on_inner_def)
    moreover have "content s1 = (content s)(key p \<mapsto> overwrite b off (take 0 (drop a buf)))" using c1 assms(2) by auto
    ultimately show ?thesis using keeps1 open_calm [OF assms(1), of p] op Err by auto
  qed (use law1 in simp)
qed

lemma run_files_write:
  assumes "ok s" "sized (content s) key dir files" "distinct (file_keys key dir files)"
    "tot \<le> length buf" "acc \<le> tot"
    "run_files fs dir (write_region_from fs) tot files skip acc (buf, s) = (r, st')"
  shows "fst st' = buf \<and> ok (snd st') \<and> (calm s \<longrightarrow> calm (snd st')) \<and>
    (\<forall>k. k \<notin> set (file_keys key dir files) \<longrightarrow> content (snd st') k = content s k) \<and>
    sized (content (snd st')) key dir files \<and>
    partly_overwritten (flat (content s) (file_keys key dir files)) skip (take (tot - acc) (drop acc buf))
      (flat (content (snd st')) (file_keys key dir files)) \<and>
    (r = Ok () \<longrightarrow> flat (content (snd st')) (file_keys key dir files) =
       overwrite (flat (content s) (file_keys key dir files)) skip (take (tot - acc) (drop acc buf))) \<and>
    (calm s \<longrightarrow> (\<forall>f \<in> set files. usable (build_path dir f)) \<longrightarrow> r = Ok ())"
  using assms
proof (induction files arbitrary: s skip acc)
  case (Cons fl files)
  define k where "k = key (build_path dir fl)"
  define ks where "ks = file_keys key dir files"
  define n where "n = unat (fl_len fl)"
  define d where "d = take (tot - acc) (drop acc buf)"
  obtain b where b: "content s k = Some b" "length b = n" using Cons.prems(2) by (auto simp: sized_Cons k_def n_def)
  have fresh: "k \<notin> set ks" and dist: "distinct ks" using Cons.prems(3) by (simp_all add: k_def ks_def)
  have rest: "sized (content s) key dir files" using Cons.prems(2) by (simp add: sized_Cons)
  have keys: "file_keys key dir (fl # files) = k # ks" by (simp add: k_def ks_def)
  show ?case
  proof (cases "skip < n \<and> acc < tot")
    case False
    have call: "run_files fs dir (write_region_from fs) tot files (skip - n) acc (buf, s) = (r, st')"
      using Cons.prems(6) False by (cases "skip < n") (auto simp: Let_def n_def min_def split: if_splits)
    note IH = Cons.IH [OF Cons.prems(1) rest dist [unfolded ks_def] Cons.prems(4,5) call, folded ks_def d_def]
    have b': "content (snd st') k = Some b" using IH fresh b by simp
    have d: "n \<le> skip \<or> d = []" using False Cons.prems(5) by (auto simp: d_def)
    have "partly_overwritten (b @ flat (content s) ks) skip d (b @ flat (content (snd st')) ks)"
      using IH d b partly_overwritten_beyond [of b skip] partly_overwritten_across [of skip b d b]
      by (cases "n \<le> skip") auto
    moreover have "b @ overwrite (flat (content s) ks) (skip - n) d = overwrite (b @ flat (content s) ks) skip d"
      using d b by (auto simp: overwrite_beyond)
    ultimately show ?thesis
      unfolding keys d_def [symmetric] sized_Cons k_def [symmetric] n_def [symmetric] using IH b b' by simp
  next
    case True
    define m where "m = min (tot - acc) (n - skip)"
    obtain r2 st2 where wr: "act_try (on_inner (fs_open fs (build_path dir fl)) (buf, s))
        (\<lambda>f. write_region_from fs f (of_nat skip) acc (acc + m)) = (r2, st2)"
      by (cases "act_try (on_inner (fs_open fs (build_path dir fl)) (buf, s))
        (\<lambda>f. write_region_from fs f (of_nat skip) acc (acc + m))")
    have r2: "(r, st') = act_try (r2, st2) (\<lambda>_. run_files fs dir (write_region_from fs) tot files 0 (acc + m))"
      using Cons.prems(6) True unfolding wr [symmetric] act_try_assoc
      by (simp add: Let_def n_def [symmetric] min_absorb1 m_def [symmetric])
    have lens: "skip + m \<le> length b" "length b < 2 ^ 64" "acc + m \<le> length buf"
      using True Cons.prems(4) b(2) unat_less [of "fl_len fl"] by (auto simp: m_def n_def)
    note w = write_file_outcome [OF Cons.prems(1) b(1) [unfolded k_def] lens wr, folded k_def]
    then obtain m' where "m' \<le> m" and c2: "content (snd st2) = (content s)(k \<mapsto> overwrite b skip (take m' (drop acc buf)))"
      and m'm: "r2 = Ok () \<longrightarrow> m' = m" by blast
    then have m': "content (snd st2) = (content s)(k \<mapsto> overwrite b skip (take m' d))"
      by (simp add: d_def m_def min_absorb1)
    have skip: "skip \<le> length b" and m: "m = min (length d) (length b - skip)"
      using True Cons.prems(4) b by (simp_all add: m_def d_def)
    have s2: "sized (content (snd st2)) key dir files" "flat (content (snd st2)) ks = flat (content s) ks"
      using fresh rest by (simp_all add: m' update_outside ks_def)
    show ?thesis
    proof (cases "r2 = Ok ()")
      case True
      have call: "run_files fs dir (write_region_from fs) tot files 0 (acc + m) (buf, snd st2) = (r, st')"
        using r2 w True by (cases st2) simp
      have le: "acc + m \<le> tot" and dm: "take (tot - (acc + m)) (drop (acc + m) buf) = drop m d"
        using Cons.prems(5) by (simp_all add: m_def d_def drop_take add.commute)
      have ok2: "ok (snd st2)" using w by simp
      note IH = Cons.IH [OF ok2 s2(1) dist [unfolded ks_def] Cons.prems(4) le call, folded ks_def, unfolded dm s2(2)]
      have "content (snd st') k = Some (overwrite b skip (take m d))" using IH fresh m' m'm True by simp
      then show ?thesis
        unfolding keys d_def [symmetric] sized_Cons k_def [symmetric] n_def [symmetric]
        using IH b m' w partly_first_part [OF skip m] overwrite_first_part [OF skip m] by auto
    next
      case False
      then have "r = r2" "st' = st2" using r2 by (cases r2; simp)+
      moreover have "content (snd st2) k = Some (overwrite b skip (take m' d))"
        "\<forall>j. j \<noteq> k \<longrightarrow> content (snd st2) j = content s j" by (simp_all add: m')
      ultimately show ?thesis
        unfolding keys d_def [symmetric] sized_Cons k_def [symmetric] n_def [symmetric]
        using False b w s2 partly_first_part [OF skip m] by simp
    qed
  qed
qed auto

lemma read_file_outcome:
  assumes "ok s" "content s (key p) = Some b" "off + m \<le> length b" "length b < 2 ^ 64" "a + m \<le> length buf"
    "act_try (on_inner (fs_open fs p) (buf, s)) (\<lambda>f. read_region_into fs f (of_nat off) a (a + m)) = (r, st')"
  shows "ok (snd st') \<and> (calm s \<longrightarrow> calm (snd st')) \<and> content (snd st') = content s \<and>
    (\<exists>m' \<le> m. fst st' = overwrite buf a (take m' (drop off b)) \<and> (r = Ok () \<longrightarrow> m' = m)) \<and>
    (calm s \<longrightarrow> usable p \<longrightarrow> r = Ok ())"
proof -
  obtain r1 s1 where op: "fs_open fs p s = (r1, s1)" by (cases "fs_open fs p s")
  note keeps1 = open_keeps [OF assms(1) op] and law1 = open_law [OF assms(1) op]
  have c1: "content s1 = content s" using law1 assms(2) by (auto split: res.splits simp: fun_eq_iff)
  show ?thesis
  proof (cases r1)
    case (Ok f)
    have off: "unat (of_nat off :: u64) = off" using assms(3,4) by (simp add: unat_of_nat)
    obtain r2 s2 where rd: "fs_read fs f (of_nat off) m s1 = (r2, s2)" by (cases "fs_read fs f (of_nat off) m s1")
    have "ok s1" "handle s1 f = Some (key p)" using keeps1 law1 Ok by auto
    note keeps2 = read_keeps [OF this rd] and law2 = read_law [OF this rd, unfolded off]
    have fin: "act_try (r2, (buf, s2)) (\<lambda>d (piece_buffer, s).
        (if length d = m then Ok () else Panic, write_at piece_buffer a d, s)) = (r, st')"
      using assms(5,6) op rd Ok by (simp add: on_inner_def read_region_into_def)
    show ?thesis
    proof (cases r2)
      case r2: (Ok d)
      then obtain j where d: "d = take j (take m (drop off b))" using law2 assms(2) c1 by auto
      then have ld: "length d \<le> m" "d = take (length d) (drop off b)" by (auto simp: min_def)
      have "write_at buf a d = overwrite buf a d" using overwrite_write_at [of a d buf] ld assms(5) by simp
      then have "fst st' = overwrite buf a (take (length d) (drop off b))" "r = Ok () \<longrightarrow> length d = m"
        using fin r2 ld by (auto split: if_splits)
      then have "\<exists>m' \<le> m. fst st' = overwrite buf a (take m' (drop off b)) \<and> (r = Ok () \<longrightarrow> m' = m)" using ld by blast
      moreover have "calm s \<Longrightarrow> length d = m" using law2 r2 c1 keeps1 assms(2,3) by simp
      moreover have "snd st' = s2" "length d = m \<Longrightarrow> r = Ok ()" using fin r2 by auto
      ultimately show ?thesis using keeps1 keeps2 c1 by auto
    next
      case (Err x)
      then have "fst st' = overwrite buf a (take 0 (drop off b))" "snd st' = s2" "r = Err x" using fin by auto
      then show ?thesis using keeps1 keeps2 law2 Err c1 by auto
    qed (use law2 in simp)
  next
    case (Err x)
    then have "st' = (buf, s1)" "r = Err x" using assms(6) op by (auto simp: on_inner_def)
    moreover have "buf = overwrite buf a (take 0 (drop off b))" by simp
    ultimately show ?thesis using keeps1 c1 open_calm [OF assms(1), of p] op Err by auto
  qed (use law1 in simp)
qed

lemma run_files_read:
  assumes "ok s" "sized (content s) key dir files" "tot \<le> length buf" "acc \<le> tot"
    "run_files fs dir (read_region_into fs) tot files skip acc (buf, s) = (r, st')"
  shows "ok (snd st') \<and> (calm s \<longrightarrow> calm (snd st')) \<and> content (snd st') = content s \<and>
    partly_overwritten buf acc (take (tot - acc) (drop skip (flat (content s) (file_keys key dir files)))) (fst st') \<and>
    (r = Ok () \<longrightarrow> fst st' = overwrite buf acc
       (take (tot - acc) (drop skip (flat (content s) (file_keys key dir files))))) \<and>
    (calm s \<longrightarrow> (\<forall>f \<in> set files. usable (build_path dir f)) \<longrightarrow> r = Ok ())"
  using assms
proof (induction files arbitrary: s buf skip acc)
  case (Cons fl files)
  define k where "k = key (build_path dir fl)"
  define xs where "xs = flat (content s) (file_keys key dir files)"
  define n where "n = unat (fl_len fl)"
  obtain b where b: "content s k = Some b" "length b = n" using Cons.prems(2) by (auto simp: sized_Cons k_def n_def)
  have rest: "sized (content s) key dir files" using Cons.prems(2) by (simp add: sized_Cons)
  have keys: "flat (content s) (file_keys key dir (fl # files)) = b @ xs" using b by (simp add: k_def xs_def)
  show ?case
  proof (cases "skip < n \<and> acc < tot")
    case False
    have call: "run_files fs dir (read_region_into fs) tot files (skip - n) acc (buf, s) = (r, st')"
      using Cons.prems(5) False by (cases "skip < n") (auto simp: Let_def n_def min_def split: if_splits)
    have "take (tot - acc) (drop (skip - n) xs) = take (tot - acc) (drop skip (b @ xs))"
      using False b Cons.prems(4) by (cases "n \<le> skip") auto
    then show ?thesis using Cons.IH [OF Cons.prems(1) rest Cons.prems(3,4) call, folded xs_def] unfolding keys by simp
  next
    case True
    define m where "m = min (tot - acc) (n - skip)"
    define d where "d = take m (drop skip b)"
    obtain r2 st2 where rd: "act_try (on_inner (fs_open fs (build_path dir fl)) (buf, s))
        (\<lambda>f. read_region_into fs f (of_nat skip) acc (acc + m)) = (r2, st2)"
      by (cases "act_try (on_inner (fs_open fs (build_path dir fl)) (buf, s))
        (\<lambda>f. read_region_into fs f (of_nat skip) acc (acc + m))")
    have r2: "(r, st') = act_try (r2, st2) (\<lambda>_. run_files fs dir (read_region_into fs) tot files 0 (acc + m))"
      using Cons.prems(5) True unfolding rd [symmetric] act_try_assoc
      by (simp add: Let_def n_def [symmetric] min_absorb1 m_def [symmetric])
    have lens: "skip + m \<le> length b" "length b < 2 ^ 64" "acc + m \<le> length buf"
      using True Cons.prems(3) b(2) unat_less [of "fl_len fl"] by (auto simp: m_def n_def)
    note w = read_file_outcome [OF Cons.prems(1) b(1) [unfolded k_def] lens rd]
    have data: "take (tot - acc) (drop skip (b @ xs)) = d @ take (tot - (acc + m)) xs"
      using True b by (auto simp: d_def m_def min_def)
    have ld: "length d = m" using lens by (simp add: d_def)
    show ?thesis
    proof (cases "r2 = Ok ()")
      case r2_ok: True
      then have st2: "fst st2 = overwrite buf acc d" using w by (auto simp: d_def)
      have call: "run_files fs dir (read_region_into fs) tot files 0 (acc + m) (overwrite buf acc d, snd st2) = (r, st')"
        using r2 r2_ok st2 by (cases st2) simp
      have ok2: "ok (snd st2)" and c2: "content (snd st2) = content s" using w by simp_all
      have "tot \<le> length (overwrite buf acc d)" "acc + m \<le> tot" using Cons.prems(3,4) by (simp_all add: m_def)
      note IH = Cons.IH [OF ok2 rest [folded c2] this call, unfolded c2, folded xs_def]
      show ?thesis
        unfolding keys data
        using IH w ld overwrite_twice [of buf acc d] partly_overwritten_twice [of buf acc d "take (tot - (acc + m)) xs"]
        by auto
    next
      case False
      then have "r = r2" "st' = st2" using r2 by (cases r2; simp)+
      moreover obtain m' where "m' \<le> m" "fst st2 = overwrite buf acc (take m' (drop skip b))" using w by blast
      then have "fst st2 = overwrite buf acc (take m' d)" by (simp add: d_def min_absorb1)
      ultimately show ?thesis
        unfolding keys data using False w partly_overwritten_prefix [of buf acc d] by auto
    qed
  qed
qed auto

end

end
