(* ===== verification/Disk_Checker.thy ===== *)
theory Disk_Checker
  imports Disk_Piece
begin

text \<open>
  Checking pieces (\<open>disk/tasks/helpers/piece_checker.rs\<close>, \<open>error.rs\<close>): the state of the
  checker, merging the blocks that were written, hashing the pieces that are complete, and
  the check of the files a torrent finds on the file system.
\<close>

section \<open>Errors\<close>

datatype 'io BlockError = BlockIo 'io | BlockHashNotFound ShaHash

datatype 'io TorrentError =
    TorrentIo 'io
  | ExistingFileSizeCheck path u64 u64
  | ExistingInfoHash ShaHash
  | TorrentHashNotFound ShaHash

section \<open>PieceCheckerState\<close>

datatype PieceState = GoodPiece u64 | BadPiece u64

record PieceCheckerState =
  cs_new_states :: "PieceState list"
  cs_old_states :: "PieceState set"
  cs_pending :: "u64 \<rightharpoonup> BlockMetadata list"
  cs_total_blocks :: nat
  cs_last_block_size :: nat

definition PieceCheckerState_new :: "nat \<Rightarrow> nat \<Rightarrow> PieceCheckerState" where
  "PieceCheckerState_new total_blocks last_block_size =
     \<lparr>cs_new_states = [], cs_old_states = {}, cs_pending = Map.empty,
      cs_total_blocks = total_blocks, cs_last_block_size = last_block_size\<rparr>"

definition add_pending_block :: "BlockMetadata \<Rightarrow> PieceCheckerState \<Rightarrow> PieceCheckerState" where
  "add_pending_block msg self =
     self\<lparr>cs_pending := (cs_pending self)(bm_piece_index msg \<mapsto>
       (case cs_pending self (bm_piece_index msg) of None \<Rightarrow> [] | Some messages \<Rightarrow> messages) @ [msg])\<rparr>"

text \<open>The states the callback is called with, in this order, and the state afterwards.\<close>

definition run_with_diff :: "PieceCheckerState \<Rightarrow> PieceState list \<times> PieceCheckerState" where
  "run_with_diff self =
     (cs_new_states self, self\<lparr>cs_new_states := [], cs_old_states := cs_old_states self \<union> set (cs_new_states self)\<rparr>)"

definition merge_piece_messages :: "BlockMetadata \<Rightarrow> BlockMetadata \<Rightarrow> BlockMetadata option" where
  "merge_piece_messages message_a message_b =
     (if bm_info_hash message_a \<noteq> bm_info_hash message_b \<or> bm_piece_index message_a \<noteq> bm_piece_index message_b
      then None
      else (let start_a = bm_block_offset message_a; end_a = start_a + of_nat (bm_block_length message_a);
                start_b = bm_block_offset message_b; end_b = start_b + of_nat (bm_block_length message_b)
            in if start_b \<ge> start_a \<and> start_b \<le> end_a
               then Some (message_a\<lparr>bm_block_offset := start_a, bm_block_length := unat (max end_a end_b - start_a)\<rparr>)
               else if start_a \<ge> start_b \<and> start_a \<le> end_b
               then Some (message_a\<lparr>bm_block_offset := start_b, bm_block_length := unat (max end_a end_b - start_b)\<rparr>)
               else None))"

text \<open>The loop of \<open>merge_pieces\<close> over the messages of one piece, sorted by their offset.\<close>

function merge_loop :: "BlockMetadata list \<Rightarrow> BlockMetadata list" where
  "merge_loop messages =
     (if length messages > 1
      then (let actual_last = last messages; second_last = last (butlast messages);
                messages' = butlast (butlast messages)
            in case merge_piece_messages second_last actual_last of
                 Some merged \<Rightarrow> merge_loop (messages' @ [merged])
               | None \<Rightarrow> messages)
      else messages)"
  by pat_completeness auto

termination merge_loop
  by (relation "measure length") auto

declare merge_loop.simps [simp del]

definition merge_pieces :: "PieceCheckerState \<Rightarrow> PieceCheckerState" where
  "merge_pieces self =
     self\<lparr>cs_pending := (\<lambda>k. map_option (\<lambda>messages. merge_loop (sort_key bm_block_offset messages)) (cs_pending self k))\<rparr>"

text \<open>The first message decides; \<open>total_blocks - 1\<close> wraps around for a torrent without pieces.\<close>

definition piece_is_complete :: "nat \<Rightarrow> nat \<Rightarrow> nat \<Rightarrow> BlockMetadata list \<Rightarrow> bool" where
  "piece_is_complete total_blocks last_block_size piece_length messages \<longleftrightarrow>
     (case messages of
        [message] \<Rightarrow> bm_block_length message = piece_length \<or>
          bm_piece_index message = of_nat total_blocks - 1 \<and> bm_block_length message = last_block_size
      | _ \<Rightarrow> False)"

text \<open>
  The loop of \<open>run_with_whole_pieces\<close> over the keys of the hash map in the order the map has
  them. The callback works on a state of its own.
\<close>

primrec whole_pieces ::
  "nat \<Rightarrow> (BlockMetadata \<Rightarrow> 'x \<Rightarrow> ('x, bool, 'io) outcome) \<Rightarrow> u64 list \<Rightarrow> PieceCheckerState \<times> 'x \<Rightarrow>
     (PieceCheckerState \<times> 'x, unit, 'io) outcome" where
  "whole_pieces piece_length callback [] st = (Ok (), st)"
| "whole_pieces piece_length callback (k # ks) st =
     (case cs_pending (fst st) k of
        None \<Rightarrow> whole_pieces piece_length callback ks st
      | Some messages \<Rightarrow>
          if piece_is_complete (cs_total_blocks (fst st)) (cs_last_block_size (fst st)) piece_length messages \<and>
             GoodPiece (bm_piece_index (hd messages)) \<notin> cs_old_states (fst st)
          then act_try (on_inner (callback (hd messages)) st) (\<lambda>is_good (self, x).
               whole_pieces piece_length callback ks
                 (self\<lparr>cs_new_states := cs_new_states self @
                        [(if is_good then GoodPiece else BadPiece) (bm_piece_index (hd messages))],
                       cs_pending := (cs_pending self)(k \<mapsto> [])\<rparr>, x))
          else whole_pieces piece_length callback ks st)"

definition run_with_whole_pieces ::
  "((u64 \<rightharpoonup> BlockMetadata list) \<Rightarrow> u64 list) \<Rightarrow> nat \<Rightarrow> (BlockMetadata \<Rightarrow> 'x \<Rightarrow> ('x, bool, 'io) outcome) \<Rightarrow>
     PieceCheckerState \<times> 'x \<Rightarrow> (PieceCheckerState \<times> 'x, unit, 'io) outcome" where
  "run_with_whole_pieces order piece_length callback st =
     (let self = merge_pieces (fst st)
      in whole_pieces piece_length callback (order (cs_pending self)) (self, snd st))"

section \<open>PieceChecker\<close>

text \<open>The callback of \<open>calculate_diff\<close>: reads a piece to the front of the buffer and compares its hash.\<close>

definition check_piece ::
  "'d Sha1 \<Rightarrow> ('s, 'f, 'io) FileSystem \<Rightarrow> Info \<Rightarrow> BlockMetadata \<Rightarrow> bytes \<times> 's \<Rightarrow> (bytes \<times> 's, bool, 'io) outcome" where
  "check_piece D fs info_dict message st =
     (let n = bm_block_length message; piece_buffer = fst st
      in if n \<le> length piece_buffer
         then (case read_piece fs info_dict message (take n piece_buffer, snd st) of (r, front, s) \<Rightarrow>
               let piece_buffer = front @ drop n piece_buffer
               in act_try (r, piece_buffer, s) (\<lambda>_ st.
                  (try_res (unwrap (get_at (inf_pieces info_dict) (unat (bm_piece_index message)))) (\<lambda>expected.
                   try_res (unwrap_res (ShaHash_from_hash expected)) (\<lambda>expected_hash.
                   Ok (ShaHash_from_bytes D (take n piece_buffer) = expected_hash))), st)))
         else (Panic, st))"

definition calculate_diff ::
  "'d Sha1 \<Rightarrow> ((u64 \<rightharpoonup> BlockMetadata list) \<Rightarrow> u64 list) \<Rightarrow> ('s, 'f, 'io) FileSystem \<Rightarrow> Info \<Rightarrow>
     PieceCheckerState \<times> 's \<Rightarrow> (PieceCheckerState \<times> 's, unit, 'io) outcome" where
  "calculate_diff D order fs info_dict st =
     (let piece_length = unat (inf_piece_len info_dict)
      in case run_with_whole_pieces order piece_length (check_piece D fs info_dict)
           (fst st, replicate piece_length 0, snd st) of
           (r, self, buf, s) \<Rightarrow> (r, self, s))"

definition total_bytes :: "Info \<Rightarrow> u64" where
  "total_bytes info_dict = sum_list (map fl_len (inf_files info_dict))"

definition last_piece_size :: "Info \<Rightarrow> (nat, 'e) res" where
  "last_piece_size info_dict =
     (if inf_piece_len info_dict = 0 then Panic else Ok (unat (total_bytes info_dict mod inf_piece_len info_dict)))"

definition fill_checker_state :: "Info \<Rightarrow> PieceCheckerState \<Rightarrow> (PieceCheckerState, 'e) res" where
  "fill_checker_state info_dict self =
     (let piece_length = inf_piece_len info_dict
      in if piece_length = 0 then Panic
         else (let full_pieces = total_bytes info_dict div piece_length
               in try_res (last_piece_size info_dict) (\<lambda>last_piece_size.
                  let self = fold (\<lambda>piece_index. add_pending_block
                        (BlockMetadata_with_default_hash (of_nat piece_index) 0 (unat piece_length)))
                        [0..<unat full_pieces] self
                  in Ok (if last_piece_size \<noteq> 0
                         then add_pending_block (BlockMetadata_with_default_hash full_pieces 0 last_piece_size) self
                         else self))))"

text \<open>The result of the write of a single byte is not looked at; an error of it is a panic.\<close>

definition validate_file ::
  "('s, 'f, 'io) FileSystem \<Rightarrow> path option \<Rightarrow> File \<Rightarrow> 's \<Rightarrow> ('s, unit, 'io TorrentError) outcome" where
  "validate_file fs dir f s =
     (let file_path = build_path dir f; expected_size = fl_len f
      in case fs_open fs file_path s of
           (Ok h, s) \<Rightarrow>
             (case fs_size fs h s of
                (Ok actual_size, s) \<Rightarrow>
                  (if actual_size \<noteq> expected_size \<and> actual_size = 0
                   then (case fs_write fs h (expected_size - 1) [0] s of
                           (Ok n, s) \<Rightarrow> (Ok (), s)
                         | (_, s) \<Rightarrow> (Panic, s))
                   else if actual_size \<noteq> expected_size
                   then (Err (ExistingFileSizeCheck file_path expected_size actual_size), s)
                   else (Ok (), s))
              | (Err e, s) \<Rightarrow> (Err (TorrentIo e), s)
              | (Panic, s) \<Rightarrow> (Panic, s))
         | (Err e, s) \<Rightarrow> (Err (TorrentIo e), s)
         | (Panic, s) \<Rightarrow> (Panic, s))"

primrec validate_files_sizes ::
  "('s, 'f, 'io) FileSystem \<Rightarrow> path option \<Rightarrow> File list \<Rightarrow> 's \<Rightarrow> ('s, unit, 'io TorrentError) outcome" where
  "validate_files_sizes fs dir [] s = (Ok (), s)"
| "validate_files_sizes fs dir (f # files) s =
     act_try (validate_file fs dir f s) (\<lambda>_. validate_files_sizes fs dir files)"

definition init_state ::
  "'d Sha1 \<Rightarrow> ((u64 \<rightharpoonup> BlockMetadata list) \<Rightarrow> u64 list) \<Rightarrow> ('s, 'f, 'io) FileSystem \<Rightarrow> Info \<Rightarrow> 's \<Rightarrow>
     ('s, PieceCheckerState, 'io TorrentError) outcome" where
  "init_state D order fs info_dict s =
     act_try (last_piece_size info_dict, s) (\<lambda>last_size s.
     let self = PieceCheckerState_new (length (inf_pieces info_dict)) last_size
     in act_try (validate_files_sizes fs (inf_dir info_dict) (inf_files info_dict) s) (\<lambda>_ s.
        act_try (fill_checker_state info_dict self, s) (\<lambda>self s.
        case calculate_diff D order fs info_dict (self, s) of
          (r, self, s) \<Rightarrow> act_try (map_err TorrentIo r, s) (\<lambda>_ s. (Ok self, s)))))"

section \<open>Merging blocks\<close>

text \<open>
  The bytes of its piece that a block covers, and the blocks that lie in a piece of \<open>n\<close> bytes
  and do not overlap.
\<close>

definition block_lo :: "BlockMetadata \<Rightarrow> nat" where
  "block_lo m = unat (bm_block_offset m)"

definition block_hi :: "BlockMetadata \<Rightarrow> nat" where
  "block_hi m = block_lo m + bm_block_length m"

definition block_range :: "BlockMetadata \<Rightarrow> nat set" where
  "block_range m = {block_lo m..<block_hi m}"

definition block_in :: "ShaHash \<Rightarrow> u64 \<Rightarrow> nat \<Rightarrow> BlockMetadata \<Rightarrow> bool" where
  "block_in h k n m \<longleftrightarrow> bm_info_hash m = h \<and> bm_piece_index m = k \<and> 0 < bm_block_length m \<and> block_hi m \<le> n"

definition covered :: "BlockMetadata list \<Rightarrow> nat set" where
  "covered ms = (\<Union>m \<in> set ms. block_range m)"

definition in_order :: "BlockMetadata list \<Rightarrow> bool" where
  "in_order ms \<longleftrightarrow> sorted_wrt (\<lambda>a b. block_hi a \<le> block_lo b) ms"

lemma covered_simps [simp]: "covered [] = {}" "covered (m # ms) = block_range m \<union> covered ms"
  "covered (ms @ ns) = covered ms \<union> covered ns"
  by (auto simp: covered_def)

lemma merge_adjacent:
  assumes "block_in h k n a" "block_in h k n b" "block_hi a \<le> block_lo b" "n < 2 ^ 64"
  shows "merge_piece_messages a b =
    (if block_hi a = block_lo b then Some (a\<lparr>bm_block_length := block_hi b - block_lo a\<rparr>) else None)"
proof -
  define ea where "ea = bm_block_offset a + of_nat (bm_block_length a)"
  define eb where "eb = bm_block_offset b + of_nat (bm_block_length b)"
  have len: "block_hi a < 2 ^ 64" "block_hi b < 2 ^ 64" using assms by (auto simp: block_in_def)
  have e: "unat ea = block_hi a" "unat eb = block_hi b"
    using len by (simp_all add: ea_def eb_def block_hi_def block_lo_def unat_word_ariths unat_of_nat)
  have lt: "block_lo a < block_hi a" "block_lo b < block_hi b" using assms by (auto simp: block_in_def block_hi_def)
  have c: "bm_block_offset b \<ge> bm_block_offset a" "bm_block_offset b \<le> ea \<longleftrightarrow> block_lo b \<le> block_hi a"
    "\<not> bm_block_offset a \<ge> bm_block_offset b" "max ea eb = eb"
    using assms(3) lt e by (simp_all add: word_le_nat_alt block_lo_def max_def)
  have "unat (eb - bm_block_offset a) = block_hi b - block_lo a"
    using assms(3) lt e by (subst unat_sub) (auto simp: word_le_nat_alt block_lo_def)
  then show ?thesis
    using assms(1-3) c by (simp add: merge_piece_messages_def Let_def ea_def [symmetric] eb_def [symmetric] block_in_def)
qed

text \<open>The loop stops with at most one block, or with a gap before the last one.\<close>

lemma merge_loop_snoc:
  "merge_loop (xs @ [a, b]) =
     (case merge_piece_messages a b of Some m \<Rightarrow> merge_loop (xs @ [m]) | None \<Rightarrow> xs @ [a, b])"
  by (subst merge_loop.simps) (simp add: butlast_append Let_def)

lemma merge_loop_short: "length ms \<le> 1 \<Longrightarrow> merge_loop ms = ms"
  by (subst merge_loop.simps) simp

lemma two_last: "1 < length ms \<Longrightarrow> \<exists>xs a b. ms = xs @ [a, b]"
  by (cases ms rule: rev_cases; cases "butlast ms" rule: rev_cases) auto

lemma merge_loop_keeps:
  assumes "n < 2 ^ 64" "\<forall>m \<in> set ms. block_in h k n m" "in_order ms"
  shows "(\<forall>m \<in> set (merge_loop ms). block_in h k n m) \<and> in_order (merge_loop ms) \<and>
    covered (merge_loop ms) = covered ms \<and>
    (length (merge_loop ms) \<le> 1 \<or> (\<exists>xs a b. merge_loop ms = xs @ [a, b] \<and> block_hi a < block_lo b))"
  using assms(2,3)
proof (induction ms rule: length_induct)
  case (1 ms)
  show ?case
  proof (cases "1 < length ms")
    case True
    then obtain xs a b where ms: "ms = xs @ [a, b]" using two_last by blast
    have ab: "block_in h k n a" "block_in h k n b" "block_hi a \<le> block_lo b"
      using 1(2,3) by (simp_all add: ms in_order_def sorted_wrt_append)
    note merge = merge_adjacent [OF ab assms(1)]
    show ?thesis
    proof (cases "block_hi a = block_lo b")
      case True
      define m where "m = a\<lparr>bm_block_length := block_hi b - block_lo a\<rparr>"
      have lt: "block_lo a < block_hi a" "block_lo b < block_hi b"
        using ab by (auto simp: block_in_def block_hi_def)
      then have "block_in h k n m" "block_lo m = block_lo a" "block_hi m = block_hi b" "block_range m = block_range a \<union> block_range b"
        using ab True by (auto simp: m_def block_in_def block_hi_def block_lo_def block_range_def)
      moreover from this have "in_order (xs @ [m])"
        using 1(3) by (auto simp: ms in_order_def sorted_wrt_append)
      moreover have "merge_loop ms = merge_loop (xs @ [m])" using merge True by (simp add: ms merge_loop_snoc m_def)
      ultimately show ?thesis using 1(1) [rule_format, of "xs @ [m]"] 1(2) by (auto simp: ms)
    next
      case False
      then have "merge_loop ms = ms" using merge by (simp add: ms merge_loop_snoc)
      then show ?thesis using 1(2,3) False ab(3) by (auto simp: ms)
    qed
  qed (use 1(2,3) in \<open>simp add: merge_loop_short\<close>)
qed

lemma gap_not_covered:
  assumes "in_order (xs @ [a, b])" "\<forall>m \<in> set (xs @ [a, b]). block_in h k n m" "block_hi a < block_lo b"
  shows "block_hi a < n \<and> block_hi a \<notin> covered (xs @ [a, b])"
proof -
  have "block_lo a < block_hi a" "block_lo b < block_hi b" "block_hi b \<le> n"
    using assms(2) by (simp_all add: block_in_def block_hi_def)
  moreover have "\<forall>x \<in> set xs. block_hi x \<le> block_lo a" using assms(1) by (simp add: in_order_def sorted_wrt_append)
  ultimately show ?thesis using assms(3) by (force simp: covered_def block_range_def)
qed

lemma merge_loop_complete:
  assumes "n < 2 ^ 64" "0 < n" "\<forall>m \<in> set ms. block_in h k n m" "in_order ms"
  shows "(\<exists>m. merge_loop ms = [m] \<and> bm_block_length m = n) \<longleftrightarrow> covered ms = {0..<n}"
proof
  note keeps = merge_loop_keeps [OF assms(1,3,4)]
  {
    assume "\<exists>m. merge_loop ms = [m] \<and> bm_block_length m = n"
    then obtain m where m: "merge_loop ms = [m]" "bm_block_length m = n" by blast
    then have "block_lo m = 0" "block_hi m = n" using keeps by (auto simp: block_in_def block_hi_def)
    then show "covered ms = {0..<n}" using keeps m by (simp add: block_range_def)
  next
    assume c: "covered ms = {0..<n}"
    have "\<not> (\<exists>xs a b. merge_loop ms = xs @ [a, b] \<and> block_hi a < block_lo b)"
    proof
      assume "\<exists>xs a b. merge_loop ms = xs @ [a, b] \<and> block_hi a < block_lo b"
      then obtain xs a b where g: "merge_loop ms = xs @ [a, b]" "block_hi a < block_lo b" by blast
      show False using gap_not_covered [of xs a b h k n] keeps c g by auto
    qed
    moreover have "merge_loop ms \<noteq> []" using keeps c assms(2) by auto
    ultimately obtain m where m: "merge_loop ms = [m]" using keeps by (cases "merge_loop ms") auto
    then have "{block_lo m..<block_hi m} = {0..<n}" using keeps c by (simp add: block_range_def)
    moreover have "block_lo m < block_hi m" using keeps m by (auto simp: block_in_def block_hi_def)
    ultimately have "block_lo m = 0 \<and> block_hi m = n" using assms(2) atLeastLessThan_inj by metis
    then show "\<exists>m. merge_loop ms = [m] \<and> bm_block_length m = n" using m by (auto simp: block_hi_def)
  }
qed

text \<open>Blocks that do not overlap are in order once they are sorted.\<close>

definition disjoint_blocks :: "BlockMetadata list \<Rightarrow> bool" where
  "disjoint_blocks ms \<longleftrightarrow> distinct ms \<and>
     (\<forall>a \<in> set ms. \<forall>b \<in> set ms. a \<noteq> b \<longrightarrow> block_range a \<inter> block_range b = {})"

lemma disjoint_order:
  assumes "block_range a \<inter> block_range b = {}" "block_lo a \<le> block_lo b" "block_lo b < block_hi b"
  shows "block_hi a \<le> block_lo b"
proof (rule ccontr)
  assume "\<not> block_hi a \<le> block_lo b"
  then have "block_lo b \<in> block_range a \<inter> block_range b" using assms(2,3) by (simp add: block_range_def)
  then show False using assms(1) by blast
qed

lemma sort_in_order:
  assumes "disjoint_blocks ms" "\<forall>m \<in> set ms. block_in h k n m"
  shows "in_order (sort_key bm_block_offset ms)"
  unfolding in_order_def sorted_wrt_iff_nth_less
proof (intro allI impI)
  fix i j
  define ns where "ns = sort_key bm_block_offset ms"
  assume ij: "i < j" "j < length (sort_key bm_block_offset ms)"
  then have "i < length ns" "j < length ns" by (simp_all add: ns_def)
  then have "ns ! i \<in> set ns" "ns ! j \<in> set ns" by simp_all
  then have mem: "ns ! i \<in> set ms" "ns ! j \<in> set ms" by (simp_all add: ns_def)
  have "distinct ns" using assms(1) by (simp add: ns_def disjoint_blocks_def)
  then have "ns ! i \<noteq> ns ! j" using ij by (simp add: ns_def nth_eq_iff_index_eq)
  then have "block_range (ns ! i) \<inter> block_range (ns ! j) = {}" using assms(1) mem by (simp add: disjoint_blocks_def)
  moreover have "bm_block_offset (ns ! i) \<le> bm_block_offset (ns ! j)"
    using ij sorted_nth_mono [OF sorted_sort_key [of bm_block_offset ms], of i j] by (simp add: ns_def)
  moreover have "block_lo (ns ! j) < block_hi (ns ! j)" using assms(2) mem by (auto simp: block_in_def block_hi_def)
  ultimately show "block_hi (sort_key bm_block_offset ms ! i) \<le> block_lo (sort_key bm_block_offset ms ! j)"
    using disjoint_order by (simp add: ns_def block_lo_def word_le_nat_alt)
qed

lemma in_order_disjoint:
  assumes "in_order ms" "\<forall>m \<in> set ms. block_in h k n m"
  shows "disjoint_blocks ms"
  using assms
proof (induction ms)
  case (Cons m ms)
  then have "block_range m \<inter> block_range x = {}" "m \<noteq> x" if "x \<in> set ms" for x
    using that by (fastforce simp: in_order_def block_range_def block_in_def block_hi_def)+
  then show ?case using Cons by (auto simp: disjoint_blocks_def in_order_def)
qed (simp add: disjoint_blocks_def)

end
