(* ===== verification/Disk_Check_Props.thy ===== *)
theory Disk_Check_Props
  imports Disk_Checker
begin

text \<open>
  What the piece checker does: which pieces a run of it hashes, and what it says about them.
  The lemmas are proved for every file system with the laws of \<open>file_system\<close>. The sections
  follow a run: one piece, the loop over the pieces, the files of a new torrent.
\<close>

section \<open>The pieces of a torrent\<close>

definition torrent_keys :: "(path \<Rightarrow> 'k) \<Rightarrow> Info \<Rightarrow> 'k list" where
  "torrent_keys key info_dict = file_keys key (inf_dir info_dict) (inf_files info_dict)"

definition torrent_data :: "(path \<Rightarrow> 'k) \<Rightarrow> Info \<Rightarrow> ('k \<rightharpoonup> bytes) \<Rightarrow> bytes" where
  "torrent_data key info_dict c = flat c (torrent_keys key info_dict)"

definition torrent_sized :: "(path \<Rightarrow> 'k) \<Rightarrow> Info \<Rightarrow> ('k \<rightharpoonup> bytes) \<Rightarrow> bool" where
  "torrent_sized key info_dict c \<longleftrightarrow> sized c key (inf_dir info_dict) (inf_files info_dict)"

definition info_size :: "Info \<Rightarrow> nat" where
  "info_size info_dict = torrent_size (inf_files info_dict)"

definition num_pieces :: "Info \<Rightarrow> nat" where
  "num_pieces info_dict = length (inf_pieces info_dict)"

definition piece_size :: "Info \<Rightarrow> nat \<Rightarrow> nat" where
  "piece_size info_dict i =
     min (unat (inf_piece_len info_dict)) (info_size info_dict - i * unat (inf_piece_len info_dict))"

definition piece_bytes :: "Info \<Rightarrow> bytes \<Rightarrow> nat \<Rightarrow> bytes" where
  "piece_bytes info_dict xs i =
     take (unat (inf_piece_len info_dict)) (drop (i * unat (inf_piece_len info_dict)) xs)"

definition piece_good :: "'d Sha1 \<Rightarrow> Info \<Rightarrow> bytes \<Rightarrow> nat \<Rightarrow> bool" where
  "piece_good D info_dict xs i \<longleftrightarrow> ShaHash_from_bytes D (piece_bytes info_dict xs i) = inf_pieces info_dict ! i"

definition verdict :: "'d Sha1 \<Rightarrow> Info \<Rightarrow> bytes \<Rightarrow> u64 \<Rightarrow> PieceState" where
  "verdict D info_dict xs k = (if piece_good D info_dict xs (unat k) then GoodPiece k else BadPiece k)"

text \<open>A torrent that has a hash for every piece, and whose size is a number of the program.\<close>

definition torrent_wf :: "Info \<Rightarrow> bool" where
  "torrent_wf info_dict \<longleftrightarrow> inf_piece_len info_dict \<noteq> 0 \<and> info_size info_dict < 2 ^ 64 \<and>
     num_pieces info_dict = (info_size info_dict + unat (inf_piece_len info_dict) - 1) div unat (inf_piece_len info_dict) \<and>
     (\<forall>p \<in> set (inf_pieces info_dict). sha_ok p)"

lemma plen_pos: "torrent_wf info_dict \<Longrightarrow> 0 < unat (inf_piece_len info_dict)"
  by (simp add: torrent_wf_def unat_gt_0)

lemma less_ceil_div: "0 < p \<Longrightarrow> i < (n + p - 1) div p \<longleftrightarrow> i * p < n" for p :: nat
  using less_eq_div_iff_mult_less_eq [of p "Suc i" "n + p - 1"] by (cases p) auto

lemma piece_start:
  assumes "torrent_wf info_dict"
  shows "i < num_pieces info_dict \<longleftrightarrow> i * unat (inf_piece_len info_dict) < info_size info_dict"
  using less_ceil_div [OF plen_pos [OF assms]] assms by (simp add: torrent_wf_def)

lemma piece_size_pos: "torrent_wf info_dict \<Longrightarrow> i < num_pieces info_dict \<Longrightarrow> 0 < piece_size info_dict i"
  using piece_start plen_pos by (simp add: piece_size_def)

lemma piece_size_less: "torrent_wf info_dict \<Longrightarrow> piece_size info_dict i < 2 ^ 64"
  using unat_less [of "inf_piece_len info_dict"] by (simp add: piece_size_def min_def)

lemma length_torrent_data:
  "torrent_sized key info_dict c \<Longrightarrow> length (torrent_data key info_dict c) = info_size info_dict"
  by (simp add: torrent_sized_def torrent_data_def torrent_keys_def info_size_def length_flat)

lemma piece_bytes_size:
  "length xs = info_size info_dict \<Longrightarrow>
     piece_bytes info_dict xs i = take (piece_size info_dict i) (drop (i * unat (inf_piece_len info_dict)) xs)"
  by (cases "unat (inf_piece_len info_dict) \<le> info_size info_dict - i * unat (inf_piece_len info_dict)")
    (simp_all add: piece_bytes_def piece_size_def)

section \<open>Checking one piece\<close>

text \<open>The block that is the whole piece \<open>k\<close>.\<close>

definition whole_block :: "Info \<Rightarrow> u64 \<Rightarrow> BlockMetadata \<Rightarrow> bool" where
  "whole_block info_dict k m \<longleftrightarrow> bm_piece_index m = k \<and> bm_block_offset m = 0 \<and>
     unat k < num_pieces info_dict \<and> bm_block_length m = piece_size info_dict (unat k)"

lemma block_start_whole:
  assumes "torrent_wf info_dict" "whole_block info_dict k m"
  shows "block_start info_dict m = unat k * unat (inf_piece_len info_dict)"
proof -
  have "unat k * unat (inf_piece_len info_dict) < 2 ^ 64"
    using assms piece_start [OF assms(1), of "unat k"] by (simp add: torrent_wf_def whole_block_def)
  then show ?thesis using assms(2) by (simp add: block_start_def whole_block_def unat_word_ariths)
qed

context file_system
begin

definition usable_torrent :: "Info \<Rightarrow> bool" where
  "usable_torrent info_dict \<longleftrightarrow> (\<forall>f \<in> set (inf_files info_dict). usable (build_path (inf_dir info_dict) f))"

lemma read_whole_piece:
  assumes "torrent_wf info_dict" "whole_block info_dict k m" "ok s" "torrent_sized key info_dict (content s)"
    "length buf = bm_block_length m" "read_piece fs info_dict m (buf, s) = (r, st')"
  shows "ok (snd st') \<and> (calm s \<longrightarrow> calm (snd st')) \<and> content (snd st') = content s \<and> length (fst st') = length buf \<and>
    (r = Ok () \<longrightarrow> fst st' = piece_bytes info_dict (torrent_data key info_dict (content s)) (unat k)) \<and>
    (calm s \<longrightarrow> usable_torrent info_dict \<longrightarrow> r = Ok ())"
proof -
  define xs where "xs = torrent_data key info_dict (content s)"
  have len: "length xs = info_size info_dict" using assms(4) by (simp add: xs_def length_torrent_data)
  have run: "run_files fs (inf_dir info_dict) (read_region_into fs) (length buf) (inf_files info_dict)
      (unat k * unat (inf_piece_len info_dict)) 0 (buf, s) = (r, st')"
    using assms(5,6) block_start_whole [OF assms(1,2)] by (simp add: read_piece_def run_with_file_regions_def)
  note o = run_files_read [OF assms(3) assms(4) [unfolded torrent_sized_def] order_refl le0 run]
  have p: "piece_bytes info_dict xs (unat k) = take (length buf) (drop (unat k * unat (inf_piece_len info_dict)) xs)"
    using piece_bytes_size [OF len] assms(2,5) by (simp add: whole_block_def)
  have "length (piece_bytes info_dict xs (unat k)) = length buf"
    using p len assms(2,5) by (auto simp: whole_block_def piece_size_def)
  then have "overwrite buf 0 (piece_bytes info_dict xs (unat k)) = piece_bytes info_dict xs (unat k)"
    by (simp add: overwrite_def)
  then show ?thesis
    using o p by (auto simp: xs_def torrent_data_def torrent_keys_def usable_torrent_def partly_overwritten_def)
qed

lemma check_piece_outcome:
  assumes "torrent_wf info_dict" "whole_block info_dict k m" "ok s" "torrent_sized key info_dict (content s)"
    "length buf = unat (inf_piece_len info_dict)" "check_piece D fs info_dict m (buf, s) = (r, st')"
  shows "ok (snd st') \<and> (calm s \<longrightarrow> calm (snd st')) \<and> content (snd st') = content s \<and> length (fst st') = length buf \<and>
    (\<forall>g. r = Ok g \<longrightarrow> g = piece_good D info_dict (torrent_data key info_dict (content s)) (unat k)) \<and>
    (calm s \<longrightarrow> usable_torrent info_dict \<longrightarrow> (\<exists>g. r = Ok g))"
proof -
  define n where "n = bm_block_length m"
  have n: "n \<le> length buf" using assms(2,5) by (simp add: n_def whole_block_def piece_size_def)
  have k: "unat k < length (inf_pieces info_dict)" "bm_piece_index m = k"
    using assms(2) by (simp_all add: whole_block_def num_pieces_def)
  obtain r1 front s1 where rd: "read_piece fs info_dict m (take n buf, s) = (r1, front, s1)"
    by (cases "read_piece fs info_dict m (take n buf, s)") auto
  have "length (take n buf) = bm_block_length m" using n by (simp add: n_def)
  note o = read_whole_piece [OF assms(1-4) this rd]
  have len: "length front = n" using o n by simp
  have hash: "ShaHash_from_hash (inf_pieces info_dict ! unat k) = Ok (inf_pieces info_dict ! unat k)"
    using assms(1) k by (auto simp: torrent_wf_def from_hash_eq)
  have get: "get_at (inf_pieces info_dict) (unat k) = Some (inf_pieces info_dict ! unat k)" using k by simp
  have fin: "(r, st') = act_try (r1, front @ drop n buf, s1)
      (\<lambda>_ st. (Ok (ShaHash_from_bytes D front = inf_pieces info_dict ! unat k), st))"
    using assms(6) rd n len by (simp add: check_piece_def n_def [symmetric] k get hash Let_def)
  show ?thesis
    using o fin n len by (cases r1) (auto simp: piece_good_def)
qed

end

section \<open>The loop over the pieces\<close>

text \<open>The pieces that are hashed, and that each of them is a whole one.\<close>

definition due :: "Info \<Rightarrow> PieceCheckerState \<Rightarrow> u64 \<Rightarrow> bool" where
  "due info_dict self k \<longleftrightarrow>
     (\<exists>m. cs_pending self k = Some [m] \<and>
        piece_is_complete (cs_total_blocks self) (cs_last_block_size self) (unat (inf_piece_len info_dict)) [m] \<and>
        GoodPiece (bm_piece_index m) \<notin> cs_old_states self)"

definition whole_ok :: "Info \<Rightarrow> PieceCheckerState \<Rightarrow> bool" where
  "whole_ok info_dict self \<longleftrightarrow>
     (\<forall>k m. cs_pending self k = Some [m] \<longrightarrow>
        piece_is_complete (cs_total_blocks self) (cs_last_block_size self) (unat (inf_piece_len info_dict)) [m] \<longrightarrow>
        whole_block info_dict k m)"

text \<open>The state after the pieces \<open>ks\<close> were hashed.\<close>

definition hashed :: "'d Sha1 \<Rightarrow> Info \<Rightarrow> bytes \<Rightarrow> u64 list \<Rightarrow> PieceCheckerState \<Rightarrow> PieceCheckerState" where
  "hashed D info_dict xs ks self =
     self\<lparr>cs_new_states := cs_new_states self @ map (verdict D info_dict xs) ks,
          cs_pending := (\<lambda>k. if k \<in> set ks then Some [] else cs_pending self k)\<rparr>"

lemma hashed_Nil [simp]: "hashed D info_dict xs [] self = self"
  by (simp add: hashed_def)

lemma hashed_Cons: "hashed D info_dict xs ks (hashed D info_dict xs [k] self) = hashed D info_dict xs (k # ks) self"
  by (auto simp: hashed_def fun_eq_iff)

lemma due_hashed: "j \<noteq> k \<Longrightarrow> due info_dict (hashed D info_dict xs [k] self) j = due info_dict self j"
  by (simp add: due_def hashed_def)

lemma filter_due_hashed:
  "k \<notin> set ks \<Longrightarrow> filter (due info_dict (hashed D info_dict xs [k] self)) ks = filter (due info_dict self) ks"
  by (rule filter_cong, simp, rule due_hashed) auto

lemma whole_ok_hashed: "whole_ok info_dict self \<Longrightarrow> whole_ok info_dict (hashed D info_dict xs [k] self)"
  by (simp add: whole_ok_def hashed_def)

lemma complete_single: "piece_is_complete t l p messages \<Longrightarrow> \<exists>m. messages = [m]"
  by (auto simp: piece_is_complete_def split: list.splits)

lemma whole_pieces_Cons:
  "whole_pieces (unat (inf_piece_len info_dict)) callback (k # ks) st =
     (if due info_dict (fst st) k
      then act_try (on_inner (callback (hd (the (cs_pending (fst st) k)))) st) (\<lambda>is_good (self, x).
           whole_pieces (unat (inf_piece_len info_dict)) callback ks
             (self\<lparr>cs_new_states := cs_new_states self @
                    [(if is_good then GoodPiece else BadPiece) (bm_piece_index (hd (the (cs_pending (fst st) k))))],
                   cs_pending := (cs_pending self)(k \<mapsto> [])\<rparr>, x))
      else whole_pieces (unat (inf_piece_len info_dict)) callback ks st)"
proof (cases "cs_pending (fst st) k")
  case (Some messages)
  then have "due info_dict (fst st) k \<longleftrightarrow>
      piece_is_complete (cs_total_blocks (fst st)) (cs_last_block_size (fst st)) (unat (inf_piece_len info_dict)) messages \<and>
      GoodPiece (bm_piece_index (hd messages)) \<notin> cs_old_states (fst st)"
    using complete_single by (fastforce simp: due_def)
  then show ?thesis using Some by simp
qed (simp add: due_def)

declare whole_pieces.simps(2) [simp del]

context file_system
begin

lemma whole_pieces_outcome:
  assumes "torrent_wf info_dict" "ok s" "torrent_sized key info_dict (content s)"
    "length buf = unat (inf_piece_len info_dict)" "whole_ok info_dict self" "distinct ks"
    "whole_pieces (unat (inf_piece_len info_dict)) (check_piece D fs info_dict) ks (self, buf, s) = (r, self', st')"
  shows "ok (snd st') \<and> (calm s \<longrightarrow> calm (snd st')) \<and> content (snd st') = content s \<and>
    (\<exists>ds rest. filter (due info_dict self) ks = ds @ rest \<and> (r = Ok () \<longrightarrow> rest = []) \<and>
       self' = hashed D info_dict (torrent_data key info_dict (content s)) ds self) \<and>
    (calm s \<longrightarrow> usable_torrent info_dict \<longrightarrow> r = Ok ())"
  using assms(2-)
proof (induction ks arbitrary: s buf self)
  case (Cons k ks)
  define xs where "xs = torrent_data key info_dict (content s)"
  show ?case
  proof (cases "due info_dict self k")
    case True
    then obtain m where m: "cs_pending self k = Some [m]"
        "piece_is_complete (cs_total_blocks self) (cs_last_block_size self) (unat (inf_piece_len info_dict)) [m]"
      by (auto simp: due_def)
    then have wb: "whole_block info_dict k m" using Cons.prems(4) by (simp add: whole_ok_def)
    obtain r1 st1 where c: "check_piece D fs info_dict m (buf, s) = (r1, st1)"
      by (cases "check_piece D fs info_dict m (buf, s)")
    note o = check_piece_outcome [OF assms(1) wb Cons.prems(1-3) c]
    show ?thesis
    proof (cases r1)
      case (Ok g)
      define self1 where "self1 = hashed D info_dict xs [k] self"
      have g: "g = piece_good D info_dict xs (unat k)" using o Ok by (simp add: xs_def)
      have idx: "bm_piece_index m = k" using wb by (simp add: whole_block_def)
      have self1: "self\<lparr>cs_new_states := cs_new_states self @ [(if g then GoodPiece else BadPiece) k],
          cs_pending := (cs_pending self)(k \<mapsto> [])\<rparr> = self1"
        by (auto simp: self1_def hashed_def verdict_def g fun_eq_iff)
      have call: "whole_pieces (unat (inf_piece_len info_dict)) (check_piece D fs info_dict) ks
          (self1, fst st1, snd st1) = (r, self', st')"
        using Cons.prems(6) True m c Ok self1 idx by (simp add: whole_pieces_Cons on_inner_def)
      have ok1: "ok (snd st1)" "torrent_sized key info_dict (content (snd st1))"
        "length (fst st1) = unat (inf_piece_len info_dict)" using o Cons.prems(2,3) by simp_all
      have whole1: "whole_ok info_dict self1" using whole_ok_hashed Cons.prems(4) by (simp add: self1_def)
      have "distinct ks" "k \<notin> set ks" using Cons.prems(5) by simp_all
      note IH = Cons.IH [OF ok1 whole1 this(1) call]
      obtain ds rest where dr: "filter (due info_dict self) ks = ds @ rest" "r = Ok () \<longrightarrow> rest = []"
          "self' = hashed D info_dict xs ds self1"
        using IH o unfolding self1_def filter_due_hashed [OF \<open>k \<notin> set ks\<close>] by (auto simp: xs_def)
      have "filter (due info_dict self) (k # ks) = (k # ds) @ rest" "self' = hashed D info_dict xs (k # ds) self"
        using dr True by (simp_all add: self1_def hashed_Cons)
      then show ?thesis using IH o Ok dr(2) unfolding xs_def by metis
    next
      case (Err e)
      then show ?thesis using Cons.prems(6) True m c o by (auto simp: whole_pieces_Cons on_inner_def intro: exI [of _ "[]"])
    next
      case Panic
      then show ?thesis using Cons.prems(6) True m c o by (auto simp: whole_pieces_Cons on_inner_def intro: exI [of _ "[]"])
    qed
  next
    case False
    then show ?thesis using Cons by (simp add: whole_pieces_Cons)
  qed
qed auto

end

section \<open>The state between two runs\<close>

definition pending_of :: "PieceCheckerState \<Rightarrow> u64 \<Rightarrow> BlockMetadata list" where
  "pending_of self k = (case cs_pending self k of None \<Rightarrow> [] | Some ms \<Rightarrow> ms)"

text \<open>The blocks that wait lie in their pieces, are not empty and do not overlap.\<close>

definition checker_ok :: "ShaHash \<Rightarrow> Info \<Rightarrow> PieceCheckerState \<Rightarrow> bool" where
  "checker_ok h info_dict self \<longleftrightarrow>
     cs_total_blocks self = num_pieces info_dict \<and>
     cs_last_block_size self = info_size info_dict mod unat (inf_piece_len info_dict) \<and>
     finite (dom (cs_pending self)) \<and>
     (\<forall>k. (pending_of self k \<noteq> [] \<longrightarrow> unat k < num_pieces info_dict) \<and> disjoint_blocks (pending_of self k) \<and>
        (\<forall>m \<in> set (pending_of self k). block_in h k (piece_size info_dict (unat k)) m))"

lemma num_pieces_less:
  assumes "torrent_wf info_dict" shows "num_pieces info_dict < 2 ^ 64"
proof (cases "num_pieces info_dict")
  case (Suc i)
  have "i \<le> i * unat (inf_piece_len info_dict)" using plen_pos [OF assms] by simp
  moreover have "i * unat (inf_piece_len info_dict) < info_size info_dict" using piece_start [OF assms, of i] Suc by simp
  ultimately have "num_pieces info_dict \<le> info_size info_dict" using Suc by linarith
  then show ?thesis using assms by (simp add: torrent_wf_def)
qed simp

lemma last_index:
  assumes "torrent_wf info_dict" "unat (k :: u64) < num_pieces info_dict"
  shows "k = of_nat (num_pieces info_dict) - 1 \<longleftrightarrow> unat k = num_pieces info_dict - 1"
proof -
  have "of_nat (num_pieces info_dict) - 1 = (of_nat (num_pieces info_dict - 1) :: u64)" using assms(2) by (simp add: of_nat_diff)
  moreover have "unat (of_nat (num_pieces info_dict - 1) :: u64) = num_pieces info_dict - 1"
    using num_pieces_less [OF assms(1)] by (simp add: unat_of_nat)
  ultimately show ?thesis by (simp add: word_unat_eq_iff)
qed

lemma piece_size_cases:
  assumes "torrent_wf info_dict" "i < num_pieces info_dict"
  shows "piece_size info_dict i =
    (if i = num_pieces info_dict - 1 \<and> info_size info_dict mod unat (inf_piece_len info_dict) \<noteq> 0
     then info_size info_dict mod unat (inf_piece_len info_dict) else unat (inf_piece_len info_dict))"
proof -
  define p where "p = unat (inf_piece_len info_dict)"
  define n where "n = info_size info_dict"
  have s: "i * p < n" "Suc i < num_pieces info_dict \<longleftrightarrow> p + i * p < n" "0 < p"
    using piece_start [OF assms(1), of i] piece_start [OF assms(1), of "Suc i"] plen_pos [OF assms(1)] assms(2)
    by (simp_all add: p_def n_def)
  show ?thesis
  proof (cases "Suc i < num_pieces info_dict")
    case False
    then have "n - i * p \<le> p" "i = num_pieces info_dict - 1" using s assms(2) by auto
    moreover have "n mod p = (n - i * p) mod p" 
    proof -
      have "n = (n - i * p) + i * p" using s(1) by simp
      then show ?thesis by (metis mod_mult_self1)
    qed
    ultimately show ?thesis using s(1) by (cases "n - i * p = p") (auto simp: piece_size_def p_def n_def)
  qed (use s in \<open>auto simp: piece_size_def p_def [symmetric] n_def [symmetric]\<close>)
qed

lemma complete_block:
  assumes "torrent_wf info_dict" "unat k < num_pieces info_dict" "block_in h k (piece_size info_dict (unat k)) m"
  shows "piece_is_complete (num_pieces info_dict) (info_size info_dict mod unat (inf_piece_len info_dict))
      (unat (inf_piece_len info_dict)) [m] \<longleftrightarrow> bm_block_length m = piece_size info_dict (unat k)"
proof -
  have "0 < bm_block_length m" "bm_block_length m \<le> piece_size info_dict (unat k)" "bm_piece_index m = k"
    using assms(3) by (auto simp: block_in_def block_hi_def)
  moreover have "info_size info_dict mod unat (inf_piece_len info_dict) < unat (inf_piece_len info_dict)"
    using plen_pos [OF assms(1)] by simp
  ultimately show ?thesis
    using piece_size_cases [OF assms(1,2)] last_index [OF assms(1,2)]
    by (auto simp: piece_is_complete_def split: if_splits)
qed

section \<open>A run of the checker\<close>

text \<open>A piece whose bytes are all covered and which was not found good before.\<close>

definition ready :: "Info \<Rightarrow> PieceCheckerState \<Rightarrow> u64 \<Rightarrow> bool" where
  "ready info_dict self k \<longleftrightarrow> unat k < num_pieces info_dict \<and>
     covered (pending_of self k) = {0..<piece_size info_dict (unat k)} \<and> GoodPiece k \<notin> cs_old_states self"

lemma pending_of_merge: "pending_of (merge_pieces self) k = merge_loop (sort_key bm_block_offset (pending_of self k))"
  by (simp add: pending_of_def merge_pieces_def merge_loop_short split: option.split)

lemma set_covered_sort: "covered (sort_key f ms) = covered ms"
  by (simp add: covered_def)

lemma merge_pending:
  assumes "torrent_wf info_dict" "checker_ok h info_dict self"
  shows "disjoint_blocks (pending_of (merge_pieces self) k)"
    "\<forall>m \<in> set (pending_of (merge_pieces self) k). block_in h k (piece_size info_dict (unat k)) m"
    "covered (pending_of (merge_pieces self) k) = covered (pending_of self k)"
    "unat k < num_pieces info_dict \<Longrightarrow>
      (\<exists>m. pending_of (merge_pieces self) k = [m] \<and> bm_block_length m = piece_size info_dict (unat k)) \<longleftrightarrow>
      covered (pending_of self k) = {0..<piece_size info_dict (unat k)}"
proof -
  define ms where "ms = sort_key bm_block_offset (pending_of self k)"
  have b: "\<forall>m \<in> set ms. block_in h k (piece_size info_dict (unat k)) m" "in_order ms"
    using assms(2) sort_in_order [of "pending_of self k" h k "piece_size info_dict (unat k)"] by (simp_all add: ms_def checker_ok_def)
  note keeps = merge_loop_keeps [OF piece_size_less [OF assms(1)] b]
  show "\<forall>m \<in> set (pending_of (merge_pieces self) k). block_in h k (piece_size info_dict (unat k)) m"
    "disjoint_blocks (pending_of (merge_pieces self) k)"
    using keeps in_order_disjoint [of "merge_loop ms" h k "piece_size info_dict (unat k)"]
    by (simp_all add: pending_of_merge ms_def)
  show "covered (pending_of (merge_pieces self) k) = covered (pending_of self k)"
    using keeps by (simp add: pending_of_merge ms_def set_covered_sort)
  show "(\<exists>m. pending_of (merge_pieces self) k = [m] \<and> bm_block_length m = piece_size info_dict (unat k)) \<longleftrightarrow>
      covered (pending_of self k) = {0..<piece_size info_dict (unat k)}" if "unat k < num_pieces info_dict"
    using merge_loop_complete [OF piece_size_less [OF assms(1)] piece_size_pos [OF assms(1) that] b]
    by (simp add: pending_of_merge ms_def set_covered_sort)
qed

lemma pending_of_Some: "pending_of self k = [m] \<longleftrightarrow> cs_pending self k = Some [m]"
  by (auto simp: pending_of_def split: option.splits)

lemma checker_ok_merge:
  assumes "torrent_wf info_dict" "checker_ok h info_dict self"
  shows "checker_ok h info_dict (merge_pieces self)"
proof -
  have "merge_loop [] = []" by (simp add: merge_loop_short)
  then have "pending_of (merge_pieces self) k \<noteq> [] \<Longrightarrow> pending_of self k \<noteq> []" for k
    by (auto simp: pending_of_merge)
  moreover have "dom (cs_pending (merge_pieces self)) = dom (cs_pending self)"
    by (auto simp: merge_pieces_def)
  ultimately show ?thesis using merge_pending [OF assms] assms(2) by (simp add: checker_ok_def) (simp add: merge_pieces_def)
qed

lemma merge_whole:
  assumes "torrent_wf info_dict" "checker_ok h info_dict self"
  shows "whole_ok info_dict (merge_pieces self)" "due info_dict (merge_pieces self) k = ready info_dict self k"
proof -
  note ok = checker_ok_merge [OF assms] and mp = merge_pending [OF assms]
  have m: "unat j < num_pieces info_dict" "block_in h j (piece_size info_dict (unat j)) m"
    if "cs_pending (merge_pieces self) j = Some [m]" for j m
    using that ok mp(2) [of j] unfolding checker_ok_def pending_of_Some [symmetric] by auto
  have c: "piece_is_complete (cs_total_blocks (merge_pieces self)) (cs_last_block_size (merge_pieces self))
      (unat (inf_piece_len info_dict)) [m] \<longleftrightarrow> bm_block_length m = piece_size info_dict (unat j)"
    if "cs_pending (merge_pieces self) j = Some [m]" for j m
    using complete_block [OF assms(1) m [OF that]] ok by (simp add: checker_ok_def)
  show "whole_ok info_dict (merge_pieces self)"
    unfolding whole_ok_def
  proof (intro allI impI)
    fix j m
    assume a: "cs_pending (merge_pieces self) j = Some [m]"
      "piece_is_complete (cs_total_blocks (merge_pieces self)) (cs_last_block_size (merge_pieces self))
        (unat (inf_piece_len info_dict)) [m]"
    then have "bm_block_length m = piece_size info_dict (unat j)" using c by blast
    then show "whole_block info_dict j m"
      using m [OF a(1)] by (simp add: whole_block_def block_in_def block_hi_def block_lo_def unat_eq_0)
  qed
  have old: "cs_old_states (merge_pieces self) = cs_old_states self" by (simp add: merge_pieces_def)
  have "due info_dict (merge_pieces self) k \<longleftrightarrow>
      (\<exists>m. pending_of (merge_pieces self) k = [m] \<and> bm_block_length m = piece_size info_dict (unat k)) \<and>
      unat k < num_pieces info_dict \<and> GoodPiece k \<notin> cs_old_states self"
    using c m by (fastforce simp: due_def pending_of_Some old block_in_def)
  then show "due info_dict (merge_pieces self) k = ready info_dict self k" using mp(4) [of k] by (auto simp: ready_def)
qed

lemma pending_of_hashed:
  "pending_of (hashed D info_dict xs ks self) k = (if k \<in> set ks then [] else pending_of self k)"
  by (simp add: pending_of_def hashed_def)

lemma checker_ok_hashed: "checker_ok h info_dict self \<Longrightarrow> checker_ok h info_dict (hashed D info_dict xs ks self)"
proof -
  assume ok: "checker_ok h info_dict self"
  have "dom (cs_pending (hashed D info_dict xs ks self)) \<subseteq> dom (cs_pending self) \<union> set ks"
    by (auto simp: hashed_def split: if_splits)
  then have "finite (dom (cs_pending (hashed D info_dict xs ks self)))"
    using ok by (auto simp: checker_ok_def intro: finite_subset)
  then show ?thesis using ok by (simp add: checker_ok_def pending_of_hashed disjoint_blocks_def) (simp add: hashed_def)
qed

text \<open>A hash map hands out each of its keys once, in an order of its own.\<close>

definition hash_order :: "(('k \<rightharpoonup> 'v) \<Rightarrow> 'k list) \<Rightarrow> bool" where
  "hash_order order \<longleftrightarrow> (\<forall>m. finite (dom m) \<longrightarrow> distinct (order m) \<and> set (order m) = dom m)"

context file_system
begin

lemma calculate_diff_outcome:
  assumes "torrent_wf info_dict" "checker_ok h info_dict self" "hash_order order" "ok s"
    "torrent_sized key info_dict (content s)" "calculate_diff D order fs info_dict (self, s) = (r, self', s')"
  shows "ok s' \<and> (calm s \<longrightarrow> calm s') \<and> content s' = content s \<and> checker_ok h info_dict self' \<and>
    (\<exists>ks. distinct ks \<and> set ks \<subseteq> {k. ready info_dict self k} \<and> (r = Ok () \<longrightarrow> set ks = {k. ready info_dict self k}) \<and>
       self' = hashed D info_dict (torrent_data key info_dict (content s)) ks (merge_pieces self)) \<and>
    (calm s \<longrightarrow> usable_torrent info_dict \<longrightarrow> r = Ok ())"
proof -
  define p where "p = unat (inf_piece_len info_dict)"
  define ks where "ks = order (cs_pending (merge_pieces self))"
  have ks: "distinct ks" "set ks = dom (cs_pending (merge_pieces self))"
    using assms(3) checker_ok_merge [OF assms(1,2)] by (simp_all add: hash_order_def checker_ok_def ks_def)
  obtain st' where run: "whole_pieces (unat (inf_piece_len info_dict)) (check_piece D fs info_dict) ks
      (merge_pieces self, replicate p 0, s) = (r, self', st')" and s': "s' = snd st'"
    using assms(6) by (cases "whole_pieces (unat (inf_piece_len info_dict)) (check_piece D fs info_dict) ks
      (merge_pieces self, replicate p 0, s)")
      (auto simp: calculate_diff_def run_with_whole_pieces_def p_def ks_def Let_def split: prod.splits)
  have len: "length (replicate p (0 :: u8)) = unat (inf_piece_len info_dict)" by (simp add: p_def)
  note o = whole_pieces_outcome [OF assms(1,4,5) len merge_whole(1) [OF assms(1,2)] ks(1) run]
  obtain ds rest where ds: "filter (due info_dict (merge_pieces self)) ks = ds @ rest" "r = Ok () \<longrightarrow> rest = []"
      "self' = hashed D info_dict (torrent_data key info_dict (content s)) ds (merge_pieces self)"
    using o by blast
  have "due info_dict (merge_pieces self) k \<Longrightarrow> k \<in> set ks" for k by (auto simp: ks(2) due_def)
  then have "set (ds @ rest) = {k. ready info_dict self k}" "distinct (ds @ rest)"
    using ks(1) unfolding ds(1) [symmetric] by (auto simp: merge_whole(2) [OF assms(1,2)])
  then show ?thesis
    using o ds checker_ok_hashed [OF checker_ok_merge [OF assms(1,2)]] unfolding s'
    by (auto intro!: exI [of _ ds])
qed

end

end
