(* ===== verification/Disk_Init.thy ===== *)
theory Disk_Init
  imports Disk_Check_Props
begin

text \<open>
  Adding a torrent: the check of the files that are there (\<open>validate_files_sizes\<close>) and the first
  run of the piece checker over all pieces (\<open>init_state\<close>).
\<close>

section \<open>The files of a new torrent\<close>

text \<open>A missing file counts as an empty one; an empty file is filled with zeroes.\<close>

definition found :: "('k \<rightharpoonup> bytes) \<Rightarrow> 'k \<Rightarrow> bytes" where
  "found c k = (case c k of None \<Rightarrow> [] | Some b \<Rightarrow> b)"

definition fits :: "(path \<Rightarrow> 'k) \<Rightarrow> path option \<Rightarrow> ('k \<rightharpoonup> bytes) \<Rightarrow> File \<Rightarrow> bool" where
  "fits key dir c f \<longleftrightarrow>
     (let b = found c (key (build_path dir f)) in b = [] \<or> length b = unat (fl_len f))"

definition prepared :: "(path \<Rightarrow> 'k) \<Rightarrow> path option \<Rightarrow> ('k \<rightharpoonup> bytes) \<Rightarrow> File \<Rightarrow> bytes" where
  "prepared key dir c f =
     (let b = found c (key (build_path dir f)) in if b = [] then replicate (unat (fl_len f)) 0 else b)"

lemma length_prepared: "fits key dir c f \<Longrightarrow> length (prepared key dir c f) = unat (fl_len f)"
  by (auto simp: fits_def prepared_def Let_def)

lemma write_at_zero: "0 < n \<Longrightarrow> write_at [] (n - 1) [0] = replicate n 0"
  by (cases n) (simp_all add: write_at_def replicate_append_same)

context file_system
begin

lemma validate_file_calm:
  assumes "ok s" "calm s" "usable (build_path dir f)" "length (found (content s) (key (build_path dir f))) < 2 ^ 64"
    "validate_file fs dir f s = (r, s')"
  shows "ok s' \<and> calm s' \<and>
    (if fits key dir (content s) f
     then r = Ok () \<and> content s' = (content s)(key (build_path dir f) \<mapsto> prepared key dir (content s) f)
     else r = Err (ExistingFileSizeCheck (build_path dir f) (fl_len f)
            (of_nat (length (found (content s) (key (build_path dir f)))))) \<and> content s' = content s)"
proof -
  define p where "p = build_path dir f"
  define b where "b = found (content s) (key p)"
  obtain h s1 where op: "fs_open fs p s = (Ok h, s1)" using open_calm [OF assms(1-3)] by (auto simp: p_def)
  note k1 = open_keeps [OF assms(1) op] and l1 = open_law [OF assms(1) op]
  have c1: "content s1 = (content s)(key p \<mapsto> b)" "handle s1 h = Some (key p)" "ok s1" "calm s1"
    using k1 l1 assms(2) by (simp_all add: b_def found_def)
  obtain r2 s2 where sz: "fs_size fs h s1 = (r2, s2)" by (cases "fs_size fs h s1")
  note k2 = size_keeps [OF c1(3,2) sz] and l2 = size_law [OF c1(3,2) sz]
  have r2: "r2 = Ok (of_nat (length b))" using l2 c1 by (cases r2) auto
  have c2: "content s2 = (content s)(key p \<mapsto> b)" "handle s2 h = Some (key p)" "ok s2" "calm s2"
    using k2 c1 by (auto simp: map_le_def dom_def)
  have eq: "of_nat (length b) = fl_len f \<longleftrightarrow> length b = unat (fl_len f)" "(of_nat (length b) :: u64) = 0 \<longleftrightarrow> b = []"
    using assms(4) by (simp_all add: word_unat_eq_iff unat_of_nat b_def p_def)
  have bk: "content s (key p) = Some b" if "b \<noteq> []" using that by (auto simp: b_def found_def split: option.splits)
  show ?thesis
  proof (cases "b = [] \<and> fl_len f \<noteq> 0")
    case True
    obtain r3 s3 where wr: "fs_write fs h (fl_len f - 1) [0] s2 = (r3, s3)" by (cases "fs_write fs h (fl_len f - 1) [0] s2")
    note k3 = write_keeps [OF c2(3,2) wr] and l3 = write_law [OF c2(3,2) wr]
    have "unat (fl_len f - 1) = unat (fl_len f) - 1" "0 < unat (fl_len f)"
      using True by (simp_all add: unat_minus_one unat_gt_0)
    then have "content s3 = (content s)(key p \<mapsto> replicate (unat (fl_len f)) 0)" "r3 = Ok 1"
      using l3 c2 True write_at_zero [of "unat (fl_len f)"] by auto
    moreover have "validate_file fs dir f s = (Ok (), s3)"
      using op sz r2 True eq wr calculation by (simp add: validate_file_def p_def [symmetric])
    ultimately show ?thesis
      using assms(5) k3 c2 True by (simp add: fits_def prepared_def b_def [symmetric] p_def [symmetric])
  next
    case False
    have v: "validate_file fs dir f s =
        (if length b = unat (fl_len f) then Ok () else Err (ExistingFileSizeCheck p (fl_len f) (of_nat (length b))), s2)"
      using op sz r2 False eq by (auto simp: validate_file_def p_def [symmetric])
    show ?thesis
    proof (cases "length b = unat (fl_len f)")
      case True
      then show ?thesis using assms(5) v c2 by (auto simp: fits_def prepared_def b_def [symmetric] p_def [symmetric])
    next
      case len: False
      then have "b \<noteq> []" using False by auto
      then have "content s2 = content s" using bk c2(1) by auto
      then show ?thesis using assms(5) v c2 len \<open>b \<noteq> []\<close> by (simp add: fits_def b_def [symmetric] p_def [symmetric])
    qed
  qed
qed

lemma validate_files_calm:
  assumes "ok s" "calm s" "\<forall>f \<in> set files. usable (build_path dir f)" "distinct (file_keys key dir files)"
    "\<forall>f \<in> set files. length (found (content s) (key (build_path dir f))) < 2 ^ 64"
    "validate_files_sizes fs dir files s = (r, s')"
  shows "ok s' \<and> calm s' \<and> (\<forall>k. k \<notin> set (file_keys key dir files) \<longrightarrow> content s' k = content s k) \<and>
    (\<forall>k. found (content s) k \<noteq> [] \<longrightarrow> content s' k = content s k) \<and>
    (if \<forall>f \<in> set files. fits key dir (content s) f
     then r = Ok () \<and> (\<forall>f \<in> set files. content s' (key (build_path dir f)) = Some (prepared key dir (content s) f))
     else \<exists>f \<in> set files. \<not> fits key dir (content s) f \<and>
       r = Err (ExistingFileSizeCheck (build_path dir f) (fl_len f)
              (of_nat (length (found (content s) (key (build_path dir f)))))))"
  using assms
proof (induction files arbitrary: s)
  case (Cons f files)
  define k where "k = key (build_path dir f)"
  obtain r1 s1 where v: "validate_file fs dir f s = (r1, s1)" by (cases "validate_file fs dir f s")
  have o: "ok s1 \<and> calm s1 \<and>
    (if fits key dir (content s) f
     then r1 = Ok () \<and> content s1 = (content s)(k \<mapsto> prepared key dir (content s) f)
     else r1 = Err (ExistingFileSizeCheck (build_path dir f) (fl_len f) (of_nat (length (found (content s) k)))) \<and>
       content s1 = content s)"
    using validate_file_calm [OF Cons.prems(1,2) _ _ v] Cons.prems(3,5) by (simp add: k_def)
  show ?case
  proof (cases "fits key dir (content s) f")
    case True
    have fresh: "k \<notin> set (file_keys key dir files)" using Cons.prems(4) by (simp add: k_def)
    have same: "found (content s1) (key (build_path dir g)) = found (content s) (key (build_path dir g))"
      "fits key dir (content s1) g = fits key dir (content s) g"
      "prepared key dir (content s1) g = prepared key dir (content s) g" if "g \<in> set files" for g
      using that fresh o True by (auto simp: file_keys_def found_def fits_def prepared_def Let_def)
    have call: "validate_files_sizes fs dir files s1 = (r, s')" using Cons.prems(6) v o True by simp
    have small: "\<forall>g \<in> set files. length (found (content s1) (key (build_path dir g))) < 2 ^ 64"
      using same Cons.prems(5) by simp
    have pre: "ok s1" "calm s1" "\<forall>g \<in> set files. usable (build_path dir g)" "distinct (file_keys key dir files)"
      using o Cons.prems(3,4) by simp_all
    note IH = Cons.IH [OF pre small call]
    have all: "(\<forall>g \<in> set files. fits key dir (content s1) g) = (\<forall>g \<in> set files. fits key dir (content s) g)"
      using same(2) by blast
    have old: "content s1 j = content s j" "found (content s1) j \<noteq> []" if "found (content s) j \<noteq> []" for j
      using that o True by (auto simp: found_def prepared_def Let_def k_def split: option.splits)
    have other: "content s1 j = content s j" if "j \<noteq> k" for j using that o True by simp
    have k': "content s' k = Some (prepared key dir (content s) f)" using IH fresh o True by simp
    have frame: "ok s'" "calm s'" "\<forall>j. j \<notin> set (file_keys key dir (f # files)) \<longrightarrow> content s' j = content s j"
      "\<forall>j. found (content s) j \<noteq> [] \<longrightarrow> content s' j = content s j"
      using IH old other by (auto simp: k_def [symmetric])
    show ?thesis
    proof (cases "\<forall>g \<in> set files. fits key dir (content s) g")
      case fit: True
      then have "r = Ok ()" "\<forall>g \<in> set files. content s' (key (build_path dir g)) = Some (prepared key dir (content s) g)"
        using IH same(3) unfolding all by simp_all
      then show ?thesis using frame fit True k' by (simp add: k_def)
    next
      case misfit: False
      then obtain g where g: "g \<in> set files" "\<not> fits key dir (content s1) g"
        "r = Err (ExistingFileSizeCheck (build_path dir g) (fl_len g)
          (of_nat (length (found (content s1) (key (build_path dir g))))))"
        using IH unfolding all by (auto split: if_splits)
      then have "\<exists>g \<in> set (f # files). \<not> fits key dir (content s) g \<and>
          r = Err (ExistingFileSizeCheck (build_path dir g) (fl_len g)
            (of_nat (length (found (content s) (key (build_path dir g))))))"
        using same(1,2) [OF g(1)] by auto
      then show ?thesis using frame misfit by auto
    qed
  next
    case False
    then have "r = r1" "s' = s1" using Cons.prems(6) v o by auto
    then show ?thesis using o False by (auto simp: k_def)
  qed
qed simp

lemma validate_torrent_calm:
  assumes "ok s" "calm s" "usable_torrent info_dict" "distinct (torrent_keys key info_dict)"
    "\<forall>f \<in> set (inf_files info_dict). length (found (content s) (key (build_path (inf_dir info_dict) f))) < 2 ^ 64"
    "\<forall>f \<in> set (inf_files info_dict). fits key (inf_dir info_dict) (content s) f"
    "validate_files_sizes fs (inf_dir info_dict) (inf_files info_dict) s = (r, s')"
  shows "r = Ok ()" "ok s'" "calm s'" "torrent_sized key info_dict (content s')"
    "torrent_data key info_dict (content s') =
       concat (map (prepared key (inf_dir info_dict) (content s)) (inf_files info_dict))"
    "\<forall>k. k \<notin> set (torrent_keys key info_dict) \<or> found (content s) k \<noteq> [] \<longrightarrow> content s' k = content s k"
proof -
  have o: "ok s'" "calm s'" "\<forall>k. k \<notin> set (torrent_keys key info_dict) \<longrightarrow> content s' k = content s k"
    "\<forall>k. found (content s) k \<noteq> [] \<longrightarrow> content s' k = content s k" "r = Ok ()"
    "\<forall>f \<in> set (inf_files info_dict).
       content s' (key (build_path (inf_dir info_dict) f)) = Some (prepared key (inf_dir info_dict) (content s) f)"
    using validate_files_calm [OF assms(1,2) _ _ assms(5,7)] assms(3,4,6)
    by (simp_all add: usable_torrent_def torrent_keys_def)
  then show "r = Ok ()" "ok s'" "calm s'"
    "\<forall>k. k \<notin> set (torrent_keys key info_dict) \<or> found (content s) k \<noteq> [] \<longrightarrow> content s' k = content s k" by auto
  show "torrent_sized key info_dict (content s')"
    using o(6) assms(6) by (simp add: torrent_sized_def sized_def length_prepared)
  show "torrent_data key info_dict (content s') =
       concat (map (prepared key (inf_dir info_dict) (content s)) (inf_files info_dict))"
    using o(6) by (simp add: torrent_data_def flat_def torrent_keys_def file_keys_def comp_def cong: map_cong)
qed

end

section \<open>The first run over all pieces\<close>

definition whole_blocks :: "Info \<Rightarrow> u64 \<rightharpoonup> BlockMetadata list" where
  "whole_blocks info_dict = (\<lambda>k. if unat k < num_pieces info_dict
     then Some [BlockMetadata_with_default_hash k 0 (piece_size info_dict (unat k))] else None)"

lemma unat_sum: "torrent_size files < 2 ^ 64 \<Longrightarrow> unat (sum_list (map fl_len files)) = torrent_size files"
  by (induction files) (simp_all add: torrent_size_def unat_word_ariths)

lemma unat_total_bytes: "torrent_wf info_dict \<Longrightarrow> unat (total_bytes info_dict) = info_size info_dict"
  by (simp add: total_bytes_def info_size_def torrent_wf_def unat_sum)

lemma last_piece_size_eq:
  "torrent_wf info_dict \<Longrightarrow> last_piece_size info_dict = Ok (info_size info_dict mod unat (inf_piece_len info_dict))"
  by (simp add: last_piece_size_def unat_mod unat_total_bytes) (simp add: torrent_wf_def)

lemma add_pending_fresh:
  "cs_pending self (bm_piece_index m) = None \<Longrightarrow>
     add_pending_block m self = self\<lparr>cs_pending := (cs_pending self)(bm_piece_index m \<mapsto> [m])\<rparr>"
  by (simp add: add_pending_block_def)

lemma default_hash_index [simp]: "bm_piece_index (BlockMetadata_with_default_hash k b n) = k"
  by (simp add: BlockMetadata_with_default_hash_def)

lemma fold_add_pending:
  assumes "cs_pending self = Map.empty" "n \<le> 2 ^ 64"
  shows "fold (\<lambda>i. add_pending_block (BlockMetadata_with_default_hash (of_nat i) 0 p)) [0..<n] self =
    self\<lparr>cs_pending := (\<lambda>k. if unat k < n then Some [BlockMetadata_with_default_hash k 0 p] else None)\<rparr>"
  using assms(2)
proof (induction n)
  case 0
  then show ?case using assms(1) by (cases self) simp
next
  case (Suc n)
  have n: "unat (of_nat n :: u64) = n" using Suc.prems by (simp add: unat_of_nat)
  have "unat k < Suc n \<longleftrightarrow> unat k < n \<or> k = of_nat n" for k :: u64
    using n by (auto simp: less_Suc_eq word_unat_eq_iff)
  then have "(\<lambda>k. if unat k < n then Some [BlockMetadata_with_default_hash k 0 p] else None)
      (of_nat n \<mapsto> [BlockMetadata_with_default_hash (of_nat n) 0 p]) =
      (\<lambda>k. if unat k < Suc n then Some [BlockMetadata_with_default_hash k 0 p] else None)"
    by (auto simp: fun_eq_iff)
  then show ?case
    using Suc n by (simp add: add_pending_fresh)
qed

lemma num_pieces_div:
  assumes "torrent_wf info_dict"
  shows "num_pieces info_dict = info_size info_dict div unat (inf_piece_len info_dict) +
    (if info_size info_dict mod unat (inf_piece_len info_dict) \<noteq> 0 then 1 else 0)"
proof -
  define n where "n = info_size info_dict"
  define p where "p = unat (inf_piece_len info_dict)"
  have p: "0 < p" using plen_pos [OF assms] by (simp add: p_def)
  have n: "n = n div p * p + n mod p" by simp
  have "i < num_pieces info_dict \<longleftrightarrow> i < n div p + (if n mod p \<noteq> 0 then 1 else 0)" for i
  proof -
    have "i * p < n \<longleftrightarrow> i < n div p + (if n mod p \<noteq> 0 then 1 else 0)"
    proof (cases "i < n div p")
      case True
      then have "Suc i * p \<le> n div p * p" by (intro mult_le_mono1) simp
      then show ?thesis using True n p by (simp only: mult_Suc) linarith
    next
      case False
      show ?thesis
      proof (cases "i = n div p")
        case True
        have "n div p * p < n \<longleftrightarrow> n mod p \<noteq> 0" using n by arith
        then show ?thesis using True by simp
      next
        case neq: False
        have "n < Suc (n div p) * p" using p by (simp add: dividend_less_div_times)
        also have "\<dots> \<le> i * p" using False neq by (intro mult_le_mono1) simp
        finally show ?thesis using False neq by simp
      qed
    qed
    then show ?thesis using piece_start [OF assms, of i] by (simp add: n_def p_def)
  qed
  then have "\<not> num_pieces info_dict < n div p + (if n mod p \<noteq> 0 then 1 else 0)"
    "\<not> n div p + (if n mod p \<noteq> 0 then 1 else 0) < num_pieces info_dict" by blast+
  then show ?thesis unfolding n_def p_def by linarith
qed

lemma fill_checker_state_eq:
  assumes "torrent_wf info_dict" "cs_pending self = Map.empty"
  shows "fill_checker_state info_dict self = Ok (self\<lparr>cs_pending := whole_blocks info_dict\<rparr>)"
proof -
  define q where "q = total_bytes info_dict div inf_piece_len info_dict"
  define p where "p = inf_piece_len info_dict"
  define m where "m = info_size info_dict mod unat p"
  have q: "unat q = info_size info_dict div unat p"
    by (simp add: q_def p_def unat_div unat_total_bytes [OF assms(1)])
  note n = num_pieces_div [OF assms(1), folded p_def, folded q m_def]
  have size: "piece_size info_dict i = (if i = unat q then m else unat p)" if "i < num_pieces info_dict" for i
    using piece_size_cases [OF assms(1) that, folded p_def, folded m_def] n that by (cases "m = 0") simp_all
  have less: "unat q \<le> 2 ^ 64" using unat_less [of q] by simp
  note fold = fold_add_pending [OF assms(2) less, of "unat p"]
  have last: "unat k < num_pieces info_dict \<longleftrightarrow> unat k < unat q \<or> m \<noteq> 0 \<and> k = q" for k
    using n by (auto simp: less_Suc_eq word_unat_eq_iff)
  have pending: "(if m \<noteq> 0 then (\<lambda>k. if unat k < unat q then Some [BlockMetadata_with_default_hash k 0 (unat p)] else None)
        (q \<mapsto> [BlockMetadata_with_default_hash q 0 m])
      else (\<lambda>k. if unat k < unat q then Some [BlockMetadata_with_default_hash k 0 (unat p)] else None)) =
      whole_blocks info_dict"
    using last size by (auto simp: whole_blocks_def fun_eq_iff)
  have "p \<noteq> 0" using assms(1) by (simp add: p_def torrent_wf_def)
  then show ?thesis
    unfolding fill_checker_state_def last_piece_size_eq [OF assms(1)] p_def [symmetric] m_def [symmetric] Let_def
      q_def [folded p_def, symmetric] pending [symmetric]
    using fold by (cases "m = 0") (simp_all add: add_pending_fresh)
qed

text \<open>The whole blocks make every piece ready.\<close>

lemma checker_ok_whole:
  assumes "torrent_wf info_dict"
  defines "self \<equiv> (PieceCheckerState_new (num_pieces info_dict) (info_size info_dict mod unat (inf_piece_len info_dict)))
      \<lparr>cs_pending := whole_blocks info_dict\<rparr>"
  shows "checker_ok (replicate INFO_HASH_LEN 0) info_dict self"
    "ready info_dict self k \<longleftrightarrow> unat k < num_pieces info_dict"
proof -
  have p: "pending_of self k = (if unat k < num_pieces info_dict
      then [BlockMetadata_with_default_hash k 0 (piece_size info_dict (unat k))] else [])" for k
    by (simp add: self_def pending_of_def whole_blocks_def)
  have b: "block_in (replicate INFO_HASH_LEN 0) k n (BlockMetadata_with_default_hash k 0 n)" if "0 < n" for k n
    using that by (simp add: block_in_def BlockMetadata_with_default_hash_def block_hi_def block_lo_def)
  show "checker_ok (replicate INFO_HASH_LEN 0) info_dict self"
    using b piece_size_pos [OF assms(1)]
    by (simp add: checker_ok_def p disjoint_blocks_def) (simp add: self_def PieceCheckerState_new_def)
  show "ready info_dict self k \<longleftrightarrow> unat k < num_pieces info_dict"
    by (simp add: ready_def p block_range_def block_hi_def block_lo_def BlockMetadata_with_default_hash_def)
      (simp add: self_def PieceCheckerState_new_def)
qed

context file_system
begin

lemma init_state_calm:
  assumes "torrent_wf info_dict" "hash_order order" "ok s" "calm s" "usable_torrent info_dict"
    "distinct (torrent_keys key info_dict)"
    "\<forall>f \<in> set (inf_files info_dict). length (found (content s) (key (build_path (inf_dir info_dict) f))) < 2 ^ 64"
    "\<forall>f \<in> set (inf_files info_dict). fits key (inf_dir info_dict) (content s) f"
  shows "\<exists>self ks s'. init_state D order fs info_dict s = (Ok self, s') \<and> ok s' \<and> calm s' \<and>
    torrent_sized key info_dict (content s') \<and>
    torrent_data key info_dict (content s') =
      concat (map (prepared key (inf_dir info_dict) (content s)) (inf_files info_dict)) \<and>
    (\<forall>k. k \<notin> set (torrent_keys key info_dict) \<or> found (content s) k \<noteq> [] \<longrightarrow> content s' k = content s k) \<and>
    distinct ks \<and> set ks = {k. unat k < num_pieces info_dict} \<and>
    cs_new_states self = map (verdict D info_dict (torrent_data key info_dict (content s'))) ks \<and>
    cs_old_states self = {} \<and> (\<forall>k. pending_of self k = []) \<and> (\<forall>h. checker_ok h info_dict self)"
proof -
  define n where "n = info_size info_dict mod unat (inf_piece_len info_dict)"
  define self0 where "self0 = (PieceCheckerState_new (num_pieces info_dict) n)\<lparr>cs_pending := whole_blocks info_dict\<rparr>"
  obtain r1 s1 where v: "validate_files_sizes fs (inf_dir info_dict) (inf_files info_dict) s = (r1, s1)"
    by (cases "validate_files_sizes fs (inf_dir info_dict) (inf_files info_dict) s")
  note val = validate_torrent_calm [OF assms(3-8) v]
  have fill: "fill_checker_state info_dict (PieceCheckerState_new (num_pieces info_dict) n) =
      (Ok self0 :: (_, 'io TorrentError) res)"
    by (simp add: self0_def PieceCheckerState_new_def fill_checker_state_eq [OF assms(1)])
  have ready: "ready info_dict self0 k \<longleftrightarrow> unat k < num_pieces info_dict" for k
    using checker_ok_whole(2) [OF assms(1)] by (simp add: self0_def n_def)
  have ok0: "checker_ok (replicate INFO_HASH_LEN 0) info_dict self0"
    using checker_ok_whole(1) [OF assms(1)] by (simp add: self0_def n_def)
  obtain r2 self2 s2 where cd: "calculate_diff D order fs info_dict (self0, s1) = (r2, self2, s2)"
    by (cases "calculate_diff D order fs info_dict (self0, s1)") auto
  note out = calculate_diff_outcome [OF assms(1) ok0 assms(2) val(2,4) cd]
  have r2: "r2 = Ok ()" using out val(3) assms(5) by simp
  then obtain ks where ks: "distinct ks" "set ks = {k. ready info_dict self0 k}"
      "self2 = hashed D info_dict (torrent_data key info_dict (content s1)) ks (merge_pieces self0)"
    using out by blast
  have init: "init_state D order fs info_dict s = (Ok self2, s2)"
    using v val(1) fill cd r2
    by (simp add: init_state_def last_piece_size_eq [OF assms(1)] n_def [symmetric] num_pieces_def [symmetric])
  have pending: "pending_of self2 k = []" for k
  proof -
    have "pending_of self0 k = []" if "\<not> unat k < num_pieces info_dict"
      using that by (simp add: self0_def pending_of_def whole_blocks_def)
    then show ?thesis using ks ready by (simp add: pending_of_hashed pending_of_merge merge_loop_short)
  qed
  then have "checker_ok h info_dict self2" for h using out by (simp add: checker_ok_def disjoint_blocks_def)
  moreover have "cs_new_states self2 = map (verdict D info_dict (torrent_data key info_dict (content s2))) ks"
    "cs_old_states self2 = {}"
    using ks(3) out by (simp_all add: hashed_def self0_def merge_pieces_def PieceCheckerState_new_def)
  ultimately show ?thesis
    using init out val ks(1,2) ready pending by (intro exI [of _ self2] exI [of _ ks] exI [of _ s2]) simp
qed

end

end
