(* ===== verification/Disk_Tasks.thy ===== *)
theory Disk_Tasks
  imports Disk_Init
begin

text \<open>
  The tasks of the disk manager (\<open>disk/mod.rs\<close>, \<open>disk/tasks/mod.rs\<close>, \<open>disk/tasks/context.rs\<close>).
  A task holds the lock of its torrent while it works on it, so that a task is one step on the
  state of its torrent. A panic of a task leaves the lock of its torrent poisoned, and the task
  sends no message.
\<close>

section \<open>Messages\<close>

datatype IDiskMessage =
    AddTorrent Metainfo
  | RemoveTorrent ShaHash
  | SyncTorrent ShaHash
  | LoadBlock Block
  | ProcessBlock Block

datatype 'io ODiskMessage =
    TorrentAdded ShaHash
  | TorrentRemoved ShaHash
  | TorrentSynced ShaHash
  | FoundGoodPiece ShaHash u64
  | FoundBadPiece ShaHash u64
  | BlockLoaded Block
  | BlockProcessed Block
  | TorrentErrorMsg ShaHash "'io TorrentError"
  | LoadBlockError Block "'io BlockError"
  | ProcessBlockError Block "'io BlockError"

section \<open>DiskManagerContext\<close>

record MetainfoState =
  ms_file :: Metainfo
  ms_state :: PieceCheckerState
  ms_poisoned :: bool

text \<open>The torrents, what was sent to \<open>out\<close>, and the state of the file system.\<close>

record ('s, 'io) DiskManagerContext =
  cx_torrents :: "ShaHash \<rightharpoonup> MetainfoState"
  cx_out :: "'io ODiskMessage list"
  cx_fs :: 's

definition DiskManagerContext_new :: "'s \<Rightarrow> ('s, 'io) DiskManagerContext" where
  "DiskManagerContext_new fs = \<lparr>cx_torrents = Map.empty, cx_out = [], cx_fs = fs\<rparr>"

definition insert_torrent ::
  "Metainfo \<Rightarrow> PieceCheckerState \<Rightarrow> ('s, 'io) DiskManagerContext \<Rightarrow> bool \<times> ('s, 'io) DiskManagerContext" where
  "insert_torrent metainfo state self =
     (let hash = inf_hash (mi_info metainfo); hash_not_exists = cx_torrents self hash = None
      in (hash_not_exists,
          if hash_not_exists
          then self\<lparr>cx_torrents := (cx_torrents self)(hash \<mapsto>
                 \<lparr>ms_file = metainfo, ms_state = state, ms_poisoned = False\<rparr>)\<rparr>
          else self))"

text \<open>
  \<open>update_torrent\<close>: \<open>call\<close> returns what its closure leaves in the variables of its caller. The
  result is \<open>None\<close> where the source returns \<open>false\<close>.
\<close>

definition update_torrent ::
  "ShaHash \<Rightarrow> (Metainfo \<Rightarrow> PieceCheckerState \<Rightarrow> ('s, 'io) DiskManagerContext \<Rightarrow>
       ('a, 'e) res \<times> PieceCheckerState \<times> ('s, 'io) DiskManagerContext) \<Rightarrow>
     ('s, 'io) DiskManagerContext \<Rightarrow> ('a, 'e) res option \<times> ('s, 'io) DiskManagerContext" where
  "update_torrent hash call self =
     (case cx_torrents self hash of
        Some st \<Rightarrow>
          if ms_poisoned st then (Some Panic, self)
          else (case call (ms_file st) (ms_state st) self of
                  (r, state, self) \<Rightarrow>
                    (Some r, self\<lparr>cx_torrents := (cx_torrents self)(hash \<mapsto>
                       st\<lparr>ms_state := state, ms_poisoned := (r = Panic)\<rparr>)\<rparr>))
      | None \<Rightarrow> (None, self))"

definition remove_torrent :: "ShaHash \<Rightarrow> ('s, 'io) DiskManagerContext \<Rightarrow> bool \<times> ('s, 'io) DiskManagerContext" where
  "remove_torrent hash self =
     (cx_torrents self hash \<noteq> None, self\<lparr>cx_torrents := (cx_torrents self)(hash := None)\<rparr>)"

section \<open>The tasks\<close>

definition send_out :: "'io ODiskMessage list \<Rightarrow> ('s, 'io) DiskManagerContext \<Rightarrow> ('s, 'io) DiskManagerContext" where
  "send_out msgs self = self\<lparr>cx_out := cx_out self @ msgs\<rparr>"

fun piece_message :: "ShaHash \<Rightarrow> bool \<Rightarrow> PieceState \<Rightarrow> 'io ODiskMessage list" where
  "piece_message hash ignore_bad (GoodPiece index) = [FoundGoodPiece hash index]"
| "piece_message hash ignore_bad (BadPiece index) = (if ignore_bad then [] else [FoundBadPiece hash index])"

definition send_piece_diff ::
  "PieceCheckerState \<Rightarrow> ShaHash \<Rightarrow> bool \<Rightarrow> ('s, 'io) DiskManagerContext \<Rightarrow>
     PieceCheckerState \<times> ('s, 'io) DiskManagerContext" where
  "send_piece_diff checker_state hash ignore_bad context =
     (case run_with_diff checker_state of
        (states, checker_state) \<Rightarrow>
          (checker_state, send_out (concat (map (piece_message hash ignore_bad) states)) context))"

definition execute_add_torrent ::
  "'d Sha1 \<Rightarrow> ((u64 \<rightharpoonup> BlockMetadata list) \<Rightarrow> u64 list) \<Rightarrow> ('s, 'f, 'io) FileSystem \<Rightarrow> Metainfo \<Rightarrow>
     ('s, 'io) DiskManagerContext \<Rightarrow> (('s, 'io) DiskManagerContext, unit, 'io TorrentError) outcome" where
  "execute_add_torrent D order fs metainfo context =
     (let info_hash = inf_hash (mi_info metainfo)
      in case init_state D order fs (mi_info metainfo) (cx_fs context) of (r, s) \<Rightarrow>
         act_try (r, context\<lparr>cx_fs := s\<rparr>) (\<lambda>init_state context.
         case send_piece_diff init_state info_hash True context of (init_state, context) \<Rightarrow>
         case insert_torrent metainfo init_state context of (inserted, context) \<Rightarrow>
         (if inserted then Ok () else Err (ExistingInfoHash info_hash), context)))"

definition execute_remove_torrent ::
  "ShaHash \<Rightarrow> ('s, 'io) DiskManagerContext \<Rightarrow> (('s, 'io) DiskManagerContext, unit, 'io TorrentError) outcome" where
  "execute_remove_torrent hash context =
     (case remove_torrent hash context of
        (removed, context) \<Rightarrow> (if removed then Ok () else Err (TorrentHashNotFound hash), context))"

text \<open>Every file is synced; the result of the last one is kept.\<close>

primrec sync_files ::
  "('s, 'f, 'io) FileSystem \<Rightarrow> path option \<Rightarrow> File list \<Rightarrow> ('s, unit, 'io) outcome \<Rightarrow> ('s, unit, 'io) outcome" where
  "sync_files fs dir [] st = st"
| "sync_files fs dir (f # files) st =
     (case fs_sync fs (build_path dir f) (snd st) of
        (Panic, s) \<Rightarrow> (Panic, s)
      | (r, s) \<Rightarrow> sync_files fs dir files (r, s))"

definition execute_sync_torrent ::
  "('s, 'f, 'io) FileSystem \<Rightarrow> ShaHash \<Rightarrow> ('s, 'io) DiskManagerContext \<Rightarrow>
     (('s, 'io) DiskManagerContext, unit, 'io TorrentError) outcome" where
  "execute_sync_torrent fs hash context =
     (case update_torrent hash (\<lambda>metainfo state context.
        case sync_files fs (inf_dir (mi_info metainfo)) (inf_files (mi_info metainfo)) (Ok (), cx_fs context) of
          (r, s) \<Rightarrow> (r, state, context\<lparr>cx_fs := s\<rparr>)) context of
        (Some r, context) \<Rightarrow> (map_err TorrentIo r, context)
      | (None, context) \<Rightarrow> (Err (TorrentHashNotFound hash), context))"

text \<open>The block is changed also when reading fails: it is returned with the context.\<close>

definition execute_load_block ::
  "('s, 'f, 'io) FileSystem \<Rightarrow> Block \<Rightarrow> ('s, 'io) DiskManagerContext \<Rightarrow>
     (Block \<times> ('s, 'io) DiskManagerContext, unit, 'io BlockError) outcome" where
  "execute_load_block fs block context =
     (let metadata = bl_metadata block; info_hash = bm_info_hash metadata
      in case cx_torrents context info_hash of
           Some st \<Rightarrow>
             if ms_poisoned st then (Panic, block, context)
             else (case read_piece fs (mi_info (ms_file st)) metadata (bl_data block, cx_fs context) of
                     (r, data, s) \<Rightarrow>
                       (map_err BlockIo r, block\<lparr>bl_data := data\<rparr>,
                        context\<lparr>cx_fs := s, cx_torrents := (cx_torrents context)(info_hash \<mapsto>
                          st\<lparr>ms_poisoned := (r = Panic)\<rparr>)\<rparr>))
         | None \<Rightarrow> (Err (BlockHashNotFound info_hash), block, context))"

definition process_in_torrent ::
  "'d Sha1 \<Rightarrow> ((u64 \<rightharpoonup> BlockMetadata list) \<Rightarrow> u64 list) \<Rightarrow> ('s, 'f, 'io) FileSystem \<Rightarrow> Block \<Rightarrow>
     Metainfo \<Rightarrow> PieceCheckerState \<Rightarrow> ('s, 'io) DiskManagerContext \<Rightarrow>
     (unit, 'io) res \<times> PieceCheckerState \<times> ('s, 'io) DiskManagerContext" where
  "process_in_torrent D order fs block metainfo checker_state context =
     (let metadata = bl_metadata block; info_dict = mi_info metainfo
      in case write_piece fs info_dict metadata (bl_data block, cx_fs context) of
           (r, data, s) \<Rightarrow>
             (case act_try (r, checker_state, s) (\<lambda>_ (checker_state, s).
                     calculate_diff D order fs info_dict (add_pending_block metadata checker_state, s)) of
                (Panic, checker_state, s) \<Rightarrow> (Panic, checker_state, context\<lparr>cx_fs := s\<rparr>)
              | (block_result, checker_state, s) \<Rightarrow>
                  (case send_piece_diff checker_state (inf_hash info_dict) False (context\<lparr>cx_fs := s\<rparr>) of
                     (checker_state, context) \<Rightarrow> (block_result, checker_state, context))))"

definition execute_process_block ::
  "'d Sha1 \<Rightarrow> ((u64 \<rightharpoonup> BlockMetadata list) \<Rightarrow> u64 list) \<Rightarrow> ('s, 'f, 'io) FileSystem \<Rightarrow> Block \<Rightarrow>
     ('s, 'io) DiskManagerContext \<Rightarrow> (('s, 'io) DiskManagerContext, unit, 'io BlockError) outcome" where
  "execute_process_block D order fs block context =
     (let info_hash = bm_info_hash (bl_metadata block)
      in case update_torrent info_hash (process_in_torrent D order fs block) context of
           (Some r, context) \<Rightarrow> (map_err BlockIo r, context)
         | (None, context) \<Rightarrow> (Err (BlockHashNotFound info_hash), context))"

definition answer ::
  "'io ODiskMessage \<Rightarrow> ('e \<Rightarrow> 'io ODiskMessage) \<Rightarrow> (('s, 'io) DiskManagerContext, unit, 'e) outcome \<Rightarrow>
     (('s, 'io) DiskManagerContext, unit, unit) outcome" where
  "answer good bad out =
     (case out of
        (Ok u, context) \<Rightarrow> (Ok (), send_out [good] context)
      | (Err e, context) \<Rightarrow> (Ok (), send_out [bad e] context)
      | (Panic, context) \<Rightarrow> (Panic, context))"

fun execute_on_pool ::
  "'d Sha1 \<Rightarrow> ((u64 \<rightharpoonup> BlockMetadata list) \<Rightarrow> u64 list) \<Rightarrow> ('s, 'f, 'io) FileSystem \<Rightarrow> IDiskMessage \<Rightarrow>
     ('s, 'io) DiskManagerContext \<Rightarrow> (('s, 'io) DiskManagerContext, unit, unit) outcome" where
  "execute_on_pool D order fs (AddTorrent metainfo) context =
     (let info_hash = inf_hash (mi_info metainfo)
      in answer (TorrentAdded info_hash) (TorrentErrorMsg info_hash) (execute_add_torrent D order fs metainfo context))"
| "execute_on_pool D order fs (RemoveTorrent hash) context =
     answer (TorrentRemoved hash) (TorrentErrorMsg hash) (execute_remove_torrent hash context)"
| "execute_on_pool D order fs (SyncTorrent hash) context =
     answer (TorrentSynced hash) (TorrentErrorMsg hash) (execute_sync_torrent fs hash context)"
| "execute_on_pool D order fs (LoadBlock block) context =
     (case execute_load_block fs block context of
        (r, block, context) \<Rightarrow> answer (BlockLoaded block) (LoadBlockError block) (r, context))"
| "execute_on_pool D order fs (ProcessBlock block) context =
     answer (BlockProcessed block) (ProcessBlockError block) (execute_process_block D order fs block context)"

end
