(* ===== verification/Disk_Download.thy ===== *)
theory Disk_Download
  imports Disk_Tasks
begin

text \<open>
  What the tasks of the disk manager do to the torrents and to their files: processing one block,
  and a whole download.
\<close>

section \<open>Blocks that are new\<close>

text \<open>The bytes of a piece that were written since it was last checked.\<close>

definition cover :: "PieceCheckerState \<Rightarrow> u64 \<Rightarrow> nat set" where
  "cover self k = covered (pending_of self k)"

definition fresh_block :: "ShaHash \<Rightarrow> Info \<Rightarrow> PieceCheckerState \<Rightarrow> BlockMetadata \<Rightarrow> bool" where
  "fresh_block h info_dict self m \<longleftrightarrow> unat (bm_piece_index m) < num_pieces info_dict \<and>
     block_in h (bm_piece_index m) (piece_size info_dict (unat (bm_piece_index m))) m \<and>
     block_range m \<inter> cover self (bm_piece_index m) = {}"

definition settled :: "Info \<Rightarrow> PieceCheckerState \<Rightarrow> bool" where
  "settled info_dict self \<longleftrightarrow> cs_new_states self = [] \<and> (\<forall>k. \<not> ready info_dict self k)"

lemma pending_of_add:
  "pending_of (add_pending_block m self) k = (if k = bm_piece_index m then pending_of self k @ [m] else pending_of self k)"
  by (simp add: pending_of_def add_pending_block_def split: option.split)

lemma add_pending_simps [simp]:
  "cs_old_states (add_pending_block m self) = cs_old_states self"
  "cs_new_states (add_pending_block m self) = cs_new_states self"
  "cs_total_blocks (add_pending_block m self) = cs_total_blocks self"
  "cs_last_block_size (add_pending_block m self) = cs_last_block_size self"
  by (simp_all add: add_pending_block_def)

lemma cover_add: "cover (add_pending_block m self) k = (if k = bm_piece_index m then cover self k \<union> block_range m else cover self k)"
  by (simp add: cover_def pending_of_add)

lemma block_range_nonempty: "block_in h k n m \<Longrightarrow> block_range m \<noteq> {}"
  by (auto simp: block_in_def block_range_def block_hi_def)

lemma disjoint_blocks_snoc:
  assumes "disjoint_blocks ms" "block_range m \<inter> covered ms = {}" "block_range m \<noteq> {}"
  shows "disjoint_blocks (ms @ [m])"
proof -
  have d: "block_range m \<inter> block_range b = {}" if "b \<in> set ms" for b using that assms(2) by (auto simp: covered_def)
  then have "m \<notin> set ms" using assms(3) by auto
  then show ?thesis using assms(1) d by (auto simp: disjoint_blocks_def)
qed

lemma checker_ok_add:
  assumes "checker_ok h info_dict self" "fresh_block h info_dict self m"
  shows "checker_ok h info_dict (add_pending_block m self)"
proof -
  define k where "k = bm_piece_index m"
  have "disjoint_blocks (pending_of self k @ [m])"
    using assms disjoint_blocks_snoc block_range_nonempty
    by (simp add: checker_ok_def fresh_block_def cover_def k_def) metis
  moreover have "finite (dom (cs_pending (add_pending_block m self)))"
    using assms(1) by (simp add: checker_ok_def add_pending_block_def)
  ultimately show ?thesis
    using assms by (auto simp: checker_ok_def pending_of_add fresh_block_def k_def)
qed

section \<open>Processing one block\<close>

definition completes :: "Info \<Rightarrow> PieceCheckerState \<Rightarrow> BlockMetadata \<Rightarrow> bool" where
  "completes info_dict self m \<longleftrightarrow>
     cover self (bm_piece_index m) \<union> block_range m = {0..<piece_size info_dict (unat (bm_piece_index m))} \<and>
     GoodPiece (bm_piece_index m) \<notin> cs_old_states self"

lemma ready_add:
  assumes "settled info_dict self" "fresh_block h info_dict self m"
  shows "{k. ready info_dict (add_pending_block m self) k} = (if completes info_dict self m then {bm_piece_index m} else {})"
  using assms by (auto simp: settled_def ready_def completes_def fresh_block_def cover_def [symmetric] cover_add)

context file_system
begin

lemma write_piece_outcome:
  assumes "ok s" "torrent_sized key info_dict (content s)" "distinct (torrent_keys key info_dict)"
    "bm_block_length m \<le> length data" "write_piece fs info_dict m (data, s) = (r, data', s')"
  shows "data' = data \<and> ok s' \<and> (calm s \<longrightarrow> calm s') \<and>
    (\<forall>k. k \<notin> set (torrent_keys key info_dict) \<longrightarrow> content s' k = content s k) \<and>
    torrent_sized key info_dict (content s') \<and>
    partly_overwritten (torrent_data key info_dict (content s)) (block_start info_dict m)
      (take (bm_block_length m) data) (torrent_data key info_dict (content s')) \<and>
    (r = Ok () \<longrightarrow> torrent_data key info_dict (content s') =
       overwrite (torrent_data key info_dict (content s)) (block_start info_dict m) (take (bm_block_length m) data)) \<and>
    (calm s \<longrightarrow> usable_torrent info_dict \<longrightarrow> r = Ok ())"
  using run_files_write [OF assms(1) assms(2) [unfolded torrent_sized_def] assms(3) [unfolded torrent_keys_def] assms(4) le0
      assms(5) [unfolded write_piece_def run_with_file_regions_def]]
  by (simp add: torrent_sized_def torrent_data_def torrent_keys_def usable_torrent_def)

lemma process_in_torrent_calm:
  assumes wf: "torrent_wf info_dict" and "hash_order order" and calm: "ok (cx_fs cx)" "calm (cx_fs cx)" "usable_torrent info_dict"
    and files: "torrent_sized key info_dict (content (cx_fs cx))" "distinct (torrent_keys key info_dict)"
    and self: "checker_ok h info_dict self" "settled info_dict self" and m: "fresh_block h info_dict self (bl_metadata block)"
    and data: "bm_block_length (bl_metadata block) \<le> length (bl_data block)" and info: "mi_info metainfo = info_dict" "inf_hash info_dict = h"
  defines "k \<equiv> bm_piece_index (bl_metadata block)"
  defines "xs \<equiv> overwrite (torrent_data key info_dict (content (cx_fs cx))) (block_start info_dict (bl_metadata block))
      (take (bm_block_length (bl_metadata block)) (bl_data block))"
  shows "\<exists>self' s'. process_in_torrent D order fs block metainfo self cx =
      (Ok (), self', cx\<lparr>cx_fs := s', cx_out := cx_out cx @
        (if completes info_dict self (bl_metadata block) then piece_message h False (verdict D info_dict xs k) else [])\<rparr>) \<and>
    ok s' \<and> calm s' \<and> torrent_sized key info_dict (content s') \<and> torrent_data key info_dict (content s') = xs \<and>
    (\<forall>j. j \<notin> set (torrent_keys key info_dict) \<longrightarrow> content s' j = content (cx_fs cx) j) \<and>
    checker_ok h info_dict self' \<and> settled info_dict self' \<and>
    cs_old_states self' = cs_old_states self \<union> (if completes info_dict self (bl_metadata block) then {verdict D info_dict xs k} else {}) \<and>
    (\<forall>j. cover self' j = (if j = k then (if completes info_dict self (bl_metadata block) then {}
       else cover self k \<union> block_range (bl_metadata block)) else cover self j))"
proof -
  define c where "c = completes info_dict self (bl_metadata block)"
  define self1 where "self1 = add_pending_block (bl_metadata block) self"
  obtain r1 d1 s1 where wr: "write_piece fs info_dict (bl_metadata block) (bl_data block, cx_fs cx) = (r1, d1, s1)"
    by (cases "write_piece fs info_dict (bl_metadata block) (bl_data block, cx_fs cx)") auto
  note w = write_piece_outcome [OF calm(1) files data wr]
  have r1: "r1 = Ok ()" and xs: "torrent_data key info_dict (content s1) = xs" using w calm by (simp_all add: xs_def)
  have ok1: "checker_ok h info_dict self1" using checker_ok_add [OF self(1) m] by (simp add: self1_def)
  have s1: "ok s1" "torrent_sized key info_dict (content s1)" using w by simp_all
  obtain r2 self2 s2 where cd: "calculate_diff D order fs info_dict (self1, s1) = (r2, self2, s2)"
    by (cases "calculate_diff D order fs info_dict (self1, s1)") auto
  note out = calculate_diff_outcome [OF wf ok1 assms(2) s1 cd]
  have r2: "r2 = Ok ()" using out w calm by simp
  define ks where "ks = (if c then [k] else [])"
  have self2: "self2 = hashed D info_dict xs ks (merge_pieces self1)"
  proof -
    obtain ks' where ks': "distinct ks'" "set ks' = (if c then {k} else {})" "self2 = hashed D info_dict xs ks' (merge_pieces self1)"
      using out r2 ready_add [OF self(2) m] by (auto simp: xs self1_def c_def k_def)
    then have "ks' = ks" by (cases ks'; cases "tl ks'") (auto simp: ks_def split: if_splits)
    then show ?thesis using ks' by simp
  qed
  define self3 where "self3 = self2\<lparr>cs_new_states := [], cs_old_states := cs_old_states self2 \<union> set (cs_new_states self2)\<rparr>"
  have new2: "cs_new_states self2 = map (verdict D info_dict xs) ks" "cs_old_states self2 = cs_old_states self"
    using self(2) by (simp_all add: self2 hashed_def merge_pieces_def self1_def settled_def)
  have step: "process_in_torrent D order fs block metainfo self cx = (Ok (), self3, cx\<lparr>cx_fs := s2, cx_out := cx_out cx @
      (if c then piece_message h False (verdict D info_dict xs k) else [])\<rparr>)"
    using wr r1 cd r2 info new2
    by (simp add: process_in_torrent_def send_piece_diff_def run_with_diff_def send_out_def self1_def self3_def ks_def)
  have pend3: "pending_of self3 j = pending_of self2 j" for j by (simp add: self3_def pending_of_def)
  have cov: "cover self3 j = (if j = k then (if c then {} else cover self k \<union> block_range (bl_metadata block)) else cover self j)" for j
  proof -
    have "cover self3 j = (if j \<in> set ks then {} else cover self1 j)"
      by (simp add: cover_def pend3 self2 pending_of_hashed merge_pending(3) [OF wf ok1])
    then show ?thesis by (simp add: self1_def cover_add ks_def k_def)
  qed
  have "checker_ok h info_dict self3" using out by (simp add: checker_ok_def pend3) (simp add: self3_def)
  moreover have "cs_old_states self3 = cs_old_states self \<union> (if c then {verdict D info_dict xs k} else {})"
    by (simp add: self3_def new2 ks_def)
  moreover have "settled info_dict self3"
    using self(2) m cov calculation(2) piece_size_pos [OF wf]
    by (auto simp: settled_def ready_def cover_def [symmetric] c_def completes_def k_def self3_def)
  ultimately show ?thesis
    using step out w xs cov calm by (intro exI [of _ self3] exI [of _ s2]) (simp add: c_def)
qed

end

section \<open>A task for a block\<close>

text \<open>A torrent that was added, with its files in place.\<close>

definition torrent_live ::
  "(path \<Rightarrow> 'k) \<Rightarrow> (path \<Rightarrow> bool) \<Rightarrow> ('k \<rightharpoonup> bytes) \<Rightarrow> ShaHash \<Rightarrow> MetainfoState \<Rightarrow> bool" where
  "torrent_live key usable c h st \<longleftrightarrow>
     (let info_dict = mi_info (ms_file st)
      in \<not> ms_poisoned st \<and> inf_hash info_dict = h \<and> torrent_wf info_dict \<and>
         (\<forall>f \<in> set (inf_files info_dict). usable (build_path (inf_dir info_dict) f)) \<and>
         distinct (torrent_keys key info_dict) \<and> torrent_sized key info_dict c \<and>
         checker_ok h info_dict (ms_state st) \<and> settled info_dict (ms_state st))"

definition found_message :: "ShaHash \<Rightarrow> PieceState \<Rightarrow> 'io ODiskMessage" where
  "found_message h p = (case p of GoodPiece k \<Rightarrow> FoundGoodPiece h k | BadPiece k \<Rightarrow> FoundBadPiece h k)"

lemma piece_message_all: "piece_message h False p = [found_message h p]"
  by (cases p) (simp_all add: found_message_def)

context file_system
begin

lemma process_block_calm:
  fixes block and st
  defines "m \<equiv> bl_metadata block" and "info_dict \<equiv> mi_info (ms_file st)" and "self \<equiv> ms_state st"
  assumes order: "hash_order order" and calm: "ok (cx_fs cx)" "calm (cx_fs cx)"
    and st: "cx_torrents cx h = Some st" "torrent_live key usable (content (cx_fs cx)) h st"
    and m: "fresh_block h info_dict self m" and data: "bm_block_length m \<le> length (bl_data block)"
  defines "xs \<equiv> overwrite (torrent_data key info_dict (content (cx_fs cx))) (block_start info_dict m)
      (take (bm_block_length m) (bl_data block))"
  shows "\<exists>st' s'. execute_on_pool D order fs (ProcessBlock block) cx =
      (Ok (), cx\<lparr>cx_fs := s', cx_torrents := (cx_torrents cx)(h \<mapsto> st'), cx_out := cx_out cx @
        (if completes info_dict self m then [found_message h (verdict D info_dict xs (bm_piece_index m))] else []) @
        [BlockProcessed block]\<rparr>) \<and>
    ok s' \<and> calm s' \<and> torrent_live key usable (content s') h st' \<and> ms_file st' = ms_file st \<and>
    torrent_data key info_dict (content s') = xs \<and>
    (\<forall>j. j \<notin> set (torrent_keys key info_dict) \<longrightarrow> content s' j = content (cx_fs cx) j) \<and>
    cs_old_states (ms_state st') = cs_old_states self \<union>
      (if completes info_dict self m then {verdict D info_dict xs (bm_piece_index m)} else {}) \<and>
    (\<forall>j. cover (ms_state st') j = (if j = bm_piece_index m then (if completes info_dict self m then {}
       else cover self j \<union> block_range m) else cover self j))"
proof -
  have live: "\<not> ms_poisoned st" "inf_hash info_dict = h" "torrent_wf info_dict" "usable_torrent info_dict"
    "distinct (torrent_keys key info_dict)" "torrent_sized key info_dict (content (cx_fs cx))"
    "checker_ok h info_dict self" "settled info_dict self"
    using st(2) by (simp_all add: torrent_live_def Let_def info_dict_def self_def usable_torrent_def)
  have hash: "bm_info_hash m = h" using m by (simp add: fresh_block_def block_in_def)
  obtain self' s' where p: "process_in_torrent D order fs block (ms_file st) self cx =
      (Ok (), self', cx\<lparr>cx_fs := s', cx_out := cx_out cx @
        (if completes info_dict self m then piece_message h False (verdict D info_dict xs (bm_piece_index m)) else [])\<rparr>)"
    and out: "ok s'" "calm s'" "torrent_sized key info_dict (content s')" "torrent_data key info_dict (content s') = xs"
      "\<forall>j. j \<notin> set (torrent_keys key info_dict) \<longrightarrow> content s' j = content (cx_fs cx) j"
      "checker_ok h info_dict self'" "settled info_dict self'"
      "cs_old_states self' = cs_old_states self \<union> (if completes info_dict self m then {verdict D info_dict xs (bm_piece_index m)} else {})"
      "\<forall>j. cover self' j = (if j = bm_piece_index m then (if completes info_dict self m then {}
         else cover self (bm_piece_index m) \<union> block_range m) else cover self j)"
    using process_in_torrent_calm [OF live(3) order calm live(4,6,5,7,8) m [unfolded m_def] data [unfolded m_def]
        info_dict_def [symmetric, THEN meta_eq_to_obj_eq] live(2), of D]
    unfolding m_def xs_def by blast
  define st' where "st' = st\<lparr>ms_state := self', ms_poisoned := False\<rparr>"
  have "execute_on_pool D order fs (ProcessBlock block) cx =
      (Ok (), cx\<lparr>cx_fs := s', cx_torrents := (cx_torrents cx)(h \<mapsto> st'), cx_out := cx_out cx @
        (if completes info_dict self m then [found_message h (verdict D info_dict xs (bm_piece_index m))] else []) @
        [BlockProcessed block]\<rparr>)"
    using p hash live(1) st(1)
    by (simp add: execute_process_block_def update_torrent_def answer_def send_out_def st'_def
        m_def [symmetric] self_def [symmetric] piece_message_all)
  moreover have "torrent_live key usable (content s') h st'"
    using st(2) out by (simp add: torrent_live_def Let_def st'_def info_dict_def)
  ultimately show ?thesis
    using out by (intro exI [of _ st'] exI [of _ s']) (simp add: st'_def)
qed

end

text \<open>
  C7. Processing a block: for every file system with the laws of the trait and without faults, and
  a torrent that was added, a block that lies in its piece and does not overlap the blocks
  that wait there is written to its place in the files of the torrent, and no other byte of
  any file changes. The piece is hashed exactly when the block completes it and it was not
  found good before; then one message tells whether the bytes that are now in the files have
  the hash of the torrent, and the piece starts anew. Otherwise the block is added to the
  bytes that are covered. The last message says that the block was processed. The torrent
  is left in a state in which the next block can be processed.
\<close>

theorem process_block_correct:
  fixes block and st and key :: "path \<Rightarrow> 'k"
  defines "m \<equiv> bl_metadata block" and "info_dict \<equiv> mi_info (ms_file st)" and "self \<equiv> ms_state st"
  assumes "file_system fs key content handle ok calm usable" "hash_order order"
    and "ok (cx_fs cx)" "calm (cx_fs cx)" "cx_torrents cx h = Some st"
    and "torrent_live key usable (content (cx_fs cx)) h st" "fresh_block h info_dict self m"
    and "bm_block_length m \<le> length (bl_data block)"
  defines "xs \<equiv> overwrite (torrent_data key info_dict (content (cx_fs cx))) (block_start info_dict m)
      (take (bm_block_length m) (bl_data block))"
  shows "\<exists>st' s'. execute_on_pool D order fs (ProcessBlock block) cx =
      (Ok (), cx\<lparr>cx_fs := s', cx_torrents := (cx_torrents cx)(h \<mapsto> st'), cx_out := cx_out cx @
        (if completes info_dict self m then [found_message h (verdict D info_dict xs (bm_piece_index m))] else []) @
        [BlockProcessed block]\<rparr>) \<and>
    ok s' \<and> calm s' \<and> torrent_live key usable (content s') h st' \<and> ms_file st' = ms_file st \<and>
    torrent_data key info_dict (content s') = xs \<and>
    (\<forall>j. j \<notin> set (torrent_keys key info_dict) \<longrightarrow> content s' j = content (cx_fs cx) j) \<and>
    cs_old_states (ms_state st') = cs_old_states self \<union>
      (if completes info_dict self m then {verdict D info_dict xs (bm_piece_index m)} else {}) \<and>
    (\<forall>j. cover (ms_state st') j = (if j = bm_piece_index m then (if completes info_dict self m then {}
       else cover self j \<union> block_range m) else cover self j))"
  using file_system.process_block_calm [OF assms(4-8) assms(9) [unfolded assms(1-3)] assms(10) [unfolded assms(1-3)]]
    assms(11) unfolding assms(1-3) xs_def by blast

section \<open>Adding a torrent\<close>

lemma found_messages:
  "concat (map (piece_message h True) (map (verdict D info_dict xs) ks)) =
     map (FoundGoodPiece h) (filter (\<lambda>k. piece_good D info_dict xs (unat k)) ks)"
  by (induction ks) (simp_all add: verdict_def)

context file_system
begin

lemma add_torrent_calm:
  fixes metainfo
  defines "info_dict \<equiv> mi_info metainfo"
  defines "h \<equiv> inf_hash info_dict"
  assumes wf: "torrent_wf info_dict" and "hash_order order" "ok (cx_fs cx)" "calm (cx_fs cx)" "usable_torrent info_dict"
    and "distinct (torrent_keys key info_dict)"
    and "\<forall>f \<in> set (inf_files info_dict).
      length (found (content (cx_fs cx)) (key (build_path (inf_dir info_dict) f))) < 2 ^ 64"
    and fits: "\<forall>f \<in> set (inf_files info_dict). fits key (inf_dir info_dict) (content (cx_fs cx)) f"
    and "cx_torrents cx h = None"
  defines "xs \<equiv> concat (map (prepared key (inf_dir info_dict) (content (cx_fs cx))) (inf_files info_dict))"
  shows "\<exists>ks s' st. execute_on_pool D order fs (AddTorrent metainfo) cx =
      (Ok (), cx\<lparr>cx_fs := s', cx_torrents := (cx_torrents cx)(h \<mapsto> st),
        cx_out := cx_out cx @ map (FoundGoodPiece h) ks @ [TorrentAdded h]\<rparr>) \<and>
    distinct ks \<and> set ks = {k. unat k < num_pieces info_dict \<and> piece_good D info_dict xs (unat k)} \<and>
    ok s' \<and> calm s' \<and> torrent_data key info_dict (content s') = xs \<and>
    (\<forall>k. k \<notin> set (torrent_keys key info_dict) \<or> found (content (cx_fs cx)) k \<noteq> [] \<longrightarrow> content s' k = content (cx_fs cx) k) \<and>
    torrent_live key usable (content s') h st \<and> ms_file st = metainfo \<and>
    (\<forall>k. cover (ms_state st) k = {} \<and> (GoodPiece k \<in> cs_old_states (ms_state st) \<longleftrightarrow> k \<in> set ks))"
proof -
  from init_state_calm [OF wf assms(4-10), of D] obtain self ks s' where
    init: "init_state D order fs info_dict (cx_fs cx) = (Ok self, s')"
    and s': "ok s'" "calm s'" "torrent_sized key info_dict (content s')" "torrent_data key info_dict (content s') = xs"
      "\<forall>k. k \<notin> set (torrent_keys key info_dict) \<or> found (content (cx_fs cx)) k \<noteq> [] \<longrightarrow> content s' k = content (cx_fs cx) k"
    and ks: "distinct ks" "set ks = {k. unat k < num_pieces info_dict}"
    and self: "cs_new_states self = map (verdict D info_dict xs) ks" "cs_old_states self = {}" "\<forall>k. pending_of self k = []"
      "checker_ok h info_dict self"
    unfolding xs_def by (elim exE conjE) auto
  define self1 where "self1 = self\<lparr>cs_new_states := [], cs_old_states := set (map (verdict D info_dict xs) ks)\<rparr>"
  define st where "st = \<lparr>ms_file = metainfo, ms_state = self1, ms_poisoned = False\<rparr>"
  define gs where "gs = filter (\<lambda>k. piece_good D info_dict xs (unat k)) ks"
  have "execute_on_pool D order fs (AddTorrent metainfo) cx =
      (Ok (), cx\<lparr>cx_fs := s', cx_torrents := (cx_torrents cx)(h \<mapsto> st),
        cx_out := cx_out cx @ map (FoundGoodPiece h) gs @ [TorrentAdded h]\<rparr>)"
    using init assms(11) self(1,2)
    by (simp add: found_messages [unfolded map_map] execute_add_torrent_def send_piece_diff_def run_with_diff_def insert_torrent_def answer_def send_out_def
        st_def self1_def gs_def info_dict_def [symmetric] h_def [symmetric])
  moreover have pend: "pending_of self1 k = []" for k using self(3) by (simp add: self1_def pending_of_def)
  have "settled info_dict self1"
    using piece_size_pos [OF wf] by (auto simp: settled_def ready_def pend) (simp add: self1_def)
  moreover have "checker_ok h info_dict self1"
    using self(4) by (simp add: checker_ok_def pend disjoint_blocks_def) (simp add: self1_def)
  ultimately have "torrent_live key usable (content s') h st"
    using assms(7,8) wf s' by (simp add: torrent_live_def Let_def st_def info_dict_def [symmetric] h_def [symmetric] usable_torrent_def)
  moreover have "GoodPiece k \<in> cs_old_states self1 \<longleftrightarrow> k \<in> set gs" for k
    by (auto simp: self1_def gs_def verdict_def)
  ultimately show ?thesis
    using \<open>execute_on_pool D order fs (AddTorrent metainfo) cx = _\<close> s' ks pend
    by (intro exI [of _ gs] exI [of _ s'] exI [of _ st]) (auto simp: gs_def st_def cover_def)
qed

end

text \<open>
  C18. Adding a torrent whose files are missing, empty or of the right length: missing and empty
  files are filled with zeroes, no byte of an existing file changes, and the pieces whose
  bytes have the hash of the torrent, and no others, are reported as good, each once and
  before the message that the torrent was added. The torrent can then take blocks, with the
  pieces that were found good remembered.
\<close>

theorem add_torrent_correct:
  fixes metainfo and key :: "path \<Rightarrow> 'k"
  defines "info_dict \<equiv> mi_info metainfo"
  defines "h \<equiv> inf_hash info_dict"
  assumes "file_system fs key content handle ok calm usable" "torrent_wf info_dict" "hash_order order"
    and "ok (cx_fs cx)" "calm (cx_fs cx)" "\<forall>f \<in> set (inf_files info_dict). usable (build_path (inf_dir info_dict) f)"
    and "distinct (torrent_keys key info_dict)"
    and "\<forall>f \<in> set (inf_files info_dict).
      length (found (content (cx_fs cx)) (key (build_path (inf_dir info_dict) f))) < 2 ^ 64"
    and "\<forall>f \<in> set (inf_files info_dict). fits key (inf_dir info_dict) (content (cx_fs cx)) f"
    and "cx_torrents cx h = None"
  defines "xs \<equiv> concat (map (prepared key (inf_dir info_dict) (content (cx_fs cx))) (inf_files info_dict))"
  shows "\<exists>ks s' st. execute_on_pool D order fs (AddTorrent metainfo) cx =
      (Ok (), cx\<lparr>cx_fs := s', cx_torrents := (cx_torrents cx)(h \<mapsto> st),
        cx_out := cx_out cx @ map (FoundGoodPiece h) ks @ [TorrentAdded h]\<rparr>) \<and>
    distinct ks \<and> set ks = {k. unat k < num_pieces info_dict \<and> piece_good D info_dict xs (unat k)} \<and>
    ok s' \<and> calm s' \<and> torrent_data key info_dict (content s') = xs \<and>
    (\<forall>k. k \<notin> set (torrent_keys key info_dict) \<or> found (content (cx_fs cx)) k \<noteq> [] \<longrightarrow> content s' k = content (cx_fs cx) k) \<and>
    torrent_live key usable (content s') h st \<and> ms_file st = metainfo \<and>
    (\<forall>k. cover (ms_state st) k = {} \<and> (GoodPiece k \<in> cs_old_states (ms_state st) \<longleftrightarrow> k \<in> set ks))"
  using file_system.add_torrent_calm [OF assms(3), of metainfo order cx D] assms(4-12)
  unfolding assms(1,2) xs_def file_system.usable_torrent_def [OF assms(3)] by simp

section \<open>A download\<close>

primrec run_tasks ::
  "'d Sha1 \<Rightarrow> ((u64 \<rightharpoonup> BlockMetadata list) \<Rightarrow> u64 list) \<Rightarrow> ('s, 'f, 'io) FileSystem \<Rightarrow> IDiskMessage list \<Rightarrow>
     ('s, 'io) DiskManagerContext \<Rightarrow> (('s, 'io) DiskManagerContext, unit, unit) outcome" where
  "run_tasks D order fs [] cx = (Ok (), cx)"
| "run_tasks D order fs (msg # msgs) cx = act_try (execute_on_pool D order fs msg cx) (\<lambda>_. run_tasks D order fs msgs)"

text \<open>The bytes of a piece that some blocks cover, and blocks that carry the bytes of \<open>orig\<close>.\<close>

definition blocks_cover :: "Block list \<Rightarrow> u64 \<Rightarrow> nat set" where
  "blocks_cover bs k = (\<Union>b \<in> {b \<in> set bs. bm_piece_index (bl_metadata b) = k}. block_range (bl_metadata b))"

lemma blocks_cover_simps:
  "blocks_cover [] k = {}"
  "blocks_cover (b # bs) k =
     (if bm_piece_index (bl_metadata b) = k then block_range (bl_metadata b) else {}) \<union> blocks_cover bs k"
  by (auto simp: blocks_cover_def)

definition carries :: "ShaHash \<Rightarrow> Info \<Rightarrow> bytes \<Rightarrow> Block \<Rightarrow> bool" where
  "carries h info_dict orig b \<longleftrightarrow>
     (let m = bl_metadata b
      in unat (bm_piece_index m) < num_pieces info_dict \<and>
         block_in h (bm_piece_index m) (piece_size info_dict (unat (bm_piece_index m))) m \<and>
         bl_data b = take (bm_block_length m) (drop (block_start info_dict m) orig))"

text \<open>No block covers a byte that an earlier one covers.\<close>

primrec no_overlap :: "(u64 \<Rightarrow> nat set) \<Rightarrow> Block list \<Rightarrow> bool" where
  "no_overlap C [] \<longleftrightarrow> True"
| "no_overlap C (b # bs) \<longleftrightarrow>
     (let k = bm_piece_index (bl_metadata b)
      in block_range (bl_metadata b) \<inter> C k = {} \<and> no_overlap (C(k := C k \<union> block_range (bl_metadata b))) bs)"

definition whole :: "Info \<Rightarrow> (u64 \<Rightarrow> nat set) \<Rightarrow> u64 \<Rightarrow> bool" where
  "whole info_dict C k \<longleftrightarrow> C k = {0..<piece_size info_dict (unat k)}"

text \<open>How far the download is when the bytes \<open>C\<close> were written.\<close>

definition progress :: "Info \<Rightarrow> bytes \<Rightarrow> (u64 \<Rightarrow> nat set) \<Rightarrow> bytes \<Rightarrow> PieceCheckerState \<Rightarrow> bool" where
  "progress info_dict orig C xs self \<longleftrightarrow> length xs = info_size info_dict \<and>
     (\<forall>k. unat k < num_pieces info_dict \<longrightarrow>
        cover self k = (if whole info_dict C k then {} else C k) \<and>
        (GoodPiece k \<in> cs_old_states self \<longleftrightarrow> whole info_dict C k) \<and>
        (\<forall>i \<in> C k. i < piece_size info_dict (unat k) \<and>
           xs ! (unat k * unat (inf_piece_len info_dict) + i) = orig ! (unat k * unat (inf_piece_len info_dict) + i)))"

lemma block_start_eq:
  assumes "torrent_wf info_dict" "unat (bm_piece_index m) < num_pieces info_dict"
    "block_in h (bm_piece_index m) (piece_size info_dict (unat (bm_piece_index m))) m"
  shows "block_start info_dict m = unat (bm_piece_index m) * unat (inf_piece_len info_dict) + block_lo m"
    "block_start info_dict m + bm_block_length m \<le> info_size info_dict"
proof -
  define a where "a = unat (bm_piece_index m) * unat (inf_piece_len info_dict)"
  have a: "a < info_size info_dict" using piece_start [OF assms(1)] assms(2) by (simp add: a_def)
  have b: "block_lo m + bm_block_length m \<le> info_size info_dict - a"
    using assms(3) by (simp add: block_in_def block_hi_def piece_size_def a_def)
  have "a + block_lo m < 2 ^ 64" using a b assms(1,3) by (auto simp: torrent_wf_def block_in_def)
  then have "block_start info_dict m = a + block_lo m"
    by (simp add: block_start_def unat_word_ariths a_def block_lo_def)
  then show "block_start info_dict m = unat (bm_piece_index m) * unat (inf_piece_len info_dict) + block_lo m"
    "block_start info_dict m + bm_block_length m \<le> info_size info_dict" using a b by (simp_all add: a_def)
qed

lemma nth_overwrite_orig:
  assumes "length xs = length orig" "p + n \<le> length orig" "j < length orig"
  shows "overwrite xs p (take n (drop p orig)) ! j = (if p \<le> j \<and> j < p + n then orig ! j else xs ! j)"
  using assms by (auto simp: nth_overwrite)

lemma piece_bytes_cong:
  assumes "length xs = info_size info_dict" "length ys = info_size info_dict"
    "\<forall>i < piece_size info_dict k. xs ! (k * unat (inf_piece_len info_dict) + i) = ys ! (k * unat (inf_piece_len info_dict) + i)"
  shows "piece_bytes info_dict xs k = piece_bytes info_dict ys k"
  using assms unfolding piece_bytes_size [OF assms(1)] piece_bytes_size [OF assms(2)]
  by (intro nth_equalityI) (auto simp: piece_size_def)

lemma progress_all:
  assumes "torrent_wf info_dict" "progress info_dict orig C xs self" "length orig = info_size info_dict"
    "\<forall>k. unat k < num_pieces info_dict \<longrightarrow> whole info_dict C k"
  shows "xs = orig"
proof (rule nth_equalityI)
  show "length xs = length orig" using assms by (simp add: progress_def)
next
  fix j
  assume "j < length xs"
  then have j: "j < info_size info_dict" using assms(2) by (simp add: progress_def)
  define p where "p = unat (inf_piece_len info_dict)"
  have "j div p * p < info_size info_dict" using j div_times_less_eq_dividend [of j p] by linarith
  then have n: "j div p < num_pieces info_dict" using piece_start [OF assms(1)] by (simp add: p_def)
  then have k: "unat (of_nat (j div p) :: u64) = j div p" using num_pieces_less [OF assms(1)] by (simp add: unat_of_nat)
  have "j mod p < p" "j div p * p + j mod p = j" using plen_pos [OF assms(1)] by (simp_all add: p_def)
  then have "j mod p < piece_size info_dict (j div p)"
    using j unfolding piece_size_def p_def [symmetric] min_less_iff_conj by linarith
  then have "xs ! (j div p * p + j mod p) = orig ! (j div p * p + j mod p)"
    using assms(2,4) n k unfolding progress_def whole_def p_def by (metis atLeastLessThan_iff zero_le)
  then show "xs ! j = orig ! j" by simp
qed

text \<open>One block more.\<close>

lemma progress_fresh:
  assumes wf: "torrent_wf info_dict" and C: "progress info_dict orig C xs self"
    and b: "carries h info_dict orig b" "block_range (bl_metadata b) \<inter> C (bm_piece_index (bl_metadata b)) = {}"
  defines "m \<equiv> bl_metadata b" and "k \<equiv> bm_piece_index (bl_metadata b)"
  shows "\<not> whole info_dict C k" "cover self k = C k" "GoodPiece k \<notin> cs_old_states self"
    "fresh_block h info_dict self m"
    "completes info_dict self m \<longleftrightarrow> whole info_dict (C(k := C k \<union> block_range m)) k"
proof -
  have bm: "unat k < num_pieces info_dict" "block_in h k (piece_size info_dict (unat k)) m"
    using b(1) by (simp_all add: carries_def Let_def m_def k_def)
  have "block_range m \<noteq> {}" "block_range m \<subseteq> {0..<piece_size info_dict (unat k)}"
    using bm(2) block_range_nonempty by (blast, auto simp: block_range_def block_in_def)
  then show Ck: "\<not> whole info_dict C k" using b(2) unfolding whole_def m_def k_def by blast
  show P: "cover self k = C k" "GoodPiece k \<notin> cs_old_states self" using C bm(1) Ck by (simp_all add: progress_def)
  show "fresh_block h info_dict self m" using bm b(2) P by (simp add: fresh_block_def m_def k_def)
  show "completes info_dict self m \<longleftrightarrow> whole info_dict (C(k := C k \<union> block_range m)) k"
    using P by (simp add: completes_def whole_def m_def k_def)
qed

text \<open>The bytes that are covered are those of \<open>orig\<close>.\<close>

lemma progress_data:
  assumes wf: "torrent_wf info_dict" and C: "progress info_dict orig C xs self" and orig: "length orig = info_size info_dict"
    and b: "carries h info_dict orig b"
  defines "m \<equiv> bl_metadata b" and "k \<equiv> bm_piece_index (bl_metadata b)"
  defines "ys \<equiv> overwrite xs (block_start info_dict m) (take (bm_block_length m) (bl_data b))"
  assumes ji: "unat j < num_pieces info_dict" "i \<in> (C(k := C k \<union> block_range m)) j"
  shows "i < piece_size info_dict (unat j) \<and>
      ys ! (unat j * unat (inf_piece_len info_dict) + i) = orig ! (unat j * unat (inf_piece_len info_dict) + i)"
proof -
  have bm: "unat k < num_pieces info_dict" "block_in h k (piece_size info_dict (unat k)) m"
    "take (bm_block_length m) (bl_data b) = take (bm_block_length m) (drop (block_start info_dict m) orig)"
    using b by (simp_all add: carries_def Let_def m_def k_def)
  have kdef: "bm_piece_index m = k" by (simp add: m_def k_def)
  note start = block_start_eq [OF wf bm(1,2) [folded kdef], unfolded kdef]
  have P: "length xs = info_size info_dict" using C by (simp add: progress_def)
  have ys: "ys ! j = (if block_start info_dict m \<le> j \<and> j < block_start info_dict m + bm_block_length m then orig ! j else xs ! j)"
    if "j < info_size info_dict" for j
    using nth_overwrite_orig [of xs orig "block_start info_dict m" "bm_block_length m" j] start(2) P orig that
    by (simp add: ys_def bm(3))
  show ?thesis
  proof (cases "j = k \<and> i \<in> block_range m")
    case True
    then have "i < piece_size info_dict (unat k)" using bm(2) by (auto simp: block_range_def block_in_def)
    moreover have "block_start info_dict m \<le> unat k * unat (inf_piece_len info_dict) + i"
      "unat k * unat (inf_piece_len info_dict) + i < block_start info_dict m + bm_block_length m"
      using True start by (simp_all add: block_range_def block_hi_def)
    ultimately show ?thesis using True ys start(2) by simp
  next
    case False
    then have "i \<in> C j" using ji(2) by (auto split: if_splits)
    then have i: "i < piece_size info_dict (unat j)"
        "xs ! (unat j * unat (inf_piece_len info_dict) + i) = orig ! (unat j * unat (inf_piece_len info_dict) + i)"
      using C ji(1) unfolding progress_def by blast+
    then have "unat j * unat (inf_piece_len info_dict) + i < info_size info_dict" by (auto simp: piece_size_def)
    then show ?thesis using i ys by simp
  qed
qed

lemma progress_step:
  assumes wf: "torrent_wf info_dict" and C: "progress info_dict orig C xs self" and orig: "length orig = info_size info_dict"
    and b: "carries h info_dict orig b" "block_range (bl_metadata b) \<inter> C (bm_piece_index (bl_metadata b)) = {}"
  defines "m \<equiv> bl_metadata b" and "k \<equiv> bm_piece_index (bl_metadata b)"
  defines "ys \<equiv> overwrite xs (block_start info_dict m) (take (bm_block_length m) (bl_data b))"
  assumes old: "cs_old_states self' = cs_old_states self \<union> (if completes info_dict self m then {verdict D info_dict ys k} else {})"
    and cov: "\<forall>j. cover self' j = (if j = k then (if completes info_dict self m then {} else cover self j \<union> block_range m) else cover self j)"
    and good: "\<forall>i < num_pieces info_dict. piece_good D info_dict orig i"
  shows "completes info_dict self m \<Longrightarrow> verdict D info_dict ys k = GoodPiece k"
    "progress info_dict orig (C(k := C k \<union> block_range m)) ys self'"
proof -
  define C' where "C' = C(k := C k \<union> block_range m)"
  note fr = progress_fresh [OF wf C b, folded k_def, folded m_def, folded C'_def]
  note right = progress_data [OF wf C orig b(1), folded k_def, folded m_def, folded C'_def ys_def]
  have k: "unat k < num_pieces info_dict" using b(1) by (simp add: carries_def Let_def k_def)
  have len: "length ys = info_size info_dict" using C by (simp add: ys_def progress_def)
  show v: "verdict D info_dict ys k = GoodPiece k" if "completes info_dict self m"
  proof -
    have "C' k = {0..<piece_size info_dict (unat k)}" using that fr(5) by (simp add: whole_def)
    then have "piece_bytes info_dict ys (unat k) = piece_bytes info_dict orig (unat k)"
      using piece_bytes_cong [OF len orig, of "unat k"] right [OF k] by simp
    then show ?thesis using good k by (simp add: verdict_def piece_good_def)
  qed
  show "progress info_dict orig (C(k := C k \<union> block_range m)) ys self'"
    unfolding progress_def C'_def [symmetric]
  proof (intro conjI allI impI)
    fix j :: u64
    assume j: "unat j < num_pieces info_dict"
    have other: "whole info_dict C' j = whole info_dict C j" if "j \<noteq> k" using that by (simp add: whole_def C'_def)
    show "cover self' j = (if whole info_dict C' j then {} else C' j)"
      using cov fr(2,5) other C j by (auto simp: progress_def C'_def)
    show "(GoodPiece j \<in> cs_old_states self') = whole info_dict C' j"
      using old fr(1,3,5) v other C j by (auto simp: progress_def)
    show "\<forall>i\<in>C' j. i < piece_size info_dict (unat j) \<and>
      ys ! (unat j * unat (inf_piece_len info_dict) + i) = orig ! (unat j * unat (inf_piece_len info_dict) + i)"
      using right [OF j] by blast
  qed (rule len)
qed

context file_system
begin

lemma download_steps:
  assumes order: "hash_order order" and orig: "length orig = info_size info_dict"
    and good: "\<forall>i < num_pieces info_dict. piece_good D info_dict orig i"
    and "\<forall>b \<in> set bs. carries h info_dict orig b" "no_overlap C bs"
    and "ok (cx_fs cx)" "calm (cx_fs cx)" "cx_torrents cx h = Some st" "torrent_live key usable (content (cx_fs cx)) h st"
    and "mi_info (ms_file st) = info_dict"
    and "progress info_dict orig C (torrent_data key info_dict (content (cx_fs cx))) (ms_state st)"
  shows "\<exists>cx' st' msgs. run_tasks D order fs (map ProcessBlock bs) cx = (Ok (), cx') \<and> ok (cx_fs cx') \<and> calm (cx_fs cx') \<and>
    cx_torrents cx' h = Some st' \<and> torrent_live key usable (content (cx_fs cx')) h st' \<and> ms_file st' = ms_file st \<and>
    progress info_dict orig (\<lambda>k. C k \<union> blocks_cover bs k) (torrent_data key info_dict (content (cx_fs cx'))) (ms_state st') \<and>
    (\<forall>j. j \<notin> set (torrent_keys key info_dict) \<longrightarrow> content (cx_fs cx') j = content (cx_fs cx) j) \<and>
    cx_out cx' = cx_out cx @ msgs \<and> (\<forall>k. FoundBadPiece h k \<notin> set msgs) \<and>
    (\<forall>k. unat k < num_pieces info_dict \<longrightarrow> count_list msgs (FoundGoodPiece h k) =
       (if \<not> whole info_dict C k \<and> whole info_dict (\<lambda>k. C k \<union> blocks_cover bs k) k then 1 else 0))"
  using assms(4-)
proof (induction bs arbitrary: C cx st)
  case Nil
  have "(\<lambda>k. C k \<union> blocks_cover [] k) = C" by (simp add: blocks_cover_def)
  then show ?case using Nil by simp
next
  case (Cons b bs)
  define m where "m = bl_metadata b"
  define k where "k = bm_piece_index m"
  define C1 where "C1 = C(k := C k \<union> block_range m)"
  define xs where "xs = torrent_data key info_dict (content (cx_fs cx))"
  define ys where "ys = overwrite xs (block_start info_dict m) (take (bm_block_length m) (bl_data b))"
  have wf: "torrent_wf info_dict" using Cons.prems(6,7) by (simp add: torrent_live_def Let_def)
  have b: "carries h info_dict orig b" "block_range m \<inter> C k = {}" "no_overlap C1 bs"
    using Cons.prems(1,2) by (simp_all add: Let_def m_def k_def C1_def)
  note fr = progress_fresh [OF wf Cons.prems(8) b(1) b(2) [unfolded k_def m_def], folded m_def, folded k_def, folded C1_def]
  have len: "bm_block_length m \<le> length (bl_data b)"
    using b(1) block_start_eq(2) [OF wf] orig by (fastforce simp: carries_def Let_def m_def)
  obtain st1 s1 where step: "execute_on_pool D order fs (ProcessBlock b) cx =
      (Ok (), cx\<lparr>cx_fs := s1, cx_torrents := (cx_torrents cx)(h \<mapsto> st1), cx_out := cx_out cx @
        (if completes info_dict (ms_state st) m then [found_message h (verdict D info_dict ys k)] else []) @ [BlockProcessed b]\<rparr>)"
    and s1: "ok s1" "calm s1" "torrent_live key usable (content s1) h st1" "ms_file st1 = ms_file st"
      "torrent_data key info_dict (content s1) = ys"
      "\<forall>j. j \<notin> set (torrent_keys key info_dict) \<longrightarrow> content s1 j = content (cx_fs cx) j"
      "cs_old_states (ms_state st1) = cs_old_states (ms_state st) \<union>
         (if completes info_dict (ms_state st) m then {verdict D info_dict ys k} else {})"
      "\<forall>j. cover (ms_state st1) j = (if j = k then (if completes info_dict (ms_state st) m then {}
         else cover (ms_state st) j \<union> block_range m) else cover (ms_state st) j)"
    using process_block_calm [OF order Cons.prems(3-6), of b D] fr(4) len Cons.prems(7)
    unfolding m_def k_def ys_def xs_def by auto
  note ps = progress_step [OF wf Cons.prems(8) [folded xs_def] orig b(1) b(2) [unfolded k_def m_def],
      folded m_def, folded k_def, folded C1_def ys_def, OF s1(7,8) good]
  define new where "new = (if completes info_dict (ms_state st) m then [FoundGoodPiece h k] else []) @ [BlockProcessed b :: 'io ODiskMessage]"
  define cx1 where "cx1 = cx\<lparr>cx_fs := s1, cx_torrents := (cx_torrents cx)(h \<mapsto> st1), cx_out := cx_out cx @ new\<rparr>"
  have step1: "execute_on_pool D order fs (ProcessBlock b) cx = (Ok (), cx1)"
    using step ps(1) by (simp add: cx1_def new_def found_message_def)
  have "ok (cx_fs cx1)" "calm (cx_fs cx1)" "cx_torrents cx1 h = Some st1"
    "torrent_live key usable (content (cx_fs cx1)) h st1" "mi_info (ms_file st1) = info_dict"
    "progress info_dict orig C1 (torrent_data key info_dict (content (cx_fs cx1))) (ms_state st1)"
    using s1 ps(2) Cons.prems(7) by (simp_all add: cx1_def)
  from Cons.IH [OF _ b(3) this] Cons.prems(1) obtain cx' st' msgs where
    run: "run_tasks D order fs (map ProcessBlock bs) cx1 = (Ok (), cx')"
    and out: "ok (cx_fs cx')" "calm (cx_fs cx')" "cx_torrents cx' h = Some st'"
      "torrent_live key usable (content (cx_fs cx')) h st'" "ms_file st' = ms_file st1"
      "progress info_dict orig (\<lambda>k. C1 k \<union> blocks_cover bs k) (torrent_data key info_dict (content (cx_fs cx'))) (ms_state st')"
      "\<forall>j. j \<notin> set (torrent_keys key info_dict) \<longrightarrow> content (cx_fs cx') j = content (cx_fs cx1) j"
      "cx_out cx' = cx_out cx1 @ msgs" "\<forall>k. FoundBadPiece h k \<notin> set msgs"
      "\<forall>k. unat k < num_pieces info_dict \<longrightarrow> count_list msgs (FoundGoodPiece h k) =
         (if \<not> whole info_dict C1 k \<and> whole info_dict (\<lambda>k. C1 k \<union> blocks_cover bs k) k then 1 else 0)"
    by auto
  have all: "(\<lambda>j. C1 j \<union> blocks_cover bs j) = (\<lambda>j. C j \<union> blocks_cover (b # bs) j)"
    by (auto simp: C1_def blocks_cover_simps k_def m_def fun_eq_iff)
  have "count_list (new @ msgs) (FoundGoodPiece h j) =
      (if \<not> whole info_dict C j \<and> whole info_dict (\<lambda>k. C k \<union> blocks_cover (b # bs) k) j then 1 else 0)"
    if j: "unat j < num_pieces info_dict" for j
  proof -
    have "C1 k \<union> blocks_cover bs k \<subseteq> {0..<piece_size info_dict (unat k)}"
      using out(6) b(1) by (auto simp: progress_def carries_def Let_def k_def m_def)
    then have "whole info_dict (\<lambda>j. C1 j \<union> blocks_cover bs j) k" if "whole info_dict C1 k"
      using that by (auto simp: whole_def)
    moreover have "whole info_dict C1 j = whole info_dict C j" if "j \<noteq> k" using that by (simp add: whole_def C1_def)
    ultimately show ?thesis
      using out(10) j fr(1,5) unfolding all [symmetric] by (cases "j = k") (auto simp: new_def)
  qed
  then show ?case
    using run step1 out s1 by (intro exI [of _ cx'] exI [of _ st'] exI [of _ "new @ msgs"]) (auto simp: all cx1_def new_def)
qed

end


section \<open>Writing and reading with faults\<close>

text \<open>
  C14. Writing a block when calls of the file system may fail or write less than they were asked to:
  whatever happens, files that do not belong to the torrent keep their bytes, the files of
  the torrent keep their lengths, and a byte of them is what it was, or it is a byte of the
  block at its place. A write that reports success has written the whole block, as far as it
  lies in the torrent.
\<close>

theorem write_block_contained:
  assumes "file_system fs key content handle ok calm usable" "ok s" "torrent_sized key info_dict (content s)"
    and "distinct (torrent_keys key info_dict)" "bm_block_length m \<le> length data"
    and "write_piece fs info_dict m (data, s) = (r, data', s')"
  shows "ok s' \<and> (\<forall>k. k \<notin> set (torrent_keys key info_dict) \<longrightarrow> content s' k = content s k) \<and>
    torrent_sized key info_dict (content s') \<and>
    (\<forall>i < info_size info_dict.
       torrent_data key info_dict (content s') ! i = torrent_data key info_dict (content s) ! i \<or>
       (block_start info_dict m \<le> i \<and> i < block_start info_dict m + bm_block_length m \<and>
        torrent_data key info_dict (content s') ! i = data ! (i - block_start info_dict m))) \<and>
    (r = Ok () \<longrightarrow> torrent_data key info_dict (content s') =
       overwrite (torrent_data key info_dict (content s)) (block_start info_dict m) (take (bm_block_length m) data))"
  using file_system.write_piece_outcome [OF assms] assms(5) length_torrent_data [OF assms(3)]
  by (auto simp: partly_overwritten_def)

text \<open>
  C19. Reading a block never changes a file, and a read that reports success has filled the front of
  the buffer with the bytes of the torrent from the start of the block on. Without faults
  the read succeeds. The part of the buffer that belongs to bytes behind the end of the
  torrent is not touched, although the read reports success.
\<close>

theorem read_block_correct:
  assumes "file_system fs key content handle ok calm usable" "ok s" "torrent_sized key info_dict (content s)"
    and "bm_block_length m \<le> length buf" "read_piece fs info_dict m (buf, s) = (r, buf', s')"
  shows "ok s' \<and> content s' = content s \<and> length buf' = length buf \<and>
    (r = Ok () \<longrightarrow> buf' = overwrite buf 0
       (take (bm_block_length m) (drop (block_start info_dict m) (torrent_data key info_dict (content s))))) \<and>
    (calm s \<longrightarrow> (\<forall>f \<in> set (inf_files info_dict). usable (build_path (inf_dir info_dict) f)) \<longrightarrow> r = Ok ())"
  using file_system.run_files_read [OF assms(1,2) assms(3) [unfolded torrent_sized_def] assms(4) le0
      assms(5) [unfolded read_piece_def run_with_file_regions_def]]
  by (auto simp: torrent_data_def torrent_keys_def partly_overwritten_def)

section \<open>A small torrent\<close>

text \<open>One file of three bytes in two pieces, on the native file system.\<close>

abbreviation demo_fs :: "(bytes list Os, nat, IoError) FileSystem" where
  "demo_fs \<equiv> native_fs (\<lambda>p. p) \<lparr>nf_current_dir = [47]\<rparr>"

abbreviation demo_key :: "path \<Rightarrow> bytes list" where
  "demo_key \<equiv> native_key (\<lambda>p. p) \<lparr>nf_current_dir = [47]\<rparr>"

definition demo_info :: Info where
  "demo_info = \<lparr>inf_hash = replicate 20 1, inf_files = [\<lparr>fl_len = 3, fl_path = [97], fl_md5sum = None\<rparr>],
     inf_pieces = [replicate 20 2, replicate 20 1], inf_piece_len = 2, inf_private = None, inf_dir = None\<rparr>"

definition demo_os :: "bytes list Os" where
  "demo_os = \<lparr>os_files = [[[47], [97]] \<mapsto> [0, 0, 0]], os_open = Map.empty, os_next = 0, os_fates = (\<lambda>_. Works), os_calls = 0\<rparr>"

definition demo_order :: "(u64 \<rightharpoonup> BlockMetadata list) \<Rightarrow> u64 list" where
  "demo_order m = sorted_list_of_set (dom m)"

definition demo_state :: MetainfoState where
  "demo_state = \<lparr>ms_file = Metainfo_from_info demo_info, ms_state = PieceCheckerState_new 2 1, ms_poisoned = False\<rparr>"

definition demo_context :: "(bytes list Os, IoError) DiskManagerContext" where
  "demo_context = \<lparr>cx_torrents = [replicate 20 1 \<mapsto> demo_state], cx_out = [], cx_fs = demo_os\<rparr>"

definition demo_block :: "u64 \<Rightarrow> u64 \<Rightarrow> bytes \<Rightarrow> Block" where
  "demo_block k off data = \<lparr>bl_metadata = \<lparr>bm_info_hash = replicate 20 1, bm_piece_index = k,
     bm_block_offset = off, bm_block_length = length data\<rparr>, bl_data = data\<rparr>"

lemma demo_path: "demo_key [97] = [[47], [97]]" "native_usable \<lparr>nf_current_dir = [47]\<rparr> [97]"
  by (simp_all add: native_key_def native_usable_def combine_user_path_def path_absolute_def path_iter_def
      SEP_def CUR_DIR_def path_push_def path_has_parent_def)

lemma demo_order_hash: "hash_order demo_order"
  by (simp add: hash_order_def demo_order_def)

lemma demo_size: "info_size demo_info = 3" "num_pieces demo_info = 2" "piece_size demo_info 0 = 2" "piece_size demo_info (Suc 0) = 1"
  by (simp_all add: info_size_def num_pieces_def piece_size_def demo_info_def torrent_size_def)

lemma demo_wf: "torrent_wf demo_info"
  using demo_size by (simp add: torrent_wf_def) (simp add: demo_info_def sha_ok_def SHA_HASH_LEN_def)

lemma demo_files: "torrent_keys demo_key demo_info = [[[47], [97]]]"
  "torrent_sized demo_key demo_info (os_files demo_os)" "torrent_data demo_key demo_info (os_files demo_os) = [0, 0, 0]"
  by (simp_all add: torrent_keys_def torrent_sized_def sized_def torrent_data_def demo_info_def build_path_def demo_path
      demo_os_def flat_def)

lemma demo_os_ok: "os_ok demo_os" "os_calm demo_os"
  by (simp_all add: demo_os_def os_ok_def os_calm_def)

lemma demo_cover: "pending_of (PieceCheckerState_new n l) k = []" "cover (PieceCheckerState_new n l) k = {}"
  by (simp_all add: cover_def pending_of_def PieceCheckerState_new_def)

lemma demo_live: "torrent_live demo_key (native_usable \<lparr>nf_current_dir = [47]\<rparr>) (os_files demo_os) (replicate 20 1) demo_state"
proof -
  have "settled demo_info (PieceCheckerState_new 2 1)"
    using piece_size_pos [OF demo_wf] by (auto simp: settled_def ready_def demo_cover) (simp add: PieceCheckerState_new_def)
  moreover have "checker_ok h demo_info (PieceCheckerState_new 2 1)" for h
    by (simp add: checker_ok_def demo_cover demo_size disjoint_blocks_def)
      (simp add: PieceCheckerState_new_def demo_info_def)
  ultimately show ?thesis
    using demo_wf demo_files by (simp add: torrent_live_def Let_def demo_state_def Metainfo_from_info_def)
      (simp add: demo_info_def build_path_def demo_path)
qed

lemma demo_good: "piece_good toy_digest demo_info [7, 8, 9] 0" "piece_good toy_digest demo_info [7, 8, 9] (Suc 0)"
  by (simp_all add: piece_good_def piece_bytes_def demo_info_def toy_digest_def ShaHash_from_bytes_def ShaHashBuilder_build_def
      ShaHashBuilder_add_bytes_def ShaHashBuilder_new_def)

lemma demo_start: "block_start demo_info (bl_metadata (demo_block k off data)) = unat (k * 2 + off)"
  by (simp add: block_start_def demo_block_def demo_info_def)

lemma demo_block_in: "block_in (replicate 20 1) k n (bl_metadata (demo_block k off data)) \<longleftrightarrow> data \<noteq> [] \<and> unat off + length data \<le> n"
  by (simp add: block_in_def demo_block_def block_hi_def block_lo_def)

lemma demo_block_simps: "bm_piece_index (bl_metadata (demo_block k off data)) = k" "bl_data (demo_block k off data) = data"
  "bm_block_length (bl_metadata (demo_block k off data)) = length data"
  "block_range (bl_metadata (demo_block k off data)) = {unat off..<unat off + length data}"
  by (simp_all add: demo_block_def block_range_def block_hi_def block_lo_def)

lemma demo_state_simps: "mi_info (ms_file demo_state) = demo_info" "cx_fs demo_context = demo_os"
  "cx_torrents demo_context (replicate 20 1) = Some demo_state" "cx_out demo_context = []"
  "ms_state demo_state = PieceCheckerState_new 2 1"
  by (simp_all add: demo_state_def demo_context_def Metainfo_from_info_def)

lemmas demo_simps = demo_start demo_block_in demo_block_simps demo_state_simps demo_size demo_files demo_cover

theorem process_block_correct_witness:
  "\<exists>st' s'. execute_on_pool toy_digest demo_order demo_fs (ProcessBlock (demo_block 1 0 [9])) demo_context =
     (Ok (), demo_context\<lparr>cx_fs := s', cx_torrents := [replicate 20 1 \<mapsto> st'],
       cx_out := [FoundGoodPiece (replicate 20 1) 1, BlockProcessed (demo_block 1 0 [9])]\<rparr>) \<and>
     torrent_data demo_key demo_info (os_files s') = [0, 0, 9]"
proof -
  define b where "b = demo_block 1 0 [9]"
  have fresh: "fresh_block (replicate 20 1) demo_info (PieceCheckerState_new 2 1) (bl_metadata b)"
    by (simp add: fresh_block_def b_def demo_simps)
  have comp: "completes demo_info (PieceCheckerState_new 2 1) (bl_metadata b)"
    by (simp add: completes_def b_def demo_simps) (simp add: PieceCheckerState_new_def)
  have xs: "overwrite [0, 0, 0] (block_start demo_info (bl_metadata b)) (take (bm_block_length (bl_metadata b)) (bl_data b)) = [0, 0, 9]"
    by (simp add: b_def demo_simps overwrite_def)
  have "piece_good toy_digest demo_info [0, 0, 9] (Suc 0)"
    using demo_good(2) by (simp add: piece_good_def piece_bytes_def demo_info_def)
  then have v: "found_message h (verdict toy_digest demo_info [0, 0, 9] (bm_piece_index (bl_metadata b))) = FoundGoodPiece h 1" for h
    by (simp add: found_message_def verdict_def b_def demo_simps)
  have c: "(cx_torrents demo_context)(replicate 20 1 \<mapsto> st) = [replicate 20 1 \<mapsto> st]" for st
    by (simp add: demo_context_def)
  have pre: "os_ok (cx_fs demo_context)" "os_calm (cx_fs demo_context)"
    "torrent_live demo_key (native_usable \<lparr>nf_current_dir = [47]\<rparr>) (os_files (cx_fs demo_context)) (replicate 20 1) demo_state"
    "fresh_block (replicate 20 1) (mi_info (ms_file demo_state)) (ms_state demo_state) (bl_metadata b)"
    "bm_block_length (bl_metadata b) \<le> length (bl_data b)"
    using demo_os_ok demo_live fresh by (simp_all only: demo_state_simps) (simp add: b_def demo_simps)
  note th = process_block_correct [OF native.file_system_axioms demo_order_hash pre(1,2) demo_state_simps(3) pre(3-5),
      of toy_digest, unfolded demo_state_simps demo_files xs v c if_P [OF comp]]
  then show ?thesis unfolding b_def by (elim exE conjE) (intro exI conjI, simp_all only: append.simps)
qed


theorem add_torrent_correct_witness:
  "\<exists>ks s' st. execute_on_pool toy_digest demo_order demo_fs (AddTorrent (Metainfo_from_info demo_info)) (DiskManagerContext_new demo_os) =
     (Ok (), (DiskManagerContext_new demo_os)\<lparr>cx_fs := s', cx_torrents := [replicate 20 1 \<mapsto> st],
       cx_out := map (FoundGoodPiece (replicate 20 1)) ks @ [TorrentAdded (replicate 20 1)]\<rparr>) \<and>
     distinct ks \<and> torrent_data demo_key demo_info (os_files s') = [0, 0, 0]"
proof -
  define metainfo where "metainfo = Metainfo_from_info demo_info"
  have info: "mi_info metainfo = demo_info" "inf_hash demo_info = replicate 20 1"
    by (simp_all add: metainfo_def Metainfo_from_info_def demo_info_def)
  have cx: "cx_fs (DiskManagerContext_new demo_os) = demo_os" "cx_torrents (DiskManagerContext_new demo_os) = Map.empty"
    "cx_out (DiskManagerContext_new demo_os) = []" by (simp_all add: DiskManagerContext_new_def)
  have found: "found (os_files demo_os) (demo_key [97]) = [0, 0, 0]" by (simp add: found_def demo_path demo_os_def)
  then have files: "\<forall>f \<in> set (inf_files demo_info). native_usable \<lparr>nf_current_dir = [47]\<rparr> (build_path (inf_dir demo_info) f)"
    "\<forall>f \<in> set (inf_files demo_info). length (found (os_files demo_os) (demo_key (build_path (inf_dir demo_info) f))) < 2 ^ 64"
    "\<forall>f \<in> set (inf_files demo_info). fits demo_key (inf_dir demo_info) (os_files demo_os) f"
    "concat (map (prepared demo_key (inf_dir demo_info) (os_files demo_os)) (inf_files demo_info)) = [0, 0, 0]"
    "distinct (torrent_keys demo_key demo_info)"
    by (simp_all add: fits_def prepared_def demo_info_def build_path_def demo_path demo_files)
      (simp add: torrent_keys_def build_path_def)
  show ?thesis
    using add_torrent_correct [OF native.file_system_axioms [where real = "\<lambda>p. p" and self = "\<lparr>nf_current_dir = [47]\<rparr>"],
        of metainfo demo_order "DiskManagerContext_new demo_os" toy_digest, unfolded info cx append.simps, OF demo_wf demo_order_hash demo_os_ok files(1,5,2,3) refl,
        unfolded files(4)]
    unfolding metainfo_def by (elim exE conjE) (intro exI conjI, assumption+)
qed

theorem write_block_contained_witness:
  "torrent_sized demo_key demo_info
     (os_files (snd (snd (write_piece demo_fs demo_info (bl_metadata (demo_block 0 1 [8, 9])) ([8, 9], demo_os)))))"
proof -
  define w where "w = write_piece demo_fs demo_info (bl_metadata (demo_block 0 1 [8, 9])) ([8, 9], demo_os)"
  have len: "bm_block_length (bl_metadata (demo_block 0 1 [8, 9])) \<le> length [8, 9 :: u8]" by (simp add: demo_block_simps)
  have d: "distinct (torrent_keys demo_key demo_info)" by (simp add: demo_files)
  have "write_piece demo_fs demo_info (bl_metadata (demo_block 0 1 [8, 9])) ([8, 9], demo_os) = (fst w, fst (snd w), snd (snd w))"
    by (simp add: w_def)
  from write_block_contained [OF native.file_system_axioms demo_os_ok(1) demo_files(2) d len this]
  show ?thesis by (simp add: w_def)
qed

theorem read_block_correct_witness:
  "fst (snd (read_piece demo_fs demo_info (bl_metadata (demo_block 1 0 [5, 6])) ([5, 6], demo_os))) = [0, 6]"
proof -
  define w where "w = read_piece demo_fs demo_info (bl_metadata (demo_block 1 0 [5, 6])) ([5, 6], demo_os)"
  have len: "bm_block_length (bl_metadata (demo_block 1 0 [5, 6])) \<le> length [5, 6 :: u8]" by (simp add: demo_block_simps)
  have u: "\<forall>f \<in> set (inf_files demo_info). native_usable \<lparr>nf_current_dir = [47]\<rparr> (build_path (inf_dir demo_info) f)"
    by (simp add: demo_info_def build_path_def demo_path)
  have "read_piece demo_fs demo_info (bl_metadata (demo_block 1 0 [5, 6])) ([5, 6], demo_os) = (fst w, fst (snd w), snd (snd w))"
    by (simp add: w_def)
  from read_block_correct [OF native.file_system_axioms demo_os_ok(1) demo_files(2) len this] u demo_os_ok(2)
  have "fst (snd w) = overwrite [5, 6] 0 (take 2 (drop 2 [0, 0, 0]))" by (simp add: demo_simps)
  then show ?thesis by (simp add: w_def overwrite_def)
qed

end
