(* ===== verification/Disk_Manager.thy ===== *)
theory Disk_Manager
  imports Disk_Download Split_Sender
begin

text \<open>
  The disk manager (\<open>disk/manager.rs\<close>, \<open>disk/builder.rs\<close>): clones of its sink that accept messages
  while a shared counter is below the capacity, the workers that run the tasks of
  \<open>Disk_Tasks\<close>, and the stream that hands out their messages, lowers the counter and wakes the
  sinks that wait. All of them are interleaved: a step is one atomic operation of one of them.
\<close>

section \<open>DiskManagerBuilder\<close>

definition DEFAULT_PENDING_SIZE :: u64 where
  "DEFAULT_PENDING_SIZE = 10"

definition DEFAULT_COMPLETED_SIZE :: u64 where
  "DEFAULT_COMPLETED_SIZE = 10"

record 'b DiskManagerBuilder =
  db_builder :: 'b
  pending_size :: u64
  completed_size :: u64

text \<open>\<open>pool_builder\<close> is what \<open>Builder::new\<close> of the thread pool returns.\<close>

definition DiskManagerBuilder_new :: "'b \<Rightarrow> 'b DiskManagerBuilder" where
  "DiskManagerBuilder_new pool_builder =
     \<lparr>db_builder = pool_builder, pending_size = DEFAULT_PENDING_SIZE, completed_size = DEFAULT_COMPLETED_SIZE\<rparr>"

definition with_worker_config :: "'b DiskManagerBuilder \<Rightarrow> 'b \<Rightarrow> 'b DiskManagerBuilder" where
  "with_worker_config self config = self\<lparr>db_builder := config\<rparr>"

definition with_sink_buffer_capacity :: "'b DiskManagerBuilder \<Rightarrow> u64 \<Rightarrow> 'b DiskManagerBuilder" where
  "with_sink_buffer_capacity self n = self\<lparr>pending_size := n\<rparr>"

definition with_stream_buffer_capacity :: "'b DiskManagerBuilder \<Rightarrow> u64 \<Rightarrow> 'b DiskManagerBuilder" where
  "with_stream_buffer_capacity self n = self\<lparr>completed_size := n\<rparr>"

section \<open>Sinks, workers and the stream\<close>

text \<open>
  Where a sink is in \<open>start_send\<close>, with the message it was given: outside; behind the \<open>fetch_add\<close>
  of \<open>try_submit_work\<close> that was below the capacity; behind one that was not (the flag tells
  the first attempt from the second), before its \<open>fetch_sub\<close>; before the \<open>push\<close> to the queue of
  tasks; before the second attempt.
\<close>

datatype sink_pc =
    SinkIdle
  | SinkPassed IDiskMessage
  | SinkUndo bool IDiskMessage
  | SinkQueue IDiskMessage
  | SinkRetry IDiskMessage

text \<open>
  The state of a manager: the counter, the sinks, the messages the pool has not worked on, the
  context of the tasks (its \<open>cx_out\<close> are the messages the stream has not received), the queue
  of tasks (a task is the number of its sink), and whether the stream is in the loop that
  empties that queue. The other fields record what happened: the sinks whose last
  \<open>start_send\<close> returned \<open>NotReady\<close>, those that were notified since their last call, and the
  number of accepted messages whose task failed or panicked.
\<close>

record ('s, 'io) manager =
  mg_count :: u64
  mg_sinks :: "sink_pc list"
  mg_pool :: "IDiskMessage list"
  mg_context :: "('s, 'io) DiskManagerContext"
  mg_queue :: "nat list"
  mg_notifying :: bool
  mg_parked :: "nat set"
  mg_notified :: "nat set"
  mg_lost :: nat

text \<open>\<open>from_builder\<close> with \<open>sinks\<close> clones of the sink, and the capacity they share.\<close>

definition from_builder :: "'b DiskManagerBuilder \<Rightarrow> ('s, 'io) DiskManagerContext \<Rightarrow> nat \<Rightarrow> u64 \<times> ('s, 'io) manager" where
  "from_builder builder context sinks =
     (pending_size builder,
      \<lparr>mg_count = 0, mg_sinks = replicate sinks SinkIdle, mg_pool = [], mg_context = context, mg_queue = [],
       mg_notifying = False, mg_parked = {}, mg_notified = {}, mg_lost = 0\<rparr>)"

text \<open>The messages for which \<open>poll\<close> calls \<open>complete_work\<close>.\<close>

fun completes_work :: "'io ODiskMessage \<Rightarrow> bool" where
  "completes_work (TorrentAdded _) = True"
| "completes_work (TorrentRemoved _) = True"
| "completes_work (TorrentSynced _) = True"
| "completes_work (BlockLoaded _) = True"
| "completes_work (BlockProcessed _) = True"
| "completes_work _ = False"

definition set_sink :: "nat \<Rightarrow> sink_pc \<Rightarrow> ('s, 'io) manager \<Rightarrow> ('s, 'io) manager" where
  "set_sink i pc s = s\<lparr>mg_sinks := (mg_sinks s)[i := pc]\<rparr>"

text \<open>The \<open>fetch_add\<close> of \<open>try_submit_work\<close> and the comparison behind it.\<close>

definition try_submit_work :: "u64 \<Rightarrow> nat \<Rightarrow> bool \<Rightarrow> IDiskMessage \<Rightarrow> ('s, 'io) manager \<Rightarrow> ('s, 'io) manager" where
  "try_submit_work max_capacity i first_try item s =
     (let cur_capacity = mg_count s
      in set_sink i (if cur_capacity < max_capacity then SinkPassed item else SinkUndo first_try item)
           (s\<lparr>mg_count := mg_count s + 1\<rparr>))"

definition complete_work :: "('s, 'io) manager \<Rightarrow> ('s, 'io) manager" where
  "complete_work s = s\<lparr>mg_count := mg_count s - 1\<rparr>"

text \<open>A worker finishes a message: \<open>r\<close> tells whether its task panicked.\<close>

definition finish_task :: "nat \<Rightarrow> (unit, unit) res \<Rightarrow> ('s, 'io) DiskManagerContext \<Rightarrow> ('s, 'io) manager \<Rightarrow> ('s, 'io) manager" where
  "finish_task j r context s =
     s\<lparr>mg_pool := take j (mg_pool s) @ drop (Suc j) (mg_pool s), mg_context := context,
       mg_lost := mg_lost s + (if r = Ok () \<and> completes_work (last (cx_out context)) then 0 else 1)\<rparr>"

definition receive :: "'io ODiskMessage \<Rightarrow> 'io ODiskMessage list \<Rightarrow> ('s, 'io) manager \<Rightarrow> ('s, 'io) manager" where
  "receive msg msgs s =
     (let s = s\<lparr>mg_context := (mg_context s)\<lparr>cx_out := msgs\<rparr>\<rparr>
      in if completes_work msg then (complete_work s)\<lparr>mg_notifying := True\<rparr> else s)"

inductive manager_step ::
  "'d Sha1 \<Rightarrow> ((u64 \<rightharpoonup> BlockMetadata list) \<Rightarrow> u64 list) \<Rightarrow> ('s, 'f, 'io) FileSystem \<Rightarrow> u64 \<Rightarrow>
     ('s, 'io) manager \<Rightarrow> ('s, 'io) manager \<Rightarrow> bool"
  for D order fs max_capacity where
  first_attempt: "i < length (mg_sinks s) \<Longrightarrow> mg_sinks s ! i = SinkIdle \<Longrightarrow>
    manager_step D order fs max_capacity s
      (try_submit_work max_capacity i True item
        (s\<lparr>mg_parked := mg_parked s - {i}, mg_notified := mg_notified s - {i}\<rparr>))"
| undo_first: "i < length (mg_sinks s) \<Longrightarrow> mg_sinks s ! i = SinkUndo True item \<Longrightarrow>
    manager_step D order fs max_capacity s (set_sink i (SinkQueue item) (complete_work s))"
| push_task: "i < length (mg_sinks s) \<Longrightarrow> mg_sinks s ! i = SinkQueue item \<Longrightarrow>
    manager_step D order fs max_capacity s (set_sink i (SinkRetry item) (s\<lparr>mg_queue := mg_queue s @ [i]\<rparr>))"
| second_attempt: "i < length (mg_sinks s) \<Longrightarrow> mg_sinks s ! i = SinkRetry item \<Longrightarrow>
    manager_step D order fs max_capacity s (try_submit_work max_capacity i False item s)"
| undo_second: "i < length (mg_sinks s) \<Longrightarrow> mg_sinks s ! i = SinkUndo False item \<Longrightarrow>
    manager_step D order fs max_capacity s
      (set_sink i SinkIdle ((complete_work s)\<lparr>mg_parked := insert i (mg_parked s)\<rparr>))"
| spawn: "i < length (mg_sinks s) \<Longrightarrow> mg_sinks s ! i = SinkPassed item \<Longrightarrow>
    manager_step D order fs max_capacity s (set_sink i SinkIdle (s\<lparr>mg_pool := mg_pool s @ [item]\<rparr>))"
| work: "j < length (mg_pool s) \<Longrightarrow> execute_on_pool D order fs (mg_pool s ! j) (mg_context s) = (r, context) \<Longrightarrow>
    manager_step D order fs max_capacity s (finish_task j r context s)"
| poll: "\<not> mg_notifying s \<Longrightarrow> cx_out (mg_context s) = msg # msgs \<Longrightarrow>
    manager_step D order fs max_capacity s (receive msg msgs s)"
| notify: "mg_notifying s \<Longrightarrow> mg_queue s = i # queue \<Longrightarrow>
    manager_step D order fs max_capacity s (s\<lparr>mg_queue := queue, mg_notified := insert i (mg_notified s)\<rparr>)"
| poll_end: "mg_notifying s \<Longrightarrow> mg_queue s = [] \<Longrightarrow>
    manager_step D order fs max_capacity s (s\<lparr>mg_notifying := False\<rparr>)"

inductive_cases manager_stepE: "manager_step D order fs max_capacity s s'"

section \<open>The messages of a task\<close>

text \<open>A task sends messages about pieces and then, unless it panics, one message of its own.\<close>

definition only_pieces :: "('s, 'io) DiskManagerContext \<Rightarrow> ('s, 'io) DiskManagerContext \<Rightarrow> bool" where
  "only_pieces cx cx' \<longleftrightarrow> (\<exists>ms. cx_out cx' = cx_out cx @ ms \<and> (\<forall>m \<in> set ms. \<not> completes_work m))"

lemma only_pieces_same: "cx_out cx' = cx_out cx \<Longrightarrow> only_pieces cx cx'"
  by (simp add: only_pieces_def)

lemma piece_message_frees_not: "m \<in> set (piece_message h b p) \<Longrightarrow> \<not> completes_work m"
  by (cases p) (auto split: if_splits)

lemma send_piece_diff_only: "send_piece_diff st h b (cx\<lparr>cx_fs := s\<rparr>) = (st', cx') \<Longrightarrow> only_pieces cx cx'"
  by (auto simp: send_piece_diff_def send_out_def only_pieces_def dest: piece_message_frees_not split: prod.splits)

lemma only_pieces_torrents: "only_pieces cx cx' \<Longrightarrow> only_pieces cx (cx'\<lparr>cx_torrents := t\<rparr>)"
  by (simp add: only_pieces_def)

lemma add_torrent_only: "execute_add_torrent D order fs m cx = (r, cx') \<Longrightarrow> only_pieces cx cx'"
  by (auto simp: execute_add_torrent_def act_try_def insert_torrent_def Let_def only_pieces_same
      split: prod.splits res.splits dest!: send_piece_diff_only intro: only_pieces_torrents)

lemma update_torrent_only:
  assumes "update_torrent h call cx = (r, cx')" "\<And>m st. only_pieces cx (snd (snd (call m st cx)))"
  shows "only_pieces cx cx'"
proof (cases "cx_torrents cx h")
  case (Some st)
  obtain a b c where call: "call (ms_file st) (ms_state st) cx = (a, b, c)" by (metis prod_cases3)
  show ?thesis
    using assms(1) assms(2) [of "ms_file st" "ms_state st"] Some call
    by (auto simp: update_torrent_def only_pieces_def split: if_splits)
qed (use assms in \<open>simp add: update_torrent_def only_pieces_same\<close>)

lemma process_block_only: "execute_process_block D order fs b cx = (r, cx') \<Longrightarrow> only_pieces cx cx'"
proof -
  have "only_pieces cx (snd (snd (process_in_torrent D order fs b m st cx)))" for m st
    by (auto simp: process_in_torrent_def Let_def only_pieces_same split: prod.splits res.splits
        intro: send_piece_diff_only [OF prod.collapse [symmetric]])
  then show "execute_process_block D order fs b cx = (r, cx') \<Longrightarrow> only_pieces cx cx'"
    by (auto simp: execute_process_block_def Let_def split: prod.splits option.splits dest!: update_torrent_only)
qed

lemma sync_torrent_only: "execute_sync_torrent fs h cx = (r, cx') \<Longrightarrow> only_pieces cx cx'"
  by (auto simp: execute_sync_torrent_def split: prod.splits option.splits dest!: update_torrent_only)
    (auto simp: only_pieces_same split: prod.splits)

lemma load_block_only: "execute_load_block fs b cx = (r, b', cx') \<Longrightarrow> only_pieces cx cx'"
  by (auto simp: execute_load_block_def Let_def only_pieces_same split: prod.splits option.splits if_splits)

lemma remove_torrent_only: "execute_remove_torrent h cx = (r, cx') \<Longrightarrow> only_pieces cx cx'"
  by (auto simp: execute_remove_torrent_def remove_torrent_def only_pieces_same)

text \<open>The messages of \<open>cx_out\<close> that free capacity.\<close>

definition freeing :: "('s, 'io) DiskManagerContext \<Rightarrow> nat" where
  "freeing cx = length (filter completes_work (cx_out cx))"

lemma only_pieces_freeing: "only_pieces cx cx' \<Longrightarrow> freeing cx' = freeing cx"
  by (auto simp: only_pieces_def freeing_def)

lemma answer_freeing:
  assumes "answer good bad (r0, cx0) = (r, cx')" "only_pieces cx cx0"
  shows "freeing cx' = freeing cx + (if r = Ok () \<and> completes_work (last (cx_out cx')) then 1 else 0)"
  using assms only_pieces_freeing [OF assms(2)]
  by (auto simp: answer_def send_out_def freeing_def split: res.splits)

lemma execute_on_pool_freeing:
  assumes "execute_on_pool D order fs msg cx = (r, cx')"
  shows "freeing cx' = freeing cx + (if r = Ok () \<and> completes_work (last (cx_out cx')) then 1 else 0)"
proof (cases msg)
  case (AddTorrent m)
  then show ?thesis using assms add_torrent_only [of D order fs m cx]
    by (cases "execute_add_torrent D order fs m cx") (auto simp: Let_def intro: answer_freeing split del: if_split)
next
  case (RemoveTorrent h)
  then show ?thesis using assms remove_torrent_only [of h cx]
    by (cases "execute_remove_torrent h cx") (auto intro: answer_freeing split del: if_split)
next
  case (SyncTorrent h)
  then show ?thesis using assms sync_torrent_only [of fs h cx]
    by (cases "execute_sync_torrent fs h cx") (auto intro: answer_freeing split del: if_split)
next
  case (LoadBlock b)
  then show ?thesis using assms load_block_only [of fs b cx]
    by (cases "execute_load_block fs b cx") (auto intro: answer_freeing split del: if_split)
next
  case (ProcessBlock b)
  then show ?thesis using assms process_block_only [of D order fs b cx]
    by (cases "execute_process_block D order fs b cx") (auto intro: answer_freeing split del: if_split)
qed

section \<open>The manager as a split sender\<close>

text \<open>
  The counter of a manager is used like that of a split sender: accepting a message is
  sending it, and the receipt of a message that completes work acknowledges it. Messages
  whose task failed are never acknowledged.
\<close>

fun sink_abs :: "sink_pc \<Rightarrow> split_pc" where
  "sink_abs (SinkPassed _) = Passed"
| "sink_abs (SinkUndo _ _) = Failed"
| "sink_abs _ = Outside"

definition outstanding :: "('s, 'io) manager \<Rightarrow> nat" where
  "outstanding s = length (mg_pool s) + freeing (mg_context s) + mg_lost s"

definition manager_abs :: "('s, 'io) manager \<Rightarrow> split_state" where
  "manager_abs s = \<lparr>st_count = mg_count s, st_pcs = map sink_abs (mg_sinks s), st_unacked = outstanding s, st_refused = 0\<rparr>"

lemmas manager_defs = manager_abs_def outstanding_def set_sink_def try_submit_work_def complete_work_def
  finish_task_def receive_def

text \<open>A step of the manager is a step of the split sender or changes nothing there.\<close>

lemma manager_simulates:
  assumes "manager_step D order fs capacity s s'"
  shows "split_step capacity (manager_abs s) (manager_abs s') \<or> manager_abs s' = manager_abs s"
  using assms
proof cases
  case (first_attempt i item)
  then show ?thesis
    using split_step.fetch_add [of i "manager_abs s" capacity] by (simp add: manager_defs map_update Let_def split: if_splits)
next
  case (undo_first i item)
  then show ?thesis
    using split_step.fetch_sub [of i "manager_abs s" capacity] by (simp add: manager_defs map_update)
next
  case (push_task i item)
  then have "(map sink_abs (mg_sinks s))[i := Outside] = map sink_abs (mg_sinks s)"
    by (metis list_update_id nth_map sink_abs.simps(4))
  with push_task show ?thesis by (simp add: manager_defs map_update)
next
  case (second_attempt i item)
  then show ?thesis
    using split_step.fetch_add [of i "manager_abs s" capacity] by (simp add: manager_defs map_update Let_def split: if_splits)
next
  case (undo_second i item)
  then show ?thesis
    using split_step.fetch_sub [of i "manager_abs s" capacity] by (simp add: manager_defs map_update)
next
  case (spawn i item)
  then show ?thesis
    using split_step.send_ok [of i "manager_abs s" capacity] by (simp add: manager_defs map_update)
next
  case (work j r cx)
  then show ?thesis using execute_on_pool_freeing [OF work(3)] by (auto simp: manager_defs)
next
  case (poll msg msgs)
  then show ?thesis
    using split_step.ack [of "manager_abs s" capacity] by (auto simp: manager_defs freeing_def)
qed (simp_all add: manager_defs)

lemma manager_simulates_steps:
  "(manager_step D order fs capacity)\<^sup>*\<^sup>* s s' \<Longrightarrow> (split_step capacity)\<^sup>*\<^sup>* (manager_abs s) (manager_abs s')"
proof (induction rule: rtranclp_induct)
  case (step s' s'')
  then show ?case using manager_simulates [OF step(2)] by (metis rtranclp.rtrancl_into_rtrancl)
qed simp

lemma manager_abs_init:
  "cx_out context = [] \<Longrightarrow> manager_abs (snd (from_builder builder context n)) = split_init n"
  by (simp add: manager_abs_def from_builder_def split_init_def outstanding_def freeing_def)

text \<open>Sinks that are about to hand a message to the pool.\<close>

definition accepting :: "('s, 'io) manager \<Rightarrow> nat" where
  "accepting s = length (filter (\<lambda>pc. \<exists>item. pc = SinkPassed item) (mg_sinks s))"

lemma accepting_passed: "accepting s = count_list (map sink_abs (mg_sinks s)) Passed"
proof -
  have "length (filter (\<lambda>pc. \<exists>item. pc = SinkPassed item) pcs) = count_list (map sink_abs pcs) Passed" for pcs
  proof (induction pcs)
    case (Cons pc pcs)
    then show ?case by (cases pc) auto
  qed simp
  then show ?thesis by (simp add: accepting_def)
qed

lemma manager_inv:
  assumes "from_builder builder context n = (capacity, s0)" "cx_out context = []" "unat capacity + n < 2 ^ 64"
    "(manager_step D order fs capacity)\<^sup>*\<^sup>* s0 s"
  shows "split_inv capacity (manager_abs s)"
  using split_inv_steps [OF manager_simulates_steps [OF assms(4)]] manager_abs_init [OF assms(2), of builder n]
    split_inv_init [OF assms(3)] assms(1) by simp

lemma lost_steps: "(manager_step D order fs capacity)\<^sup>*\<^sup>* s s' \<Longrightarrow> mg_lost s \<le> mg_lost s'"
proof (induction rule: rtranclp_induct)
  case (step s' s'')
  from step(2) have "mg_lost s' \<le> mg_lost s''" by cases (auto simp: manager_defs Let_def)
  with step(3) show ?case by simp
qed simp

section \<open>Waking the sinks\<close>

text \<open>A sink that was told to wait, or will be when its second attempt fails.\<close>

definition waits :: "('s, 'io) manager \<Rightarrow> nat \<Rightarrow> bool" where
  "waits s i \<longleftrightarrow> i \<in> mg_parked s \<or> (\<exists>item. mg_sinks s ! i = SinkUndo False item)"

definition wake_inv :: "u64 \<Rightarrow> ('s, 'io) manager \<Rightarrow> bool" where
  "wake_inv capacity s \<longleftrightarrow>
     (\<forall>i < length (mg_sinks s). i \<in> mg_parked s \<longrightarrow> mg_sinks s ! i = SinkIdle) \<and>
     (\<forall>i < length (mg_sinks s). (waits s i \<or> (\<exists>item. mg_sinks s ! i = SinkRetry item)) \<and> i \<notin> mg_notified s \<longrightarrow>
        i \<in> set (mg_queue s)) \<and>
     (length (mg_sinks s) = 1 \<and> waits s 0 \<and> 0 \<notin> mg_notified s \<longrightarrow> mg_notifying s \<or> unat capacity \<le> outstanding s)"

lemmas wake_defs = wake_inv_def waits_def set_sink_def try_submit_work_def complete_work_def Let_def

lemma single_count:
  assumes "split_inv capacity (manager_abs s)" "length (mg_sinks s) = 1" "mg_sinks s ! 0 = SinkRetry item"
  shows "unat (mg_count s) = outstanding s"
  using assms by (cases "mg_sinks s") (auto simp: split_inv_def manager_abs_def passed_def failed_def)

lemma wake_inv_step:
  assumes "manager_step D order fs capacity s s'" "wake_inv capacity s" "split_inv capacity (manager_abs s)"
  shows "wake_inv capacity s'"
  using assms(1)
proof cases
  case (first_attempt i item)
  then show ?thesis using assms(2) by (auto simp: wake_defs nth_list_update outstanding_def)
next
  case (undo_first i item)
  then show ?thesis using assms(2) by (auto simp: wake_defs nth_list_update outstanding_def)
next
  case (push_task i item)
  then show ?thesis using assms(2) by (auto simp: wake_defs nth_list_update outstanding_def)
next
  case (second_attempt i item)
  then show ?thesis using assms(2) single_count [OF assms(3), of item]
    by (auto simp: wake_defs nth_list_update outstanding_def word_less_nat_alt)
next
  case (undo_second i item)
  then show ?thesis using assms(2) by (auto simp: wake_defs nth_list_update outstanding_def)
next
  case (spawn i item)
  then show ?thesis using assms(2) by (auto simp: wake_defs nth_list_update outstanding_def)
next
  case (work j r cx)
  then show ?thesis using assms(2) execute_on_pool_freeing [OF work(3)]
    by (auto simp: wake_defs finish_task_def outstanding_def)
next
  case (poll msg msgs)
  then show ?thesis using assms(2) by (auto simp: wake_defs receive_def outstanding_def freeing_def)
next
  case (notify i queue)
  then show ?thesis using assms(2) by (auto simp: wake_defs outstanding_def)
next
  case poll_end
  then show ?thesis using assms(2) by (auto simp: wake_defs outstanding_def)
qed

lemma sinks_length_steps:
  "(manager_step D order fs capacity)\<^sup>*\<^sup>* s s' \<Longrightarrow> length (mg_sinks s') = length (mg_sinks s)"
proof (induction rule: rtranclp_induct)
  case (step s' s'')
  from step(2) have "length (mg_sinks s'') = length (mg_sinks s')" by cases (auto simp: manager_defs Let_def)
  with step(3) show ?case by simp
qed simp

lemma wake_inv_steps:
  assumes "from_builder builder context n = (capacity, s0)" "cx_out context = []" "unat capacity + n < 2 ^ 64"
    "(manager_step D order fs capacity)\<^sup>*\<^sup>* s0 s"
  shows "wake_inv capacity s"
  using assms(4)
proof (induction rule: rtranclp_induct)
  case base
  then show ?case using assms(1) by (auto simp: from_builder_def wake_defs)
next
  case (step s s')
  from wake_inv_step [OF step(2,3) manager_inv [OF assms(1-3) step(1)]] show ?case .
qed

section \<open>A lost wake-up\<close>

text \<open>
  The transitions of two sinks with a capacity of one that end with both of them waiting: the
  second attempt of each fails because the other has raised the counter and not lowered it yet.
\<close>

abbreviation two_sinks ::
  "u64 \<Rightarrow> sink_pc \<Rightarrow> sink_pc \<Rightarrow> IDiskMessage list \<Rightarrow> ('s, 'io) DiskManagerContext \<Rightarrow> nat list \<Rightarrow> bool \<Rightarrow> nat set \<Rightarrow>
     ('s, 'io) manager" where
  "two_sinks count a b pool cx queue notifying parked \<equiv>
     \<lparr>mg_count = count, mg_sinks = [a, b], mg_pool = pool, mg_context = cx, mg_queue = queue,
      mg_notifying = notifying, mg_parked = parked, mg_notified = {}, mg_lost = 0\<rparr>"

definition no_torrents :: "(bytes list Os, IoError) DiskManagerContext" where
  "no_torrents = demo_context\<lparr>cx_torrents := Map.empty\<rparr>"

text \<open>One sink has a message removed and its answer received while it is in its next call.\<close>

lemma wakeup_prefix:
  fixes D order fs defines "step \<equiv> manager_step D order fs 1" and "m \<equiv> RemoveTorrent (replicate 20 1)"
  shows "step\<^sup>*\<^sup>* (two_sinks 0 SinkIdle SinkIdle [] demo_context [] False {})
    (two_sinks 1 (SinkUndo True m) SinkIdle [] no_torrents [] False {})"
proof -
  let ?cx = "no_torrents\<lparr>cx_out := [TorrentRemoved (replicate 20 1)]\<rparr>"
  have exec: "execute_on_pool D order fs m demo_context = (Ok (), ?cx)"
    by (simp add: m_def execute_remove_torrent_def remove_torrent_def answer_def send_out_def no_torrents_def demo_context_def)
  have "step (two_sinks 0 SinkIdle SinkIdle [] demo_context [] False {}) (two_sinks 1 (SinkPassed m) SinkIdle [] demo_context [] False {})"
    using manager_step.first_attempt [of 0 "two_sinks 0 SinkIdle SinkIdle [] demo_context [] False {}" D order fs 1 m]
    by (simp add: step_def manager_defs)
  moreover have "step (two_sinks 1 (SinkPassed m) SinkIdle [] demo_context [] False {}) (two_sinks 1 SinkIdle SinkIdle [m] demo_context [] False {})"
    using manager_step.spawn [of 0 "two_sinks 1 (SinkPassed m) SinkIdle [] demo_context [] False {}" m D order fs 1]
    by (simp add: step_def manager_defs)
  moreover have "step (two_sinks 1 SinkIdle SinkIdle [m] demo_context [] False {}) (two_sinks 1 SinkIdle SinkIdle [] ?cx [] False {})"
    using manager_step.work [of 0 "two_sinks 1 SinkIdle SinkIdle [m] demo_context [] False {}" D order fs "Ok ()" ?cx 1] exec
    by (simp add: step_def manager_defs)
  moreover have "step (two_sinks 1 SinkIdle SinkIdle [] ?cx [] False {}) (two_sinks 2 (SinkUndo True m) SinkIdle [] ?cx [] False {})"
    using manager_step.first_attempt [of 0 "two_sinks 1 SinkIdle SinkIdle [] ?cx [] False {}" D order fs 1 m]
    by (simp add: step_def manager_defs)
  moreover have "step (two_sinks 2 (SinkUndo True m) SinkIdle [] ?cx [] False {}) (two_sinks 1 (SinkUndo True m) SinkIdle [] no_torrents [] True {})"
    using manager_step.poll [of "two_sinks 2 (SinkUndo True m) SinkIdle [] ?cx [] False {}" "TorrentRemoved (replicate 20 1)" "[]" D order fs 1]
    by (simp add: step_def manager_defs no_torrents_def demo_context_def)
  moreover have "step (two_sinks 1 (SinkUndo True m) SinkIdle [] no_torrents [] True {}) (two_sinks 1 (SinkUndo True m) SinkIdle [] no_torrents [] False {})"
    using manager_step.poll_end [of "two_sinks 1 (SinkUndo True m) SinkIdle [] no_torrents [] True {}" D order fs 1]
    by (simp add: step_def)
  ultimately show ?thesis by (meson converse_rtranclp_into_rtranclp rtranclp.rtrancl_refl)
qed

text \<open>The other sink makes both attempts, then the first one makes its second.\<close>

lemma wakeup_suffix:
  fixes D order fs and cx :: "('s, 'io) DiskManagerContext" defines "step \<equiv> manager_step D order fs 1"
  shows "step\<^sup>*\<^sup>* (two_sinks 1 (SinkUndo True m) SinkIdle [] cx [] False {}) (two_sinks 0 SinkIdle SinkIdle [] cx [1, 0] False {0, 1})"
proof -
  note S = manager_step.intros(1-5) [where D = D and order = order and fs = fs and max_capacity = 1, folded step_def]
  have "step (two_sinks 1 (SinkUndo True m) SinkIdle [] cx [] False {}) (two_sinks 2 (SinkUndo True m) (SinkUndo True m) [] cx [] False {})"
    using S(1) [of 1 "two_sinks 1 (SinkUndo True m) SinkIdle [] cx [] False {}" m] by (simp add: manager_defs)
  moreover have "step (two_sinks 2 (SinkUndo True m) (SinkUndo True m) [] cx [] False {}) (two_sinks 1 (SinkUndo True m) (SinkQueue m) [] cx [] False {})"
    using S(2) [of 1 "two_sinks 2 (SinkUndo True m) (SinkUndo True m) [] cx [] False {}" m] by (simp add: manager_defs)
  moreover have "step (two_sinks 1 (SinkUndo True m) (SinkQueue m) [] cx [] False {}) (two_sinks 1 (SinkUndo True m) (SinkRetry m) [] cx [1] False {})"
    using S(3) [of 1 "two_sinks 1 (SinkUndo True m) (SinkQueue m) [] cx [] False {}" m] by (simp add: manager_defs)
  moreover have "step (two_sinks 1 (SinkUndo True m) (SinkRetry m) [] cx [1] False {}) (two_sinks 2 (SinkUndo True m) (SinkUndo False m) [] cx [1] False {})"
    using S(4) [of 1 "two_sinks 1 (SinkUndo True m) (SinkRetry m) [] cx [1] False {}" m] by (simp add: manager_defs)
  moreover have "step (two_sinks 2 (SinkUndo True m) (SinkUndo False m) [] cx [1] False {}) (two_sinks 1 (SinkQueue m) (SinkUndo False m) [] cx [1] False {})"
    using S(2) [of 0 "two_sinks 2 (SinkUndo True m) (SinkUndo False m) [] cx [1] False {}" m] by (simp add: manager_defs)
  moreover have "step (two_sinks 1 (SinkQueue m) (SinkUndo False m) [] cx [1] False {}) (two_sinks 1 (SinkRetry m) (SinkUndo False m) [] cx [1, 0] False {})"
    using S(3) [of 0 "two_sinks 1 (SinkQueue m) (SinkUndo False m) [] cx [1] False {}" m] by (simp add: manager_defs)
  moreover have "step (two_sinks 1 (SinkRetry m) (SinkUndo False m) [] cx [1, 0] False {}) (two_sinks 2 (SinkUndo False m) (SinkUndo False m) [] cx [1, 0] False {})"
    using S(4) [of 0 "two_sinks 1 (SinkRetry m) (SinkUndo False m) [] cx [1, 0] False {}" m] by (simp add: manager_defs)
  moreover have "step (two_sinks 2 (SinkUndo False m) (SinkUndo False m) [] cx [1, 0] False {}) (two_sinks 1 SinkIdle (SinkUndo False m) [] cx [1, 0] False {0})"
    using S(5) [of 0 "two_sinks 2 (SinkUndo False m) (SinkUndo False m) [] cx [1, 0] False {}" m] by (simp add: manager_defs)
  moreover have "step (two_sinks 1 SinkIdle (SinkUndo False m) [] cx [1, 0] False {0}) (two_sinks 0 SinkIdle SinkIdle [] cx [1, 0] False {0, 1})"
    using S(5) [of 1 "two_sinks 1 SinkIdle (SinkUndo False m) [] cx [1, 0] False {0}" m] by (simp add: manager_defs insert_commute)
  ultimately show ?thesis by (meson converse_rtranclp_into_rtranclp rtranclp.rtrancl_refl)
qed

lemma two_sinks_init:
  "from_builder (with_sink_buffer_capacity (DiskManagerBuilder_new ()) 1) demo_context 2 =
     (1, two_sinks 0 SinkIdle SinkIdle [] demo_context [] False {})"
  by (simp add: from_builder_def with_sink_buffer_capacity_def numeral_2_eq_2)

lemma demo_out: "cx_out demo_context = []"
  by (simp add: demo_context_def)

section \<open>Properties\<close>

text \<open>C8. 
  However the clones of the sink, the workers and the stream are interleaved, a disk manager
  never has more messages in work than the capacity of its builder: messages that are about to be
  spawned, that wait for or are with a worker, and whose completion the stream has not received. The
  steps on the counter are those of a split sender.
\<close>

theorem disk_manager_capacity:
  assumes "from_builder builder context n = (capacity, s0)" "cx_out context = []" "unat capacity + n < 2 ^ 64"
    "(manager_step D order fs capacity)\<^sup>*\<^sup>* s0 s"
  shows "accepting s + length (mg_pool s) + length (filter completes_work (cx_out (mg_context s))) + mg_lost s
      \<le> unat (pending_size builder) \<and>
    (split_step (pending_size builder))\<^sup>*\<^sup>* (split_init n) (manager_abs s)"
  using manager_inv [OF assms] manager_simulates_steps [OF assms(4)] manager_abs_init [OF assms(2), of builder n] assms(1)
  by (auto simp: split_inv_def manager_abs_def passed_def accepting_passed outstanding_def freeing_def from_builder_def)

theorem disk_manager_capacity_witness:
  "accepting (two_sinks 1 (SinkUndo True (RemoveTorrent (replicate 20 1))) SinkIdle [] no_torrents [] False {}) \<le>
     unat (pending_size (with_sink_buffer_capacity (DiskManagerBuilder_new ()) 1))"
  using disk_manager_capacity [OF two_sinks_init demo_out _ wakeup_prefix] by simp



text \<open>C23. 
  A sink that was told to wait and was not notified since has its task in the queue that the
  stream empties whenever it has completed work. Where the sink was not cloned, there also is
  something to wait for: the stream is emptying the queue, or all of the capacity is in use.
\<close>

theorem disk_sink_woken:
  assumes "from_builder builder context n = (capacity, s0)" "cx_out context = []" "unat capacity + n < 2 ^ 64"
    "(manager_step D order fs capacity)\<^sup>*\<^sup>* s0 s" "i < n" "i \<in> mg_parked s" "i \<notin> mg_notified s"
  shows "i \<in> set (mg_queue s) \<and> (n = 1 \<longrightarrow> mg_notifying s \<or> outstanding s = unat capacity)"
proof -
  have "length (mg_sinks s) = n" using sinks_length_steps [OF assms(4)] assms(1) by (auto simp: from_builder_def)
  moreover have "outstanding s \<le> unat capacity"
    using manager_inv [OF assms(1-4)] by (simp add: split_inv_def manager_abs_def)
  ultimately show ?thesis using wake_inv_steps [OF assms(1-4)] assms(5-7) by (auto simp: wake_inv_def waits_def)
qed

theorem disk_sink_woken_witness:
  "0 \<in> set (mg_queue (two_sinks 0 SinkIdle SinkIdle [] no_torrents [1, 0] False {0, 1}))"
  using disk_sink_woken [OF two_sinks_init demo_out _ rtranclp_trans [OF wakeup_prefix wakeup_suffix], of 0] by simp

text \<open>C37. 
  With two clones of the sink a wake-up can be lost: both are told to wait and not notified, while
  nothing is in work, nothing is to be received and the counter is 0. Only a sink
  that calls again without having been notified gets out of this state.
\<close>

theorem disk_sinks_lost_wakeup:
  "\<exists>s. (manager_step D order fs 1)\<^sup>*\<^sup>*
       (snd (from_builder (with_sink_buffer_capacity (DiskManagerBuilder_new pool) 1) demo_context 2)) s \<and>
     mg_parked s = {0, 1} \<and> mg_notified s = {} \<and> outstanding s = 0 \<and> mg_count s = 0 \<and>
     Collect (manager_step D order fs 1 s) \<subseteq> {s'. mg_parked s' \<noteq> {0, 1}}"
proof -
  let ?s = "two_sinks 0 SinkIdle SinkIdle [] no_torrents [1, 0] False {0, 1}"
  have "(manager_step D order fs 1)\<^sup>*\<^sup>* (two_sinks 0 SinkIdle SinkIdle [] demo_context [] False {}) ?s"
    using wakeup_prefix wakeup_suffix by (rule rtranclp_trans)
  moreover have out: "cx_out no_torrents = []" by (simp add: no_torrents_def demo_context_def)
  moreover have "mg_parked s' \<noteq> {0, 1}" if "manager_step D order fs 1 ?s s'" for s'
    using that
  proof cases
    case (first_attempt i item)
    then have "i = 0 \<or> i = 1" by auto
    then show ?thesis using first_attempt(1) by (auto simp: manager_defs)
  qed (auto simp: out nth_Cons split: nat.splits)
  ultimately show ?thesis
    by (intro exI [of _ ?s]) (auto simp: from_builder_def numeral_2_eq_2 outstanding_def freeing_def)
qed

end
