(* ===== verification/Dht_Worker.thy ===== *)
theory Dht_Worker
  imports Dht_Closest Dht_Transaction Dht_Compact
begin

text \<open>
  What the operations of the DHT worker share (\<open>bip_dht/src/worker/mod.rs\<close> and the requests of
  \<open>bip_dht/src/message\<close>): the channel to the thread that sends messages, the event loop of
  mio with its timers, the requests, and marking in the routing table that a node was asked.
\<close>

section \<open>Timers and the out channel\<close>

datatype ScheduledTask =
    CheckTableRefresh TransactionID
  | CheckBootstrapTimeout TransactionID
  | CheckLookupTimeout TransactionID
  | CheckLookupEndGame TransactionID

text \<open>
  The timers of \<open>mio::EventLoop\<close>, whose state is of a type \<open>'l\<close> and whose handles are of a
  type \<open>'t\<close>. Setting a timer fails where the loop has no room for another.
\<close>

record ('l, 't) EventLoop =
  timeout_ms :: "u64 \<times> ScheduledTask \<Rightarrow> u64 \<Rightarrow> 'l \<Rightarrow> 't option \<times> 'l"
  clear_timeout :: "'t \<Rightarrow> 'l \<Rightarrow> 'l"

text \<open>
  What the documentation of mio promises, for a function \<open>pending\<close> that tells the timers that
  are set: a new handle is not one of those, and clearing a timer leaves the others.
\<close>

definition timer_laws :: "('l, 't) EventLoop \<Rightarrow> ('l \<Rightarrow> 't \<rightharpoonup> ScheduledTask) \<Rightarrow> bool" where
  "timer_laws loop pending \<longleftrightarrow>
     (\<forall>x task delay l t l'. timeout_ms loop (x, task) delay l = (Some t, l') \<longrightarrow>
        pending l t = None \<and> pending l' = (pending l)(t \<mapsto> task)) \<and>
     (\<forall>x task delay l l'. timeout_ms loop (x, task) delay l = (None, l') \<longrightarrow> pending l' = pending l) \<and>
     (\<forall>t l. pending (clear_timeout loop t l) = (pending l)(t := None))"

text \<open>
  The channel to the sending thread: what was sent, and the number of messages after which
  that thread is gone, if it ever is. Then \<open>send\<close> fails.
\<close>

record OutChannel =
  oc_sent :: "(bytes \<times> SocketAddr) list"
  oc_closed :: "nat option"

definition out_send :: "bytes \<times> SocketAddr \<Rightarrow> OutChannel \<Rightarrow> bool \<times> OutChannel" where
  "out_send msg out =
     (if (case oc_closed out of Some n \<Rightarrow> n \<le> length (oc_sent out) | None \<Rightarrow> False) then (False, out)
      else (True, out\<lparr>oc_sent := oc_sent out @ [msg]\<rparr>))"

section \<open>Requests\<close>

text \<open>
  The values of the published bencode crate, of a type \<open>'v\<close>: the macros that build them, and
  their encoding.
\<close>

record 'v BenLib =
  ben_of_bytes :: "bytes \<Rightarrow> 'v"
  ben_of_int :: "i64 \<Rightarrow> 'v"
  ben_of_map :: "(bytes \<times> 'v) list \<Rightarrow> 'v"
  ben_to_bytes :: "'v \<Rightarrow> bytes"

definition FindNodeRequest_encode :: "'v BenLib \<Rightarrow> bytes \<Rightarrow> ShaHash \<Rightarrow> ShaHash \<Rightarrow> bytes" where
  "FindNodeRequest_encode B tid node_id target_id =
     ben_to_bytes B (ben_of_map B
       [(ascii ''t'', ben_of_bytes B tid),
        (ascii ''y'', ben_of_bytes B (ascii ''q'')),
        (ascii ''q'', ben_of_bytes B (ascii ''find_node'')),
        (ascii ''a'', ben_of_map B
           [(ascii ''id'', ben_of_bytes B node_id), (ascii ''target'', ben_of_bytes B target_id)])])"

definition GetPeersRequest_encode :: "'v BenLib \<Rightarrow> bytes \<Rightarrow> ShaHash \<Rightarrow> ShaHash \<Rightarrow> bytes" where
  "GetPeersRequest_encode B tid node_id info_hash =
     ben_to_bytes B (ben_of_map B
       [(ascii ''t'', ben_of_bytes B tid),
        (ascii ''y'', ben_of_bytes B (ascii ''q'')),
        (ascii ''q'', ben_of_bytes B (ascii ''get_peers'')),
        (ascii ''a'', ben_of_map B
           [(ascii ''id'', ben_of_bytes B node_id), (ascii ''info_hash'', ben_of_bytes B info_hash)])])"

datatype ConnectPort = Implied | Explicit u16

definition AnnouncePeerRequest_encode ::
  "'v BenLib \<Rightarrow> bytes \<Rightarrow> ShaHash \<Rightarrow> ShaHash \<Rightarrow> bytes \<Rightarrow> ConnectPort \<Rightarrow> bytes" where
  "AnnouncePeerRequest_encode B tid node_id info_hash token port =
     (let (displayed_port, implied_value) = (case port of Implied \<Rightarrow> (0, 1) | Explicit n \<Rightarrow> (n, 0))
      in ben_to_bytes B (ben_of_map B
       [(ascii ''t'', ben_of_bytes B tid),
        (ascii ''y'', ben_of_bytes B (ascii ''q'')),
        (ascii ''q'', ben_of_bytes B (ascii ''announce_peer'')),
        (ascii ''a'', ben_of_map B
           [(ascii ''id'', ben_of_bytes B node_id), (ascii ''implied_port'', ben_of_int B implied_value),
            (ascii ''info_hash'', ben_of_bytes B info_hash), (ascii ''port'', ben_of_int B (ucast displayed_port)),
            (ascii ''token'', ben_of_bytes B token)])]))"

section \<open>The surroundings of an operation\<close>

text \<open>
  The routing table, whose nodes count the requests to them, the out channel, the event loop, and
  the random numbers: \<open>w_rnd i\<close> are those drawn for the \<open>i\<close>-th transaction id.
\<close>

record 'l World =
  w_table :: RoutingTable
  w_out :: OutChannel
  w_loop :: 'l
  w_rnd :: "nat \<Rightarrow> nat \<Rightarrow> u64"
  w_draws :: nat

definition generate_id :: "MIDGenerator \<Rightarrow> 'l World \<Rightarrow> TransactionID \<times> MIDGenerator \<times> 'l World" where
  "generate_id gen w =
     (case MIDGenerator_generate (w_rnd w (w_draws w)) gen of
        (tid, gen) \<Rightarrow> (tid, gen, w\<lparr>w_draws := w_draws w + 1\<rparr>))"

definition set_timeout ::
  "('l, 't) EventLoop \<Rightarrow> u64 \<times> ScheduledTask \<Rightarrow> u64 \<Rightarrow> 'l World \<Rightarrow> 't option \<times> 'l World" where
  "set_timeout loop task delay w =
     (case timeout_ms loop task delay (w_loop w) of (timeout, l) \<Rightarrow> (timeout, w\<lparr>w_loop := l\<rparr>))"

definition send_to :: "bytes \<Rightarrow> SocketAddr \<Rightarrow> 'l World \<Rightarrow> bool \<times> 'l World" where
  "send_to msg addr w = (case out_send (msg, addr) (w_out w) of (sent, out) \<Rightarrow> (sent, w\<lparr>w_out := out\<rparr>))"

text \<open>The first element of a list that has a property, changed in place.\<close>

fun update_first :: "('a \<Rightarrow> bool) \<Rightarrow> ('a \<Rightarrow> 'a) \<Rightarrow> 'a list \<Rightarrow> 'a list" where
  "update_first p f [] = []"
| "update_first p f (x # xs) = (if p x then f x # xs else x # update_first p f xs)"

text \<open>
  \<open>table.find_node(node).map(|n| n.local_request())\<close>: the node that was found, a place of a
  bucket, counts the request.
\<close>

definition request_found :: "time \<Rightarrow> Node \<Rightarrow> RoutingTable \<Rightarrow> RoutingTable" where
  "request_found now node table =
     (if find_node now node table = None then table
      else (let bs = buckets table;
                index = bucket_placement (leading_bit_count (tbl_id table) (nd_id node)) (length bs)
            in table\<lparr>buckets := bs[index :=
                 update_first (\<lambda>n. pingable_nodes_filter now n \<and> node_eq n node) (local_request now) (bs ! index)]\<rparr>))"

definition mark_found :: "time \<Rightarrow> Node \<Rightarrow> 'l World \<Rightarrow> 'l World" where
  "mark_found now node w = w\<lparr>w_table := request_found now node (w_table w)\<rparr>"

lemma world_simps [simp]:
  "w_loop (mark_found now node w) = w_loop w" "w_out (mark_found now node w) = w_out w"
  by (simp_all add: mark_found_def)

lemma generate_id_frame:
  "generate_id g w = (tid, g', w') \<Longrightarrow> w_out w' = w_out w \<and> w_loop w' = w_loop w"
  by (auto simp: generate_id_def split: prod.splits)

lemma set_timeout_out: "set_timeout loop task delay w = (ot, w') \<Longrightarrow> w_out w' = w_out w"
  by (auto simp: set_timeout_def split: prod.splits)

lemma send_to_sent:
  "send_to msg addr w = (sent, w') \<Longrightarrow> (if sent then oc_sent (w_out w') = oc_sent (w_out w) @ [(msg, addr)] else w_out w' = w_out w)"
  by (auto simp: send_to_def out_send_def split: prod.splits if_splits)

lemma set_timeout_pending:
  assumes "timer_laws loop pending" "set_timeout loop (x, task) delay w = (ot, w')"
  shows "case ot of
      Some t \<Rightarrow> pending (w_loop w) t = None \<and> pending (w_loop w') = (pending (w_loop w))(t \<mapsto> task)
    | None \<Rightarrow> pending (w_loop w') = pending (w_loop w)"
  using assms by (auto simp: timer_laws_def set_timeout_def split: prod.splits option.splits)

text \<open>The action a task belongs to.\<close>

fun task_action :: "ScheduledTask \<Rightarrow> ActionID" where
  "task_action (CheckTableRefresh tid) = TransactionID_action_id tid"
| "task_action (CheckBootstrapTimeout tid) = TransactionID_action_id tid"
| "task_action (CheckLookupTimeout tid) = TransactionID_action_id tid"
| "task_action (CheckLookupEndGame tid) = TransactionID_action_id tid"

section \<open>The ids of an action\<close>

text \<open>A generator whose ids belong to the action \<open>a\<close>.\<close>

definition gen_ok :: "ActionID \<Rightarrow> MIDGenerator \<Rightarrow> bool" where
  "gen_ok a g \<longleftrightarrow> MIDGenerator_action_id g = a \<and> (\<exists>b. mid_action_id g = push_bit 24 b) \<and>
     (\<exists>k \<le> 2 ^ 13. mid_next_alloc g = of_nat (2048 * k)) \<and> (\<forall>m \<in> set (message_ids g). unat m < 2 ^ 24)"

lemma gen_ok_refill:
  assumes "gen_ok a g"
  shows "gen_ok a (mid_refill rnd g)"
proof -
  from assms obtain k where k: "k \<le> 2 ^ 13" "mid_next_alloc g = of_nat (2048 * k)" by (auto simp: gen_ok_def)
  define j where "j = (if k = 2 ^ 13 then 0 else k)"
  have j: "j < 2 ^ 13" using k(1) by (auto simp: j_def)
  have u: "unat (of_nat n :: u64) = n" if "n \<le> 2 ^ 24" for n using that by (simp add: unat_of_nat take_bit_nat_eq_self)
  have "unat (mid_next_alloc g) = 2048 * k" unfolding k(2) by (rule u) (use k(1) in simp)
  then have full: "mid_next_alloc g = MAX_MESSAGE_ID \<longleftrightarrow> k = 2 ^ 13" by (simp add: word_unat_eq_iff max_ids)
  have "generate_mids (mid_next_alloc g) =
      (of_nat (2048 * (j + 1)), store_range (word_range (of_nat (2048 * j)) (of_nat (2048 * (j + 1)))) (replicate 2048 0))"
    using full k(2) by (simp add: generate_mids_def Let_def j_def MESSAGE_ID_PREALLOC_LEN_def algebra_simps)
  moreover have "word_range (of_nat (2048 * j)) (of_nat (2048 * (j + 1))) = map of_nat [2048 * j..<2048 * (j + 1)]"
    using u [of "2048 * j"] u [of "2048 * (j + 1)"] j by (simp add: word_range_def)
  moreover have "store_range (map of_nat [2048 * j..<2048 * (j + 1)]) (replicate 2048 0) = map of_nat [2048 * j..<2048 * (j + 1)]"
    by (rule store_range_eq) simp
  ultimately have "mid_next_alloc (mid_refill rnd g) = of_nat (2048 * (j + 1))"
    "message_ids (mid_refill rnd g) = fisher_shuffle 0 rnd (map of_nat [2048 * j..<2048 * (j + 1)])"
    by (simp_all add: mid_refill_def)
  moreover have "set (fisher_shuffle 0 rnd (map of_nat [2048 * j..<2048 * (j + 1)])) =
      set (map of_nat [2048 * j..<2048 * (j + 1)] :: u64 list)"
    by (metis mset_fisher_shuffle set_mset_mset)
  moreover have "\<forall>m \<in> set (map of_nat [2048 * j..<2048 * (j + 1)] :: u64 list). unat m < 2 ^ 24" using u j by auto
  ultimately show ?thesis using assms j by (auto simp: gen_ok_def MIDGenerator_action_id_def intro!: exI [of _ "j + 1"])
qed

lemma gen_ok_generate:
  assumes "gen_ok a g" "MIDGenerator_generate rnd g = (tid, g')"
  shows "gen_ok a g' \<and> TransactionID_action_id tid = a"
proof -
  have ready: "gen_ok a h' \<and> TransactionID_action_id t = a"
    if "gen_ok a h" "mid_curr_index h < length (message_ids h)" "MIDGenerator_generate rnd h = (t, h')" for h h' t
  proof -
    from that(1) obtain b where b: "mid_action_id h = push_bit 24 b" by (auto simp: gen_ok_def)
    let ?m = "message_ids h ! mid_curr_index h"
    have m: "unat ?m < 2 ^ 24" using that(1,2) by (simp add: gen_ok_def)
    have "t = TransactionID_new (push_bit 24 b OR ?m)" "h' = h\<lparr>mid_curr_index := mid_curr_index h + 1\<rparr>"
      using that b by (auto simp: MIDGenerator_generate.simps [of rnd h] get_at_def)
    then show ?thesis
      using join_ids(2) [OF m, of b] that(1) b
      by (auto simp: gen_ok_def TransactionID_action_id_def MIDGenerator_action_id_def ActionID_from_transaction_id_def
          TransactionID_new_def id_consts)
  qed
  show ?thesis
  proof (cases "mid_curr_index g < length (message_ids g)")
    case True
    with ready assms show ?thesis by blast
  next
    case False
    then have "MIDGenerator_generate rnd (mid_refill rnd g) = (tid, g')"
      using assms(2) by (subst (asm) MIDGenerator_generate.simps) (simp add: get_at_def)
    with ready [OF gen_ok_refill [OF assms(1)]] show ?thesis by (simp add: MESSAGE_ID_PREALLOC_LEN_def)
  qed
qed

lemma gen_ok_new: "gen_ok (MIDGenerator_action_id (MIDGenerator_new (push_bit 24 b))) (MIDGenerator_new (push_bit 24 b))"
  by (auto simp: gen_ok_def MIDGenerator_new_def MIDGenerator_action_id_def intro: exI [of _ "0 :: nat"])

lemma generate_id_ok:
  "gen_ok a g \<Longrightarrow> generate_id g w = (tid, g', w') \<Longrightarrow>
   gen_ok a g' \<and> TransactionID_action_id tid = a \<and> w_loop w' = w_loop w"
  by (auto simp: generate_id_def split: prod.splits dest: gen_ok_generate)

section \<open>A concrete event loop\<close>

text \<open>Timers with consecutive numbers as handles, and a generator with ids in store.\<close>

definition demo_loop :: "(nat \<times> (nat \<rightharpoonup> ScheduledTask), nat) EventLoop" where
  "demo_loop = \<lparr>timeout_ms = (\<lambda>(_, task) delay (n, m). (Some n, n + 1, m(n \<mapsto> task))),
     clear_timeout = (\<lambda>t (n, m). (n, m(t := None)))\<rparr>"

definition demo_pending :: "nat \<times> (nat \<rightharpoonup> ScheduledTask) \<Rightarrow> nat \<rightharpoonup> ScheduledTask" where
  "demo_pending = (\<lambda>(n, m) t. if t < n then m t else None)"

lemma demo_loop_timers: "timer_laws demo_loop demo_pending"
  by (auto simp: timer_laws_def demo_loop_def demo_pending_def fun_eq_iff)

definition demo_gen :: MIDGenerator where
  "demo_gen = \<lparr>mid_action_id = push_bit 24 9, mid_next_alloc = 2048, mid_curr_index = 0, message_ids = [1, 2, 3, 4]\<rparr>"

end
