(* ===== verification/Dht_Lookup.thy ===== *)
theory Dht_Lookup
  imports Dht_Worker
begin

text \<open>
  \<open>bip_dht/src/worker/lookup.rs\<close>: the search for the peers of an info hash. Nodes are asked
  for nodes closer to the target until nobody knows a closer one; then, in the endgame, all
  nodes that were heard of and not asked are asked, and after a timer the search ends.
\<close>

section \<open>Constants and data\<close>

definition LOOKUP_TIMEOUT_MS :: u64 where "LOOKUP_TIMEOUT_MS = 1500"
definition ENDGAME_TIMEOUT_MS :: u64 where "ENDGAME_TIMEOUT_MS = 1500"
definition INITIAL_PICK_NUM :: nat where "INITIAL_PICK_NUM = 4"
definition ITERATIVE_PICK_NUM :: nat where "ITERATIVE_PICK_NUM = 3"
definition ANNOUNCE_PICK_NUM :: nat where "ANNOUNCE_PICK_NUM = 8"

type_synonym Distance = ShaHash

text \<open>Nodes are equal, as keys of a map, when their ids and addresses are.\<close>

type_synonym node_key = "ShaHash \<times> SocketAddr"

definition node_key :: "Node \<Rightarrow> node_key" where
  "node_key n = (nd_id n, nd_addr n)"

datatype LookupStatus = Searching | Values "SocketAddrV4 list" | Completed | Failed

record 't TableLookup =
  lk_table_id :: ShaHash
  lk_target_id :: ShaHash
  lk_in_endgame :: bool
  lk_recv_values :: bool
  lk_id_generator :: MIDGenerator
  lk_will_announce :: bool
  lk_active_lookups :: "TransactionID \<rightharpoonup> Distance \<times> 't"
  lk_announce_tokens :: "node_key \<rightharpoonup> bytes"
  lk_requested_nodes :: "node_key set"
  lk_all_sorted_nodes :: "(Distance \<times> Node \<times> bool) list"

text \<open>The answer of a node: its token, and the nodes and contacts it knows.\<close>

datatype 'v CompactInfoType =
    Nodes CompactNodeInfo
  | ValuesInfo "'v CompactValueInfo"
  | Both CompactNodeInfo "'v CompactValueInfo"

record 'v GetPeersResponse =
  gp_trans_id :: bytes
  gp_node_id :: ShaHash
  gp_token :: "bytes option"
  gp_info_type :: "'v CompactInfoType"

text \<open>
  What a lookup takes from elsewhere: the event loop, the bencode crate with the access to a byte
  string, and \<open>binary_search_by\<close>, which does not say which of several equal elements it finds:
  \<open>Inl\<close> the index of an equal element, \<open>Inr\<close> the index to insert at.
\<close>

record ('l, 't, 'v) Env =
  env_loop :: "('l, 't) EventLoop"
  env_ben :: "'v BenLib"
  env_bytes_of :: "'v \<Rightarrow> bytes option"
  env_search :: "Distance list \<Rightarrow> Distance \<Rightarrow> nat + nat"

definition search_laws :: "(Distance list \<Rightarrow> Distance \<Rightarrow> nat + nat) \<Rightarrow> bool" where
  "search_laws search \<longleftrightarrow> (\<forall>xs x. sorted xs \<longrightarrow>
     (case search xs x of
        Inl i \<Rightarrow> i < length xs \<and> xs ! i = x
      | Inr i \<Rightarrow> i \<le> length xs \<and> (\<forall>y \<in> set (take i xs). y < x) \<and> (\<forall>y \<in> set (drop i xs). x < y)))"

section \<open>Lists of nodes\<close>

text \<open>\<open>Vec::insert\<close>, at an index that \<open>binary_search_by\<close> returned and that is not beyond the end.\<close>

definition vec_insert :: "nat \<Rightarrow> 'a \<Rightarrow> 'a list \<Rightarrow> 'a list" where
  "vec_insert i x xs = take i xs @ x # drop i xs"

definition insert_sorted_node ::
  "(Distance list \<Rightarrow> Distance \<Rightarrow> nat + nat) \<Rightarrow> ShaHash \<Rightarrow> Node \<Rightarrow> bool \<Rightarrow>
     (Distance \<times> Node \<times> bool) list \<Rightarrow> (Distance \<times> Node \<times> bool) list" where
  "insert_sorted_node search target node pinged nodes =
     (let node_dist = sha_bitxor target (nd_id node)
      in case search (map fst nodes) node_dist of
           Inl dup_index \<Rightarrow>
             if \<not> node_eq (fst (snd (nodes ! dup_index))) node
             then vec_insert dup_index (node_dist, node, pinged) nodes else nodes
         | Inr ins_index \<Rightarrow> vec_insert ins_index (node_dist, node, pinged) nodes)"

primrec insert_closest_nodes :: "ShaHash \<Rightarrow> Node \<Rightarrow> (Node \<times> bool) list \<Rightarrow> (Node \<times> bool) list" where
  "insert_closest_nodes target_id new_node [] = []"
| "insert_closest_nodes target_id new_node (slot # nodes) =
     (case slot of (old_node, used) \<Rightarrow>
        if \<not> used then (new_node, True) # nodes
        else if sha_bitxor target_id (nd_id new_node) < sha_bitxor target_id (nd_id old_node)
        then (new_node, used) # nodes
        else slot # insert_closest_nodes target_id new_node nodes)"

definition unused_slot :: "Node \<times> bool" where
  "unused_slot = (Node_as_bad (replicate NODE_ID_LEN 0) default_route_v4, False)"

definition v4_node :: "time \<Rightarrow> ShaHash \<times> SocketAddrV4 \<Rightarrow> Node" where
  "v4_node now = (\<lambda>(id', v4_addr). Node_as_questionable now id' (SockV4 v4_addr))"

definition pick_iterate_nodes :: "time \<Rightarrow> (ShaHash \<times> SocketAddrV4) list \<Rightarrow> ShaHash \<Rightarrow> (Node \<times> bool) list" where
  "pick_iterate_nodes now unsorted_nodes target_id =
     fold (\<lambda>info pick_nodes. insert_closest_nodes target_id (v4_node now info) pick_nodes)
       unsorted_nodes (replicate ITERATIVE_PICK_NUM unused_slot)"

text \<open>The nodes that are picked, and the list in which they are marked as asked.\<close>

definition pick_initial_nodes ::
  "(Distance \<times> Node \<times> bool) list \<Rightarrow> (Node \<times> bool) list \<times> (Distance \<times> Node \<times> bool) list" where
  "pick_initial_nodes sorted_nodes =
     (let src = take INITIAL_PICK_NUM sorted_nodes
      in (map (\<lambda>(_, node, _). (node, True)) src @ replicate (INITIAL_PICK_NUM - length src) unused_slot,
          map (\<lambda>(dist, node, _). (dist, node, True)) src @ drop INITIAL_PICK_NUM sorted_nodes))"

section \<open>Rounds of requests\<close>

definition current_lookup_status :: "'t TableLookup \<Rightarrow> LookupStatus" where
  "current_lookup_status self =
     (if lk_in_endgame self \<or> lk_active_lookups self \<noteq> Map.empty then Searching else Completed)"

text \<open>The request to one node, up to the point where it is sent.\<close>

definition ask_node ::
  "('l, 't, 'v) Env \<Rightarrow> TransactionID \<Rightarrow> Distance \<times> 't \<Rightarrow> Node \<Rightarrow> 't TableLookup \<Rightarrow> 'l World \<Rightarrow>
     bool \<times> 't TableLookup \<times> 'l World" where
  "ask_node E tid entry node self w =
     (let self = self\<lparr>lk_active_lookups := (lk_active_lookups self)(tid \<mapsto> entry)\<rparr>;
          get_peers_msg = GetPeersRequest_encode (env_ben E) (trans_id_bytes tid) (lk_table_id self) (lk_target_id self)
      in case send_to get_peers_msg (nd_addr node) w of (sent, w) \<Rightarrow> (sent, self, w))"

text \<open>The loop of \<open>start_request_round\<close> with its count of messages.\<close>

primrec request_round ::
  "('l, 't, 'v) Env \<Rightarrow> time \<Rightarrow> (Node \<times> Distance) list \<Rightarrow> nat \<Rightarrow> 't TableLookup \<Rightarrow> 'l World \<Rightarrow>
     LookupStatus \<times> 't TableLookup \<times> 'l World" where
  "request_round E now [] messages_sent self w =
     (if messages_sent = 0 then (Completed, self\<lparr>lk_active_lookups := Map.empty\<rparr>, w) else (Searching, self, w))"
| "request_round E now (item # nodes) messages_sent self w =
     (case item of (node, dist_to_beat) \<Rightarrow>
      case generate_id (lk_id_generator self) w of (tid, gen, w) \<Rightarrow>
      case set_timeout (env_loop E) (0, CheckLookupTimeout tid) LOOKUP_TIMEOUT_MS w of
        (None, w) \<Rightarrow> (Failed, self\<lparr>lk_id_generator := gen\<rparr>, w)
      | (Some timeout, w) \<Rightarrow>
          (case ask_node E tid (dist_to_beat, timeout) node (self\<lparr>lk_id_generator := gen\<rparr>) w of
             (sent, self, w) \<Rightarrow>
               if \<not> sent then (Failed, self, w)
               else request_round E now nodes (messages_sent + 1)
                      (self\<lparr>lk_requested_nodes := insert (node_key node) (lk_requested_nodes self)\<rparr>)
                      (mark_found now node w)))"

definition start_request_round ::
  "('l, 't, 'v) Env \<Rightarrow> time \<Rightarrow> (Node \<times> Distance) list \<Rightarrow> 't TableLookup \<Rightarrow> 'l World \<Rightarrow>
     LookupStatus \<times> 't TableLookup \<times> 'l World" where
  "start_request_round E now nodes self w = request_round E now nodes 0 self w"

text \<open>The loop of \<open>start_endgame_round\<close>: the list of nodes is changed in place.\<close>

primrec endgame_round ::
  "('l, 't, 'v) Env \<Rightarrow> time \<Rightarrow> 't \<Rightarrow> (Distance \<times> Node \<times> bool) list \<Rightarrow> 't TableLookup \<Rightarrow> 'l World \<Rightarrow>
     bool \<times> (Distance \<times> Node \<times> bool) list \<times> 't TableLookup \<times> 'l World" where
  "endgame_round E now timeout [] self w = (True, [], self, w)"
| "endgame_round E now timeout (item # nodes) self w =
     (case item of (node_dist, node, req) \<Rightarrow>
      if req
      then (case endgame_round E now timeout nodes self w of (ok, nodes, self, w) \<Rightarrow> (ok, item # nodes, self, w))
      else (case generate_id (lk_id_generator self) w of (tid, gen, w) \<Rightarrow>
            case ask_node E tid (node_dist, timeout) node (self\<lparr>lk_id_generator := gen\<rparr>) w of
              (sent, self, w) \<Rightarrow>
                if \<not> sent then (False, item # nodes, self, w)
                else (case endgame_round E now timeout nodes self (mark_found now node w) of
                        (ok, nodes, self, w) \<Rightarrow> (ok, (node_dist, node, True) # nodes, self, w))))"

definition start_endgame_round ::
  "('l, 't, 'v) Env \<Rightarrow> time \<Rightarrow> 't TableLookup \<Rightarrow> 'l World \<Rightarrow> LookupStatus \<times> 't TableLookup \<times> 'l World" where
  "start_endgame_round E now self w =
     (let self = self\<lparr>lk_in_endgame := True\<rparr>
      in case generate_id (lk_id_generator self) w of (tid, gen, w) \<Rightarrow>
         case set_timeout (env_loop E) (0, CheckLookupEndGame tid) ENDGAME_TIMEOUT_MS w of
           (None, w) \<Rightarrow> (Failed, self\<lparr>lk_id_generator := gen\<rparr>, w)
         | (Some timeout, w) \<Rightarrow>
             (let self = self\<lparr>lk_id_generator := gen\<rparr>
              in if \<not> lk_recv_values self
                 then (case endgame_round E now timeout (lk_all_sorted_nodes self) self w of
                         (ok, nodes, self, w) \<Rightarrow>
                           (if ok then Searching else Failed, self\<lparr>lk_all_sorted_nodes := nodes\<rparr>, w))
                 else (Searching, self, w)))"

section \<open>The operations\<close>

definition TableLookup_new ::
  "('l, 't, 'v) Env \<Rightarrow> time \<Rightarrow> ShaHash \<Rightarrow> ShaHash \<Rightarrow> MIDGenerator \<Rightarrow> bool \<Rightarrow> 'l World \<Rightarrow>
     't TableLookup option \<times> 'l World" where
  "TableLookup_new E now table_id target_id id_generator will_announce w =
     (let good = take MAX_BUCKET_SIZE
            (filter (\<lambda>n. status now n = Good) (closest_list now (closest_nodes target_id (w_table w))));
          all_sorted_nodes = fold (\<lambda>node nodes. insert_sorted_node (env_search E) target_id node False nodes) good [];
          (initial_pick_nodes, all_sorted_nodes) = pick_initial_nodes all_sorted_nodes;
          initial_pick_nodes_filtered =
            map (\<lambda>(node, _). (node, sha_bitxor (nd_id node) target_id)) (filter snd initial_pick_nodes);
          table_lookup = \<lparr>lk_table_id = table_id, lk_target_id = target_id, lk_in_endgame = False,
            lk_recv_values = False, lk_id_generator = id_generator, lk_will_announce = will_announce,
            lk_active_lookups = Map.empty, lk_announce_tokens = Map.empty, lk_requested_nodes = {},
            lk_all_sorted_nodes = all_sorted_nodes\<rparr>
      in case start_request_round E now initial_pick_nodes_filtered table_lookup w of
           (st, table_lookup, w) \<Rightarrow> (if st \<noteq> Failed then Some table_lookup else None, w))"

text \<open>
  The contacts and nodes of an answer, read by the iterators of \<open>Dht_Compact\<close>, and whether they are
  noted as values that were received.
\<close>

fun response_parts ::
  "('v \<Rightarrow> bytes option) \<Rightarrow> 'v CompactInfoType \<Rightarrow>
     (bool \<times> SocketAddrV4 list option \<times> (ShaHash \<times> SocketAddrV4) list option, unit) res" where
  "response_parts bytes_of (Nodes n) =
     try_res (compact_nodes (CompactNodeInfo_into_iter n)) (\<lambda>nodes. Ok (False, None, Some nodes))"
| "response_parts bytes_of (ValuesInfo v) =
     try_res (compact_values bytes_of (CompactValueInfo_into_iter v)) (\<lambda>values. Ok (True, Some values, None))"
| "response_parts bytes_of (Both n v) =
     try_res (compact_values bytes_of (CompactValueInfo_into_iter v)) (\<lambda>values.
     try_res (compact_nodes (CompactNodeInfo_into_iter n)) (\<lambda>nodes. Ok (False, Some values, Some nodes)))"

definition closer :: "ShaHash \<Rightarrow> (ShaHash \<times> SocketAddrV4) list \<Rightarrow> Distance \<Rightarrow> Distance" where
  "closer target_id nodes dist_to_beat =
     fold (\<lambda>(id', _) closest. let distance = sha_bitxor target_id id' in if distance < closest then distance else closest)
       nodes dist_to_beat"

definition push_nodes ::
  "(Distance list \<Rightarrow> Distance \<Rightarrow> nat + nat) \<Rightarrow> time \<Rightarrow> ShaHash \<Rightarrow> (Node \<Rightarrow> bool) \<Rightarrow> (ShaHash \<times> SocketAddrV4) list \<Rightarrow>
     (Distance \<times> Node \<times> bool) list \<Rightarrow> (Distance \<times> Node \<times> bool) list" where
  "push_nodes search now target_id will_ping nodes sorted_nodes =
     fold (\<lambda>info sorted_nodes. let node = v4_node now info
             in insert_sorted_node search target_id node (will_ping node) sorted_nodes) nodes sorted_nodes"

text \<open>
  The part of \<open>recv_response\<close> that looks at the nodes of an answer: the nodes to ask next, if
  one of them is closer, the next distance to beat, and the new list of nodes.
\<close>

definition iterate_nodes ::
  "('l, 't, 'v) Env \<Rightarrow> time \<Rightarrow> (ShaHash \<times> SocketAddrV4) list \<Rightarrow> Distance \<Rightarrow> 't TableLookup \<Rightarrow>
     (Node \<times> bool) list option \<times> Distance \<times> 't TableLookup" where
  "iterate_nodes E now nodes dist_to_beat self =
     (let unasked = filter (\<lambda>info. node_key (v4_node now info) \<notin> lk_requested_nodes self) nodes;
          next_dist_to_beat = closer (lk_target_id self) unasked dist_to_beat;
          push = (\<lambda>will_ping. self\<lparr>lk_all_sorted_nodes :=
             push_nodes (env_search E) now (lk_target_id self) will_ping nodes (lk_all_sorted_nodes self)\<rparr>)
      in if next_dist_to_beat < dist_to_beat
         then (let picked = pick_iterate_nodes now unasked (lk_target_id self)
               in (Some picked, next_dist_to_beat, push (\<lambda>node. find (\<lambda>(n, _). node_eq n node) picked \<noteq> None)))
         else (None, next_dist_to_beat, push (\<lambda>node. False)))"

text \<open>The end of \<open>recv_response\<close> and of \<open>recv_timeout\<close>: the endgame starts when nobody is asked.\<close>

definition check_endgame ::
  "('l, 't, 'v) Env \<Rightarrow> time \<Rightarrow> 't TableLookup \<Rightarrow> 'l World \<Rightarrow> LookupStatus \<times> 't TableLookup \<times> 'l World" where
  "check_endgame E now self w =
     (if lk_active_lookups self = Map.empty then start_endgame_round E now self w else (Searching, self, w))"

definition continue_search ::
  "('l, 't, 'v) Env \<Rightarrow> time \<Rightarrow> (Node \<times> bool) list option \<Rightarrow> Distance \<Rightarrow> 't TableLookup \<Rightarrow> 'l World \<Rightarrow>
     LookupStatus \<times> 't TableLookup \<times> 'l World" where
  "continue_search E now opt_nodes next_dist_to_beat self w =
     (if lk_in_endgame self then (Searching, self, w)
      else (case opt_nodes of
              None \<Rightarrow> check_endgame E now self w
            | Some nodes \<Rightarrow>
                (case start_request_round E now
                        (map (\<lambda>(n, _). (n, next_dist_to_beat)) (filter snd nodes)) self w of
                   (st, self, w) \<Rightarrow>
                     if st = Failed then (Failed, self, w) else check_endgame E now self w)))"

definition recv_response ::
  "('l, 't, 'v) Env \<Rightarrow> time \<Rightarrow> Node \<Rightarrow> TransactionID \<Rightarrow> 'v GetPeersResponse \<Rightarrow> 't TableLookup \<Rightarrow> 'l World \<Rightarrow>
     (LookupStatus, unit) res \<times> 't TableLookup \<times> 'l World" where
  "recv_response E now node tid msg self w =
     (case lk_active_lookups self tid of
        None \<Rightarrow> (Ok (current_lookup_status self), self, w)
      | Some (dist_to_beat, timeout) \<Rightarrow>
          (let self = self\<lparr>lk_active_lookups := (lk_active_lookups self)(tid := None)\<rparr>;
               w = (if lk_in_endgame self then w else w\<lparr>w_loop := clear_timeout (env_loop E) timeout (w_loop w)\<rparr>);
               self = (case gp_token msg of
                         Some token \<Rightarrow> self\<lparr>lk_announce_tokens := (lk_announce_tokens self)(node_key node \<mapsto> token)\<rparr>
                       | None \<Rightarrow> self)
           in case response_parts (env_bytes_of E) (gp_info_type msg) of
                Ok (received, opt_values, opt_nodes) \<Rightarrow>
                  (let self = self\<lparr>lk_recv_values := lk_recv_values self \<or> received\<rparr>
                   in case (case opt_nodes of
                              Some nodes \<Rightarrow> iterate_nodes E now nodes dist_to_beat self
                            | None \<Rightarrow> (None, dist_to_beat, self)) of
                        (opt_iterate, next_dist_to_beat, self) \<Rightarrow>
                          (case continue_search E now opt_iterate next_dist_to_beat self w of
                             (st, self, w) \<Rightarrow>
                               (Ok (if st = Failed then Failed
                                    else case opt_values of
                                           Some values \<Rightarrow> Values values
                                         | None \<Rightarrow> current_lookup_status self), self, w)))
              | _ \<Rightarrow> (Panic, self, w)))"

definition recv_timeout ::
  "('l, 't, 'v) Env \<Rightarrow> time \<Rightarrow> TransactionID \<Rightarrow> 't TableLookup \<Rightarrow> 'l World \<Rightarrow>
     LookupStatus \<times> 't TableLookup \<times> 'l World" where
  "recv_timeout E now tid self w =
     (if lk_active_lookups self tid = None then (current_lookup_status self, self, w)
      else (let self = self\<lparr>lk_active_lookups := (lk_active_lookups self)(tid := None)\<rparr>
            in case (if lk_in_endgame self then (Searching, self, w) else check_endgame E now self w) of
                 (st, self, w) \<Rightarrow> (if st = Failed then Failed else current_lookup_status self, self, w)))"

text \<open>
  The loop of \<open>recv_finished\<close>: a failure to send is remembered and the loop goes on.
\<close>

primrec announce_round ::
  "('l, 't, 'v) Env \<Rightarrow> time \<Rightarrow> u16 \<Rightarrow> Node list \<Rightarrow> bool \<Rightarrow> 't TableLookup \<Rightarrow> 'l World \<Rightarrow> bool \<times> 't TableLookup \<times> 'l World" where
  "announce_round E now handshake_port [] fatal_error self w = (fatal_error, self, w)"
| "announce_round E now handshake_port (node # nodes) fatal_error self w =
     (case generate_id (lk_id_generator self) w of (tid, gen, w) \<Rightarrow>
      let token = the (lk_announce_tokens self (node_key node));
          announce_peer_msg = AnnouncePeerRequest_encode (env_ben E) (trans_id_bytes tid) (lk_table_id self)
            (lk_target_id self) token (Explicit handshake_port)
      in case send_to announce_peer_msg (nd_addr node) w of (sent, w) \<Rightarrow>
         let fatal_error = fatal_error \<or> \<not> sent
         in announce_round E now handshake_port nodes fatal_error (self\<lparr>lk_id_generator := gen\<rparr>)
              (if fatal_error then w else mark_found now node w))"

definition announce_nodes :: "'t TableLookup \<Rightarrow> Node list" where
  "announce_nodes self =
     take ANNOUNCE_PICK_NUM (filter (\<lambda>node. lk_announce_tokens self (node_key node) \<noteq> None)
       (map (\<lambda>(_, node, _). node) (lk_all_sorted_nodes self)))"

definition recv_finished ::
  "('l, 't, 'v) Env \<Rightarrow> time \<Rightarrow> u16 \<Rightarrow> 't TableLookup \<Rightarrow> 'l World \<Rightarrow> LookupStatus \<times> 't TableLookup \<times> 'l World" where
  "recv_finished E now handshake_port self w =
     (case (if lk_will_announce self then announce_round E now handshake_port (announce_nodes self) False self w
            else (False, self, w)) of
        (fatal_error, self, w) \<Rightarrow>
          (let self = self\<lparr>lk_active_lookups := Map.empty, lk_in_endgame := False\<rparr>
           in (if fatal_error then Failed else current_lookup_status self, self, w)))"

end
