(* ===== verification/Dht_Search.thy ===== *)
theory Dht_Search
  imports Dht_Lookup
begin

text \<open>
  Lemmas on the lookup: its list of nodes is sorted by the distance to the target, every
  answer makes the requests that are waited for fewer or closer, and as long as a lookup has not
  ended a timer is set that brings it forward.
\<close>

section \<open>The list of nodes\<close>

lemma length_sha_bitxor [simp]: "length (sha_bitxor a b) = length a"
  by (simp add: sha_bitxor_def)

definition nodes_ok :: "ShaHash \<Rightarrow> (Distance \<times> Node \<times> bool) list \<Rightarrow> bool" where
  "nodes_ok target nodes \<longleftrightarrow>
     sorted (map fst nodes) \<and> list_all (\<lambda>(d, n, _). d = sha_bitxor target (nd_id n)) nodes"

lemma sorted_split:
  assumes "sorted xs" "i < length xs"
  shows "y \<in> set (take i xs) \<Longrightarrow> y \<le> xs ! i" "y \<in> set (drop i xs) \<Longrightarrow> xs ! i \<le> y"
  using assms sorted_nth_mono [OF assms(1)] by (auto simp: in_set_conv_nth)

lemma sorted_vec_insert:
  assumes "sorted (map f xs)" "\<And>y. y \<in> set (take i xs) \<Longrightarrow> f y \<le> f x" "\<And>y. y \<in> set (drop i xs) \<Longrightarrow> f x \<le> f y"
  shows "sorted (map f (vec_insert i x xs))"
proof -
  have "sorted (map f (take i xs) @ map f (drop i xs))" using assms(1) by (simp flip: map_append)
  then show ?thesis using assms(2,3) by (auto simp: vec_insert_def sorted_append)
qed

lemma set_vec_insert: "set (vec_insert i x xs) = insert x (set xs)"
proof -
  have "set xs = set (take i xs) \<union> set (drop i xs)" by (simp flip: set_append)
  then show ?thesis by (auto simp: vec_insert_def)
qed

lemma insert_sorted_node_ok:
  assumes "search_laws search" "nodes_ok target nodes"
  shows "nodes_ok target (insert_sorted_node search target node pinged nodes)"
proof -
  let ?d = "sha_bitxor target (nd_id node)" and ?ds = "map fst nodes"
  have s: "sorted ?ds" using assms(2) by (simp add: nodes_ok_def)
  have law: "case search ?ds ?d of Inl i \<Rightarrow> i < length ?ds \<and> ?ds ! i = ?d
      | Inr i \<Rightarrow> i \<le> length ?ds \<and> (\<forall>y \<in> set (take i ?ds). y < ?d) \<and> (\<forall>y \<in> set (drop i ?ds). ?d < y)"
    using assms(1) s by (simp add: search_laws_def)
  have ins: "nodes_ok target (vec_insert i (?d, node, pinged) nodes)"
    if "\<And>y. y \<in> set (take i ?ds) \<Longrightarrow> y \<le> ?d" "\<And>y. y \<in> set (drop i ?ds) \<Longrightarrow> ?d \<le> y" for i
    using sorted_vec_insert [OF s, of i "(?d, node, pinged)"] that assms(2)
    by (auto simp: nodes_ok_def list_all_iff set_vec_insert take_map drop_map)
  show ?thesis
  proof (cases "search ?ds ?d")
    case (Inl i)
    then have i: "i < length ?ds" "?ds ! i = ?d" using law by auto
    show ?thesis
      using Inl ins [of i] sorted_split [OF s i(1)] i(2) assms(2) by (simp add: insert_sorted_node_def Let_def)
  next
    case (Inr i)
    then show ?thesis using law ins [of i] by (auto simp: insert_sorted_node_def Let_def less_imp_le)
  qed
qed

lemma set_insert_sorted_node:
  "set nodes \<subseteq> set (insert_sorted_node search target node pinged nodes)"
  "set (insert_sorted_node search target node pinged nodes) \<subseteq>
     insert (sha_bitxor target (nd_id node), node, pinged) (set nodes)"
  by (auto simp: insert_sorted_node_def Let_def set_vec_insert split: sum.splits)

lemma push_nodes_ok:
  "search_laws search \<Longrightarrow> nodes_ok target nodes \<Longrightarrow> nodes_ok target (push_nodes search now target p infos nodes)"
  by (induction infos arbitrary: nodes) (simp_all add: push_nodes_def Let_def insert_sorted_node_ok)

lemma push_nodes_length:
  "\<forall>x \<in> set nodes. length (fst x) = length target \<Longrightarrow>
   \<forall>x \<in> set (push_nodes search now target p infos nodes). length (fst x) = length target"
proof (induction infos arbitrary: nodes)
  case (Cons info infos)
  have "\<forall>x \<in> set (insert_sorted_node search target (v4_node now info) (p (v4_node now info)) nodes). length (fst x) = length target"
    using set_insert_sorted_node(2) [of search target "v4_node now info" _ nodes] Cons.prems by fastforce
  from Cons.IH [OF this] show ?case by (simp add: push_nodes_def Let_def)
qed (simp add: push_nodes_def)

section \<open>Picking nodes\<close>

lemma closer_le: "closer target nodes d \<le> d"
proof (induction nodes arbitrary: d)
  case (Cons x nodes)
  obtain i a where x: "x = (i, a)" by (cases x)
  show ?case using Cons.IH [of d] Cons.IH [of "sha_bitxor target i"] by (auto simp: closer_def x Let_def)
qed (simp add: closer_def)

lemma closer_in: "closer target nodes d = d \<or> (\<exists>(i, a) \<in> set nodes. closer target nodes d = sha_bitxor target i)"
proof (induction nodes arbitrary: d)
  case (Cons x nodes)
  obtain i a where x: "x = (i, a)" by (cases x)
  show ?case using Cons.IH [of d] Cons.IH [of "sha_bitxor target i"] by (auto simp: closer_def x Let_def)
qed (simp add: closer_def)

lemma closer_min: "(i, a) \<in> set nodes \<Longrightarrow> closer target nodes d \<le> sha_bitxor target i"
proof (induction nodes arbitrary: d)
  case (Cons x nodes)
  obtain j b where x: "x = (j, b)" by (cases x)
  show ?case
    using Cons x closer_le [of target nodes d] closer_le [of target nodes "sha_bitxor target j"]
    by (auto simp: closer_def Let_def)
qed simp

lemma length_insert_closest [simp]: "length (insert_closest_nodes target n slots) = length slots"
  by (induction slots) auto

text \<open>The first place always holds the closest of the nodes that were inserted.\<close>

lemma pick_first:
  assumes "nodes \<noteq> []" "slots \<noteq> []"
    "snd (hd slots) \<longrightarrow> sha_bitxor target (nd_id (fst (hd slots))) = d0"
  shows "\<exists>node slots'. fold (\<lambda>info slots. insert_closest_nodes target (v4_node now info) slots) nodes slots = (node, True) # slots' \<and>
    ((node, True) = hd slots \<or> node \<in> v4_node now ` set nodes) \<and>
    (\<forall>(i, a) \<in> set nodes. sha_bitxor target (nd_id node) \<le> sha_bitxor target i) \<and>
    (snd (hd slots) \<longrightarrow> sha_bitxor target (nd_id node) \<le> d0)"
  using assms
proof (induction nodes arbitrary: slots d0)
  case (Cons x nodes)
  obtain i a where x: "x = (i, a)" by (cases x)
  obtain old used rest where slots: "slots = (old, used) # rest" using Cons.prems(2) by (cases slots) auto
  let ?new = "v4_node now x" and ?slots = "insert_closest_nodes target (v4_node now x) slots"
  have id: "nd_id ?new = i" by (simp add: v4_node_def x Node_as_questionable_def Let_def)
  obtain n rest' where step: "?slots = (n, True) # rest'"
    "n = ?new \<or> (used \<and> n = old)" "sha_bitxor target (nd_id n) \<le> sha_bitxor target i"
    "used \<longrightarrow> sha_bitxor target (nd_id n) \<le> sha_bitxor target (nd_id old)"
  proof (cases "used \<and> sha_bitxor target (nd_id old) \<le> sha_bitxor target i")
    case True
    then show ?thesis using that [of old "insert_closest_nodes target ?new rest"] by (simp add: slots id leD)
  next
    case False
    then show ?thesis using that [of ?new rest] by (auto simp: slots id not_le less_imp_le)
  qed
  show ?case
  proof (cases "nodes = []")
    case True
    then show ?thesis using step Cons.prems(3) by (auto simp: slots x)
  next
    case False
    from Cons.IH [OF False, of ?slots "sha_bitxor target (nd_id n)"] step(1)
    obtain node slots' where f: "fold (\<lambda>info slots. insert_closest_nodes target (v4_node now info) slots) nodes ?slots = (node, True) # slots'"
      and from_n: "node = n \<or> node \<in> v4_node now ` set nodes"
      and min: "\<forall>(i, a) \<in> set nodes. sha_bitxor target (nd_id node) \<le> sha_bitxor target i"
      and le: "sha_bitxor target (nd_id node) \<le> sha_bitxor target (nd_id n)" by auto
    have "sha_bitxor target (nd_id node) \<le> sha_bitxor target i"
      "used \<longrightarrow> sha_bitxor target (nd_id node) \<le> d0"
      using le step(3,4) Cons.prems(3) by (auto simp: slots intro: order_trans)
    moreover have "(node, True) = hd slots \<or> node \<in> v4_node now ` set (x # nodes)"
      using from_n step(2) by (auto simp: slots)
    ultimately show ?thesis using f min by (intro exI [of _ node] exI [of _ slots']) (auto simp: slots x)
  qed
qed simp

section \<open>What the rounds change\<close>

definition lookup_ok :: "'t TableLookup \<Rightarrow> bool" where
  "lookup_ok s \<longleftrightarrow> finite (dom (lk_active_lookups s)) \<and>
     (\<forall>k d t. lk_active_lookups s k = Some (d, t) \<longrightarrow> length d = length (lk_target_id s)) \<and>
     (\<forall>x \<in> set (lk_all_sorted_nodes s). length (fst x) = length (lk_target_id s))"

text \<open>A round adds entries with distances from a set, and leaves the phase and the list of nodes.\<close>

definition adds_entries :: "Distance set \<Rightarrow> 't TableLookup \<Rightarrow> 't TableLookup \<Rightarrow> bool" where
  "adds_entries ds s s' \<longleftrightarrow>
     lk_in_endgame s' = lk_in_endgame s \<and> lk_target_id s' = lk_target_id s \<and>
     lk_all_sorted_nodes s' = lk_all_sorted_nodes s \<and>
     (finite (dom (lk_active_lookups s)) \<longrightarrow> finite (dom (lk_active_lookups s'))) \<and>
     (\<forall>k v. lk_active_lookups s' k = Some v \<longrightarrow> lk_active_lookups s k = Some v \<or> fst v \<in> ds)"

lemma adds_entries_refl: "adds_entries ds s s"
  by (simp add: adds_entries_def)

lemma adds_entries_trans: "adds_entries ds s s' \<Longrightarrow> adds_entries ds s' s'' \<Longrightarrow> adds_entries ds s s''"
  unfolding adds_entries_def by fastforce

lemma adds_entries_mono: "adds_entries ds s s' \<Longrightarrow> ds \<subseteq> ds' \<Longrightarrow> adds_entries ds' s s'"
  unfolding adds_entries_def by blast

lemma ask_node_adds:
  "ask_node E tid (d, t) node (s\<lparr>lk_id_generator := gen\<rparr>) w = (sent, s', w') \<Longrightarrow> adds_entries {d} s s'"
  by (auto simp: ask_node_def adds_entries_def Let_def split: prod.splits if_splits)

lemma request_round_adds:
  "request_round E now nodes n s w = (st, s', w') \<Longrightarrow> adds_entries (snd ` set nodes) s s'"
proof (induction nodes arbitrary: n s w)
  case Nil
  then show ?case by (auto simp: adds_entries_def split: if_splits)
next
  case (Cons item nodes)
  obtain node d where item: "item = (node, d)" by (cases item)
  obtain tid gen w1 where gen: "generate_id (lk_id_generator s) w = (tid, gen, w1)" by (metis prod_cases3)
  obtain ot w2 where t: "set_timeout (env_loop E) (0, CheckLookupTimeout tid) LOOKUP_TIMEOUT_MS w1 = (ot, w2)" by fastforce
  show ?case
  proof (cases ot)
    case None
    then show ?thesis using Cons.prems by (auto simp: item gen t adds_entries_def)
  next
    case (Some timeout)
    obtain sent s1 w3 where ask: "ask_node E tid (d, timeout) node (s\<lparr>lk_id_generator := gen\<rparr>) w2 = (sent, s1, w3)"
      by (metis prod_cases3)
    let ?s2 = "s1\<lparr>lk_requested_nodes := insert (node_key node) (lk_requested_nodes s1)\<rparr>"
    have a: "adds_entries (snd ` set (item # nodes)) s s1"
      using ask_node_adds [OF ask] by (rule adds_entries_mono) (simp add: item)
    have "adds_entries (snd ` set (item # nodes)) s1 ?s2" by (simp add: adds_entries_def)
    note b = adds_entries_trans [OF a this]
    show ?thesis
    proof (cases sent)
      case True
      with Cons.prems have "request_round E now nodes (n + 1) ?s2 (mark_found now node w3) = (st, s', w')"
        by (simp add: item gen t Some ask)
      from b adds_entries_mono [OF Cons.IH [OF this]] show ?thesis
        by (rule adds_entries_trans) auto
    next
      case False
      then show ?thesis using Cons.prems a by (auto simp: item gen t Some ask)
    qed
  qed
qed

lemma endgame_round_adds:
  "endgame_round E now timeout nodes s w = (ok, nodes', s', w') \<Longrightarrow>
   adds_entries (fst ` set nodes) s s' \<and> map fst nodes' = map fst nodes"
proof (induction nodes arbitrary: ok nodes' s s' w w')
  case Nil
  then show ?case by (simp add: adds_entries_refl)
next
  case (Cons item nodes)
  obtain d node req where item: "item = (d, node, req)" by (metis prod_cases3)
  show ?case
  proof (cases req)
    case True
    obtain ok1 n1 s1 w1 where r: "endgame_round E now timeout nodes s w = (ok1, n1, s1, w1)" by (metis prod_cases4)
    then show ?thesis
      using Cons.prems Cons.IH [OF r] True by (auto simp: item intro: adds_entries_mono)
  next
    case False
    obtain tid gen w1 where gen: "generate_id (lk_id_generator s) w = (tid, gen, w1)" by (metis prod_cases3)
    obtain sent s1 w2 where ask: "ask_node E tid (d, timeout) node (s\<lparr>lk_id_generator := gen\<rparr>) w1 = (sent, s1, w2)"
      by (metis prod_cases3)
    have a: "adds_entries (fst ` set (item # nodes)) s s1"
      using ask_node_adds [OF ask] by (rule adds_entries_mono) (simp add: item)
    obtain ok1 n1 s2 w3 where r: "endgame_round E now timeout nodes s1 (mark_found now node w2) = (ok1, n1, s2, w3)"
      by (metis prod_cases4)
    have "adds_entries (fst ` set (item # nodes)) s1 s2"
      using Cons.IH [OF r] by (auto intro: adds_entries_mono)
    with a have "adds_entries (fst ` set (item # nodes)) s s2" by (rule adds_entries_trans)
    then show ?thesis
      using Cons.prems Cons.IH [OF r] a False by (cases sent) (auto simp: item gen ask r)
  qed
qed

lemma lookup_ok_adds:
  assumes "lookup_ok s" "adds_entries ds s s'" "\<And>d. d \<in> ds \<Longrightarrow> length d = length (lk_target_id s)"
  shows "lookup_ok s'"
  using assms unfolding lookup_ok_def adds_entries_def by fastforce

lemma start_endgame_ok:
  assumes "start_endgame_round E now s w = (st, s', w')" "lookup_ok s"
  shows "lookup_ok s' \<and> lk_in_endgame s'"
proof -
  let ?s = "s\<lparr>lk_in_endgame := True\<rparr>"
  obtain tid gen w1 where gen: "generate_id (lk_id_generator s) w = (tid, gen, w1)" by (metis prod_cases3)
  obtain ot w2 where t: "set_timeout (env_loop E) (0, CheckLookupEndGame tid) ENDGAME_TIMEOUT_MS w1 = (ot, w2)" by fastforce
  let ?g = "?s\<lparr>lk_id_generator := gen\<rparr>"
  have ok: "lookup_ok ?g" using assms(2) by (simp add: lookup_ok_def)
  show ?thesis
  proof (cases "ot = None \<or> lk_recv_values s")
    case True
    then show ?thesis using assms(1) ok by (auto simp: start_endgame_round_def Let_def gen t split: option.splits)
  next
    case False
    then obtain timeout where ot: "ot = Some timeout" by auto
    obtain k ns s2 w3 where r: "endgame_round E now timeout (lk_all_sorted_nodes s) ?g w2 = (k, ns, s2, w3)"
      by (metis prod_cases4)
    note adds = endgame_round_adds [OF r]
    have "lookup_ok s2"
      using adds ok assms(2) by (intro lookup_ok_adds [OF ok conjunct1 [OF adds]]) (auto simp: lookup_ok_def)
    moreover have "set (map fst ns) = set (map fst (lk_all_sorted_nodes s))" using adds by simp
    then have "\<forall>d \<in> fst ` set ns. length d = length (lk_target_id s)" using assms(2) by (auto simp: lookup_ok_def)
    ultimately have "lookup_ok (s2\<lparr>lk_all_sorted_nodes := ns\<rparr>) \<and> lk_in_endgame s2"
      using adds by (simp add: lookup_ok_def adds_entries_def)
    then show ?thesis using assms(1) False by (auto simp: start_endgame_round_def Let_def gen t ot r)
  qed
qed

text \<open>
  The search goes on with entries from \<open>ds\<close>, or enters the endgame.
\<close>

definition goes_on :: "Distance set \<Rightarrow> 't TableLookup \<Rightarrow> 't TableLookup \<Rightarrow> bool" where
  "goes_on ds s s' \<longleftrightarrow> lookup_ok s' \<and>
     (\<not> lk_in_endgame s \<and> lk_in_endgame s' \<or>
      lk_in_endgame s' = lk_in_endgame s \<and>
      (\<forall>k v. lk_active_lookups s' k = Some v \<longrightarrow> lk_active_lookups s k = Some v \<or> fst v \<in> ds))"

lemma goes_on_refl: "lookup_ok s \<Longrightarrow> goes_on ds s s"
  by (simp add: goes_on_def)

lemma check_endgame_goes_on:
  assumes "check_endgame E now s' w = (st, s'', w')" "\<not> lk_in_endgame s" "adds_entries ds s s'" "lookup_ok s'"
  shows "goes_on ds s s''"
proof (cases "lk_active_lookups s' = Map.empty")
  case True
  then show ?thesis
    using assms start_endgame_ok [of E now s' w st s'' w'] by (simp add: check_endgame_def goes_on_def)
next
  case False
  then show ?thesis using assms by (auto simp: check_endgame_def goes_on_def adds_entries_def)
qed

lemma continue_search_goes_on:
  assumes "continue_search E now opt nd s w = (st, s', w')" "lookup_ok s" "length nd = length (lk_target_id s)"
  shows "goes_on (if opt = None then {} else {nd}) s s'"
proof (cases "lk_in_endgame s")
  case True
  then show ?thesis using assms goes_on_refl [OF assms(2)] by (simp add: continue_search_def)
next
  case False
  show ?thesis
  proof (cases opt)
    case None
    then show ?thesis
      using assms False check_endgame_goes_on [OF _ False adds_entries_refl assms(2)] by (simp add: continue_search_def)
  next
    case (Some nodes)
    let ?ns = "map (\<lambda>(n, _). (n, nd)) (filter snd nodes)"
    obtain st1 s1 w1 where r: "start_request_round E now ?ns s w = (st1, s1, w1)" by (metis prod_cases3)
    have "snd ` set ?ns \<subseteq> {nd}" by auto
    then have adds: "adds_entries {nd} s s1"
      using adds_entries_mono [OF request_round_adds [OF r [unfolded start_request_round_def]]] by blast
    have ok: "lookup_ok s1" using lookup_ok_adds [OF assms(2) adds] assms(3) by simp
    show ?thesis
    proof (cases "st1 = Failed")
      case True
      then show ?thesis
        using assms(1) False Some r adds ok by (auto simp: continue_search_def goes_on_def adds_entries_def)
    next
      case f: False
      then have "check_endgame E now s1 w1 = (st, s', w')" using assms(1) False Some r by (simp add: continue_search_def)
      from check_endgame_goes_on [OF this False adds ok] Some show ?thesis by simp
    qed
  qed
qed

lemma iterate_nodes_frame:
  assumes "iterate_nodes E now nodes d s = (opt, nd, s')" "lookup_ok s" "length d = length (lk_target_id s)"
  shows "lookup_ok s' \<and> lk_active_lookups s' = lk_active_lookups s \<and> lk_in_endgame s' = lk_in_endgame s \<and>
    lk_target_id s' = lk_target_id s \<and> length nd = length (lk_target_id s) \<and> (opt \<noteq> None \<longrightarrow> nd < d)"
proof -
  define unasked where "unasked = filter (\<lambda>info. node_key (v4_node now info) \<notin> lk_requested_nodes s) nodes"
  have nd: "nd = closer (lk_target_id s) unasked d"
    using assms(1) by (auto simp: iterate_nodes_def Let_def unasked_def split: if_splits)
  have "length nd = length (lk_target_id s)" using closer_in [of "lk_target_id s" unasked d] assms(3) nd by auto
  moreover have "lookup_ok (s\<lparr>lk_all_sorted_nodes :=
      push_nodes (env_search E) now (lk_target_id s) p nodes (lk_all_sorted_nodes s)\<rparr>)" for p
    using assms(2) push_nodes_length [of "lk_all_sorted_nodes s" "lk_target_id s"] by (simp add: lookup_ok_def)
  ultimately show ?thesis
    using assms(1) by (auto simp: iterate_nodes_def Let_def unasked_def [symmetric] split: if_splits)
qed

text \<open>How an answer that was asked for is processed.\<close>

definition took_entry :: "TransactionID \<Rightarrow> 't TableLookup \<Rightarrow> 't TableLookup \<Rightarrow> bool" where
  "took_entry tid s s' \<longleftrightarrow>
     lk_active_lookups s' = (lk_active_lookups s)(tid := None) \<and> lk_in_endgame s' = lk_in_endgame s \<and>
     lk_target_id s' = lk_target_id s \<and> lk_all_sorted_nodes s' = lk_all_sorted_nodes s \<and>
     lk_requested_nodes s' = lk_requested_nodes s \<and> lk_id_generator s' = lk_id_generator s"

lemma recv_response_elim:
  assumes "recv_response E now node tid msg s w = (Ok st, s', w')" "lk_active_lookups s tid = Some (d, t)"
  obtains s1 opt nd s2 st2 where "took_entry tid s s1"
    "(\<exists>nodes. iterate_nodes E now nodes d s1 = (opt, nd, s2)) \<or> (opt = None \<and> nd = d \<and> s2 = s1)"
    "continue_search E now opt nd s2 (if lk_in_endgame s then w else w\<lparr>w_loop := clear_timeout (env_loop E) t (w_loop w)\<rparr>) =
       (st2, s', w')"
    "st2 = Failed \<longrightarrow> st = Failed"
proof -
  define s0 where "s0 = s\<lparr>lk_active_lookups := (lk_active_lookups s)(tid := None)\<rparr>"
  define s1 where "s1 = (case gp_token msg of
     Some token \<Rightarrow> s0\<lparr>lk_announce_tokens := (lk_announce_tokens s0)(node_key node \<mapsto> token)\<rparr> | None \<Rightarrow> s0)"
  obtain rv ov on where parts: "response_parts (env_bytes_of E) (gp_info_type msg) = Ok (rv, ov, on)"
    using assms by (auto simp: recv_response_def Let_def split: res.splits)
  define s2 where "s2 = s1\<lparr>lk_recv_values := lk_recv_values s1 \<or> rv\<rparr>"
  have "took_entry tid s s2"
    by (auto simp: took_entry_def s2_def s1_def s0_def split: option.splits)
  moreover obtain opt nd s3 where it: "(case on of Some nodes \<Rightarrow> iterate_nodes E now nodes d s2 | None \<Rightarrow> (None, d, s2)) = (opt, nd, s3)"
    by (metis prod_cases3)
  then have "(\<exists>nodes. iterate_nodes E now nodes d s2 = (opt, nd, s3)) \<or> (opt = None \<and> nd = d \<and> s3 = s2)"
    by (auto split: option.splits)
  moreover obtain st2 s4 w4 where
    cs: "continue_search E now opt nd s3 (if lk_in_endgame s then w else w\<lparr>w_loop := clear_timeout (env_loop E) t (w_loop w)\<rparr>) = (st2, s4, w4)"
    by (metis prod_cases3)
  moreover have "lk_in_endgame s0 = lk_in_endgame s" by (simp add: s0_def)
  then have "recv_response E now node tid msg s w =
      (Ok (if st2 = Failed then Failed else case ov of Some values \<Rightarrow> Values values | None \<Rightarrow> current_lookup_status s4), s4, w4)"
    by (simp only: recv_response_def assms(2) option.case prod.case Let_def s0_def [symmetric] s1_def [symmetric] parts res.case
        s2_def [symmetric] it cs)
  then have "s4 = s' \<and> w4 = w' \<and> (st2 = Failed \<longrightarrow> st = Failed)" using assms(1) by (auto split: if_splits)
  ultimately show ?thesis using that by blast
qed

section \<open>Every search ends\<close>

text \<open>A response that was asked for, or the timeout of a request.\<close>

inductive lookup_step :: "('l, 't, 'v) Env \<Rightarrow> 't TableLookup \<Rightarrow> 't TableLookup \<Rightarrow> bool" for E where
  response: "lk_active_lookups s tid \<noteq> None \<Longrightarrow> recv_response E now node tid msg s w = (Ok st, s', w') \<Longrightarrow> lookup_step E s s'"
| timeout: "lk_active_lookups s tid \<noteq> None \<Longrightarrow> recv_timeout E now tid s w = (st, s', w') \<Longrightarrow> lookup_step E s s'"

text \<open>
  A response takes its request away and brings requests that have to beat a smaller distance.
\<close>

definition active_dists :: "'t TableLookup \<Rightarrow> Distance multiset" where
  "active_dists s = image_mset (\<lambda>k. fst (the (lk_active_lookups s k))) (mset_set (dom (lk_active_lookups s)))"

definition dist_less :: "(Distance \<times> Distance) set" where
  "dist_less = lex {(a, b). a < b}"

lemma dist_lessI: "a < b \<Longrightarrow> length a = length b \<Longrightarrow> (a, b) \<in> dist_less"
  by (simp add: dist_less_def lexord_lex list_less_def)

lemma wf_dist_less: "wf dist_less"
  unfolding dist_less_def by (rule wf_lex) (rule wf)

lemma active_dists_decrease:
  assumes "finite (dom (lk_active_lookups s))" "finite (dom (lk_active_lookups s'))" "lk_active_lookups s tid = Some (d, t)"
    "\<And>k v. lk_active_lookups s' k = Some v \<Longrightarrow> lk_active_lookups s k = Some v \<and> k \<noteq> tid \<or> (fst v, d) \<in> dist_less"
  shows "(active_dists s', active_dists s) \<in> mult dist_less"
proof -
  let ?A = "lk_active_lookups s" and ?B = "lk_active_lookups s'"
  define K where "K = {k \<in> dom ?B. ?B k = ?A k \<and> k \<noteq> tid}"
  let ?I = "image_mset (\<lambda>k. fst (the (?A k))) (mset_set K)"
  let ?J = "image_mset (\<lambda>k. fst (the (?A k))) (mset_set (dom ?A - K))"
  let ?N = "image_mset (\<lambda>k. fst (the (?B k))) (mset_set (dom ?B - K))"
  have KA: "K \<subseteq> dom ?A" "K \<subseteq> dom ?B" by (auto simp: K_def dom_def)
  have split_set: "mset_set X = mset_set K + mset_set (X - K)" if "finite X" "K \<subseteq> X" for X
    using mset_set_Union [of K "X - K"] that by (simp add: finite_subset Un_absorb1 Un_Diff_cancel)
  have "active_dists s = ?I + ?J"
    using split_set [OF assms(1) KA(1)] by (simp add: active_dists_def)
  moreover have "image_mset (\<lambda>k. fst (the (?B k))) (mset_set K) = ?I"
    using KA(2) assms(2) by (intro image_mset_cong) (auto simp: K_def finite_subset)
  then have "active_dists s' = ?I + ?N"
    using split_set [OF assms(2) KA(2)] by (simp add: active_dists_def)
  moreover have "d \<in># ?J" using assms(1,3) by (force simp: K_def)
  moreover have "\<forall>x \<in> set_mset ?N. (x, d) \<in> dist_less"
  proof
    fix x assume "x \<in># ?N"
    then obtain k v where "?B k = Some v" "k \<notin> K" "x = fst v" using assms(2) by auto
    then show "(x, d) \<in> dist_less" using assms(4) [of k v] by (auto simp: K_def dom_def)
  qed
  ultimately show ?thesis using one_step_implies_mult [of ?J ?N dist_less ?I] by fastforce
qed

definition lookup_order :: "((nat \<times> Distance multiset) \<times> nat \<times> Distance multiset) set" where
  "lookup_order = less_than <*lex*> mult dist_less"

definition lookup_measure :: "'t TableLookup \<Rightarrow> nat \<times> Distance multiset" where
  "lookup_measure s = (if lk_in_endgame s then 0 else 1, active_dists s)"

lemma goes_on_decreases:
  assumes "lk_active_lookups s tid = Some (d, t)" "lookup_ok s" "lk_active_lookups s1 = (lk_active_lookups s)(tid := None)"
    "lk_in_endgame s1 = lk_in_endgame s" "goes_on ds s1 s'" "\<And>x. x \<in> ds \<Longrightarrow> (x, d) \<in> dist_less"
  shows "lookup_ok s' \<and> (lookup_measure s', lookup_measure s) \<in> lookup_order"
proof (cases "lk_in_endgame s' = lk_in_endgame s")
  case True
  have "(active_dists s', active_dists s) \<in> mult dist_less"
  proof (rule active_dists_decrease [OF _ _ assms(1)])
    show "lk_active_lookups s k = Some v \<and> k \<noteq> tid \<or> (fst v, d) \<in> dist_less" if "lk_active_lookups s' k = Some v" for k v
    proof -
      have "lk_active_lookups s1 k = Some v \<or> fst v \<in> ds" using that True assms(4,5) unfolding goes_on_def by blast
      then show ?thesis using assms(3,6) by (auto split: if_splits)
    qed
  qed (use assms in \<open>auto simp: goes_on_def lookup_ok_def\<close>)
  then show ?thesis using True assms(5) by (simp add: lookup_order_def lookup_measure_def goes_on_def)
next
  case False
  then show ?thesis using assms(4,5) by (auto simp: lookup_order_def lookup_measure_def goes_on_def)
qed

lemma took_entry_ok: "took_entry tid s s1 \<Longrightarrow> lookup_ok s \<Longrightarrow> lookup_ok s1"
  by (auto simp: took_entry_def lookup_ok_def split: if_splits)

lemma lookup_step_decreases:
  assumes "lookup_step E s s'" "lookup_ok s"
  shows "lookup_ok s' \<and> (lookup_measure s', lookup_measure s) \<in> lookup_order"
  using assms(1)
proof cases
  case (response tid now node msg w st w')
  from response(1) obtain d t where a: "lk_active_lookups s tid = Some (d, t)" by force
  then have len: "length d = length (lk_target_id s)" using assms(2) by (auto simp: lookup_ok_def)
  obtain s1 opt nd s2 st2 where el: "took_entry tid s s1"
    "(\<exists>nodes. iterate_nodes E now nodes d s1 = (opt, nd, s2)) \<or> (opt = None \<and> nd = d \<and> s2 = s1)"
    "continue_search E now opt nd s2 (if lk_in_endgame s then w else w\<lparr>w_loop := clear_timeout (env_loop E) t (w_loop w)\<rparr>) =
       (st2, s', w')" "st2 = Failed \<longrightarrow> st = Failed"
    by (rule recv_response_elim [OF response(2) a])
  note ok1 = took_entry_ok [OF el(1) assms(2)]
  have len1: "length d = length (lk_target_id s1)" using len el(1) by (simp add: took_entry_def)
  have it: "lookup_ok s2 \<and> lk_active_lookups s2 = lk_active_lookups s1 \<and> lk_in_endgame s2 = lk_in_endgame s1 \<and>
    lk_target_id s2 = lk_target_id s1 \<and> length nd = length (lk_target_id s1) \<and> (opt \<noteq> None \<longrightarrow> nd < d)"
    using el(2)
  proof (elim disjE exE)
    fix nodes assume "iterate_nodes E now nodes d s1 = (opt, nd, s2)"
    from iterate_nodes_frame [OF this ok1 len1] show ?thesis .
  qed (use ok1 len1 in simp)
  have go: "goes_on (if opt = None then {} else {nd}) s2 s'"
    using continue_search_goes_on [OF el(3)] it by simp
  have "(nd, d) \<in> dist_less" if "opt \<noteq> None" using that it len el(1) by (simp add: dist_lessI took_entry_def)
  then have less: "x \<in> (if opt = None then {} else {nd}) \<Longrightarrow> (x, d) \<in> dist_less" for x by (auto split: if_splits)
  show ?thesis
    by (rule goes_on_decreases [OF a assms(2) _ _ go less]) (use it el(1) in \<open>simp_all add: took_entry_def\<close>)
next
  case (timeout tid now w st w')
  from timeout(1) obtain d t where a: "lk_active_lookups s tid = Some (d, t)" by force
  let ?s1 = "s\<lparr>lk_active_lookups := (lk_active_lookups s)(tid := None)\<rparr>"
  have ok1: "lookup_ok ?s1" by (rule took_entry_ok [OF _ assms(2)]) (simp add: took_entry_def)
  have "goes_on {} ?s1 s'"
  proof (cases "lk_in_endgame s")
    case True
    then show ?thesis using timeout a goes_on_refl [OF ok1] by (auto simp: recv_timeout_def Let_def)
  next
    case False
    obtain st2 s2 w2 where ce: "check_endgame E now ?s1 w = (st2, s2, w2)" by (metis prod_cases3)
    then have "s2 = s'" using timeout a False by (simp add: recv_timeout_def Let_def)
    then show ?thesis using check_endgame_goes_on [OF ce _ adds_entries_refl ok1] False by simp
  qed
  from goes_on_decreases [OF a assms(2) _ _ this] show ?thesis by simp
qed

lemma wf_lookup_order: "wf lookup_order"
  unfolding lookup_order_def by (intro wf_lex_prod wf_less_than wf_mult wf_dist_less)

section \<open>The timers of a lookup\<close>

definition timed :: "('l \<Rightarrow> 't \<rightharpoonup> ScheduledTask) \<Rightarrow> ActionID \<Rightarrow> 't TableLookup \<Rightarrow> 'l World \<Rightarrow> bool" where
  "timed pending a s w \<longleftrightarrow> gen_ok a (lk_id_generator s) \<and>
     (\<forall>tid d t. lk_active_lookups s tid = Some (d, t) \<longrightarrow>
        pending (w_loop w) t = Some (CheckLookupTimeout tid) \<and> TransactionID_action_id tid = a)"

lemma ask_node_frame:
  "ask_node E tid (d, t) node s w = (sent, s', w') \<Longrightarrow>
   lk_active_lookups s' = (lk_active_lookups s)(tid \<mapsto> (d, t)) \<and> lk_id_generator s' = lk_id_generator s \<and> w_loop w' = w_loop w"
  by (auto simp: ask_node_def Let_def send_to_def split: prod.splits)

lemma request_round_timed:
  assumes "timer_laws (env_loop E) pending"
  shows "timed pending a s w \<Longrightarrow> request_round E now nodes n s w = (st, s', w') \<Longrightarrow> timed pending a s' w'"
proof (induction nodes arbitrary: n s w)
  case Nil
  then show ?case by (auto simp: timed_def split: if_splits)
next
  case (Cons item nodes)
  obtain node d where item: "item = (node, d)" by (cases item)
  obtain tid gen w1 where gen: "generate_id (lk_id_generator s) w = (tid, gen, w1)" by (metis prod_cases3)
  have g: "gen_ok a gen" "TransactionID_action_id tid = a" "w_loop w1 = w_loop w"
    using generate_id_ok [OF _ gen] Cons.prems(1) by (auto simp: timed_def)
  obtain ot w2 where t: "set_timeout (env_loop E) (0, CheckLookupTimeout tid) LOOKUP_TIMEOUT_MS w1 = (ot, w2)" by fastforce
  note pend = set_timeout_pending [OF assms t, unfolded g(3)]
  show ?case
  proof (cases ot)
    case None
    then show ?thesis using Cons.prems g pend by (auto simp: item gen t timed_def)
  next
    case (Some timeout)
    obtain sent s1 w3 where ask: "ask_node E tid (d, timeout) node (s\<lparr>lk_id_generator := gen\<rparr>) w2 = (sent, s1, w3)"
      by (metis prod_cases3)
    have "pending (w_loop w) timeout = None" "pending (w_loop w2) = (pending (w_loop w))(timeout \<mapsto> CheckLookupTimeout tid)"
      using pend Some by auto
    then have td: "timed pending a s1 w3"
      using Cons.prems(1) ask_node_frame [OF ask] g(1,2) by (auto simp: timed_def)
    show ?thesis
    proof (cases sent)
      case True
      with Cons.prems(2) have r: "request_round E now nodes (n + 1)
          (s1\<lparr>lk_requested_nodes := insert (node_key node) (lk_requested_nodes s1)\<rparr>) (mark_found now node w3) = (st, s', w')"
        by (simp add: item gen t Some ask)
      have "timed pending a (s1\<lparr>lk_requested_nodes := insert (node_key node) (lk_requested_nodes s1)\<rparr>) (mark_found now node w3)"
        using td by (simp add: timed_def)
      then show ?thesis using r by (rule Cons.IH)
    next
      case False
      then show ?thesis using Cons.prems(2) td by (simp add: item gen t Some ask)
    qed
  qed
qed

lemma endgame_round_loop:
  "endgame_round E now timeout nodes s w = (ok, nodes', s', w') \<Longrightarrow> gen_ok a (lk_id_generator s) \<Longrightarrow>
   \<forall>tid v. lk_active_lookups s tid = Some v \<longrightarrow> TransactionID_action_id tid = a \<Longrightarrow>
   w_loop w' = w_loop w \<and> gen_ok a (lk_id_generator s') \<and>
   (\<forall>tid v. lk_active_lookups s' tid = Some v \<longrightarrow> TransactionID_action_id tid = a)"
proof (induction nodes arbitrary: ok nodes' s s' w w')
  case (Cons item nodes)
  obtain d node req where item: "item = (d, node, req)" by (metis prod_cases3)
  show ?case
  proof (cases req)
    case True
    obtain ok1 n1 s1 w1 where r: "endgame_round E now timeout nodes s w = (ok1, n1, s1, w1)" by (metis prod_cases4)
    then have "s' = s1 \<and> w' = w1" using Cons.prems(1) True by (simp add: item)
    then show ?thesis using Cons.IH [OF r Cons.prems(2,3)] by simp
  next
    case False
    obtain tid gen w1 where gen: "generate_id (lk_id_generator s) w = (tid, gen, w1)" by (metis prod_cases3)
    note g = generate_id_ok [OF Cons.prems(2) gen]
    obtain sent s1 w2 where ask: "ask_node E tid (d, timeout) node (s\<lparr>lk_id_generator := gen\<rparr>) w1 = (sent, s1, w2)"
      by (metis prod_cases3)
    have s1: "gen_ok a (lk_id_generator s1)" "w_loop w2 = w_loop w"
      "\<forall>tid v. lk_active_lookups s1 tid = Some v \<longrightarrow> TransactionID_action_id tid = a"
      using ask_node_frame [OF ask] g Cons.prems(3) by auto
    obtain ok1 n1 s2 w3 where r: "endgame_round E now timeout nodes s1 (mark_found now node w2) = (ok1, n1, s2, w3)"
      by (metis prod_cases4)
    have "s' = (if sent then s2 else s1) \<and> w' = (if sent then w3 else w2)"
      using Cons.prems(1) False by (simp add: item gen ask r split: if_splits)
    then show ?thesis using Cons.IH [OF r s1(1,3)] s1 by simp
  qed
qed simp

text \<open>
  A lookup that has not ended has timers that bring it forward: outside the endgame those of all
  its requests, of which there is one, and in the endgame its own.
\<close>

definition alive :: "('l \<Rightarrow> 't \<rightharpoonup> ScheduledTask) \<Rightarrow> ActionID \<Rightarrow> 't TableLookup \<Rightarrow> 'l World \<Rightarrow> bool" where
  "alive pending a s w \<longleftrightarrow>
     (if lk_in_endgame s
      then gen_ok a (lk_id_generator s) \<and>
        (\<exists>t tid. pending (w_loop w) t = Some (CheckLookupEndGame tid) \<and> TransactionID_action_id tid = a)
      else timed pending a s w \<and> lk_active_lookups s \<noteq> Map.empty)"

lemma start_endgame_alive:
  assumes "timer_laws (env_loop E) pending" "gen_ok a (lk_id_generator s)" "lk_active_lookups s = Map.empty"
    "start_endgame_round E now s w = (st, s', w')" "st \<noteq> Failed"
  shows "alive pending a s' w'"
proof -
  let ?s = "s\<lparr>lk_in_endgame := True\<rparr>"
  obtain tid gen w1 where gen: "generate_id (lk_id_generator s) w = (tid, gen, w1)" by (metis prod_cases3)
  obtain ot w2 where t: "set_timeout (env_loop E) (0, CheckLookupEndGame tid) ENDGAME_TIMEOUT_MS w1 = (ot, w2)" by fastforce
  let ?g = "?s\<lparr>lk_id_generator := gen\<rparr>"
  note g = generate_id_ok [OF assms(2) gen]
  from assms(4,5) obtain timeout where ot: "ot = Some timeout"
    by (cases ot) (auto simp: start_endgame_round_def Let_def gen t)
  have p: "pending (w_loop w2) timeout = Some (CheckLookupEndGame tid)"
    using set_timeout_pending [OF assms(1) t] ot by simp
  show ?thesis
  proof (cases "lk_recv_values s")
    case True
    then have "s' = ?g \<and> w' = w2" using assms(4) by (simp add: start_endgame_round_def Let_def gen t ot)
    then show ?thesis using p g by (auto simp: alive_def)
  next
    case False
    obtain k ns s2 w3 where r: "endgame_round E now timeout (lk_all_sorted_nodes s) ?g w2 = (k, ns, s2, w3)"
      by (metis prod_cases4)
    have fr: "w_loop w3 = w_loop w2 \<and> gen_ok a (lk_id_generator s2)"
      using endgame_round_loop [OF r, of a] g assms(3) by simp
    have "s' = s2\<lparr>lk_all_sorted_nodes := ns\<rparr> \<and> w' = w3"
      using assms(4) False by (simp add: start_endgame_round_def Let_def gen t ot r)
    moreover have "lk_in_endgame s2" using endgame_round_adds [OF r] by (simp add: adds_entries_def)
    ultimately show ?thesis using p g fr by (auto simp: alive_def)
  qed
qed

lemma check_endgame_alive:
  assumes "timer_laws (env_loop E) pending" "timed pending a s w" "\<not> lk_in_endgame s"
    "check_endgame E now s w = (st, s', w')" "st \<noteq> Failed"
  shows "alive pending a s' w'"
proof (cases "lk_active_lookups s = Map.empty")
  case True
  then show ?thesis
    using assms start_endgame_alive [OF assms(1) _ True, of a now w st s' w'] by (simp add: check_endgame_def timed_def)
next
  case False
  then show ?thesis using assms by (simp add: check_endgame_def alive_def)
qed

lemma continue_search_alive:
  assumes "timer_laws (env_loop E) pending" "lk_in_endgame s \<Longrightarrow> alive pending a s w"
    "\<not> lk_in_endgame s \<Longrightarrow> timed pending a s w" "continue_search E now opt nd s w = (st, s', w')" "st \<noteq> Failed"
  shows "alive pending a s' w'"
proof (cases "lk_in_endgame s")
  case True
  then show ?thesis using assms(2,4) by (simp add: continue_search_def)
next
  case False
  show ?thesis
  proof (cases opt)
    case None
    then show ?thesis
      using assms(4) False check_endgame_alive [OF assms(1,3) False _ assms(5)] by (simp add: continue_search_def)
  next
    case (Some nodes)
    let ?ns = "map (\<lambda>(n, _). (n, nd)) (filter snd nodes)"
    obtain st1 s1 w1 where r: "start_request_round E now ?ns s w = (st1, s1, w1)" by (metis prod_cases3)
    note rr = r [unfolded start_request_round_def]
    have "st1 \<noteq> Failed" using assms(4,5) False Some r by (auto simp: continue_search_def)
    then have "check_endgame E now s1 w1 = (st, s', w')" using assms(4) False Some r by (simp add: continue_search_def)
    moreover have "\<not> lk_in_endgame s1" using request_round_adds [OF rr] False by (simp add: adds_entries_def)
    ultimately show ?thesis
      using check_endgame_alive [OF assms(1) request_round_timed [OF assms(1) assms(3) [OF False] rr] _ _ assms(5)] by blast
  qed
qed

lemma iterate_nodes_timed:
  "iterate_nodes E now nodes d s = (opt, nd, s') \<Longrightarrow>
   (timed pending a s' w \<longleftrightarrow> timed pending a s w) \<and> lk_in_endgame s' = lk_in_endgame s \<and> lk_id_generator s' = lk_id_generator s"
  by (auto simp: iterate_nodes_def Let_def timed_def split: if_splits)

text \<open>Taking a request off the list and its timer off the loop leaves the other requests with theirs.\<close>

lemma timed_remove:
  assumes "timed pending a s w" "lk_active_lookups s1 = (lk_active_lookups s)(tid := None)"
    "lk_id_generator s1 = lk_id_generator s" "pending (w_loop w) t = Some (CheckLookupTimeout tid)"
    "pending (w_loop w1) = (pending (w_loop w))(t := None)"
  shows "timed pending a s1 w1"
  using assms by (auto simp: timed_def)

lemma recv_response_alive:
  assumes "timer_laws (env_loop E) pending" "alive pending a s w"
    "recv_response E now node tid msg s w = (Ok st, s', w')" "st \<noteq> Failed"
  shows "alive pending a s' w'"
proof (cases "lk_active_lookups s tid")
  case None
  then show ?thesis using assms(2,3) by (simp add: recv_response_def)
next
  case (Some v)
  then obtain d t where a: "lk_active_lookups s tid = Some (d, t)" by (cases v) auto
  let ?w = "if lk_in_endgame s then w else w\<lparr>w_loop := clear_timeout (env_loop E) t (w_loop w)\<rparr>"
  obtain s1 opt nd s2 st2 where el: "took_entry tid s s1"
    "(\<exists>nodes. iterate_nodes E now nodes d s1 = (opt, nd, s2)) \<or> (opt = None \<and> nd = d \<and> s2 = s1)"
    "continue_search E now opt nd s2 ?w = (st2, s', w')" "st2 = Failed \<longrightarrow> st = Failed"
    by (rule recv_response_elim [OF assms(3) a])
  have it: "(timed pending a s2 ?w \<longleftrightarrow> timed pending a s1 ?w) \<and> lk_in_endgame s2 = lk_in_endgame s1 \<and>
      lk_id_generator s2 = lk_id_generator s1"
    using el(2)
  proof (elim disjE exE)
    fix nodes assume "iterate_nodes E now nodes d s1 = (opt, nd, s2)"
    from iterate_nodes_timed [OF this] show ?thesis .
  qed simp
  show ?thesis
  proof (rule continue_search_alive [OF assms(1) _ _ el(3)])
    assume "lk_in_endgame s2"
    then show "alive pending a s2 ?w" using it el(1) assms(2) by (auto simp: alive_def took_entry_def)
  next
    assume n: "\<not> lk_in_endgame s2"
    then have ns: "\<not> lk_in_endgame s" using it el(1) by (simp add: took_entry_def)
    then have td: "timed pending a s w" using assms(2) by (simp add: alive_def)
    have "timed pending a s1 ?w"
      using el(1) a assms(1) td ns
      by (intro timed_remove [OF td, of s1 tid t]) (simp_all add: took_entry_def timer_laws_def timed_def)
    then show "timed pending a s2 ?w" using it by simp
  qed (use el(4) assms(4) in blast)
qed

lemma recv_timeout_alive:
  assumes "timer_laws (env_loop E) pending" "alive pending a s w" "pending (w_loop w) t = Some (CheckLookupTimeout tid)"
    "pending l = (pending (w_loop w))(t := None)" "recv_timeout E now tid s (w\<lparr>w_loop := l\<rparr>) = (st, s', w')" "st \<noteq> Failed"
  shows "alive pending a s' w'"
proof -
  let ?w = "w\<lparr>w_loop := l\<rparr>" and ?s = "s\<lparr>lk_active_lookups := (lk_active_lookups s)(tid := None)\<rparr>"
  have eg: "alive pending a s ?w" if "lk_in_endgame s"
  proof -
    from that assms(2) obtain t' tid' where "pending (w_loop w) t' = Some (CheckLookupEndGame tid')" "TransactionID_action_id tid' = a"
      and g: "gen_ok a (lk_id_generator s)" by (auto simp: alive_def)
    then have "pending (w_loop ?w) t' = Some (CheckLookupEndGame tid')" using assms(3,4) by auto
    then show ?thesis using that g \<open>TransactionID_action_id tid' = a\<close> by (auto simp: alive_def)
  qed
  have td: "timed pending a ?s ?w" if "\<not> lk_in_endgame s"
    using that assms(2-4) by (intro timed_remove [of pending a s w ?s tid t]) (simp_all add: alive_def)
  show ?thesis
  proof (cases "lk_active_lookups s tid = None")
    case True
    then have st: "s' = s \<and> w' = ?w" using assms(5) by (simp add: recv_timeout_def)
    have "?s = s" using True by (simp add: fun_upd_idem)
    then show ?thesis using st eg td assms(2) by (cases "lk_in_endgame s") (auto simp: alive_def)
  next
    case act: False
    show ?thesis
    proof (cases "lk_in_endgame s")
      case True
      then have "s' = ?s \<and> w' = ?w" using assms(5) act by (simp add: recv_timeout_def Let_def)
      then show ?thesis using eg [OF True] True by (simp add: alive_def)
    next
      case False
      obtain st2 s2 w2 where ce: "check_endgame E now ?s ?w = (st2, s2, w2)" by (metis prod_cases3)
      then have "s2 = s' \<and> w2 = w' \<and> st2 \<noteq> Failed"
        using assms(5,6) act False by (auto simp: recv_timeout_def Let_def split: if_splits)
      then show ?thesis using check_endgame_alive [OF assms(1) td _ ce] False by simp
    qed
  qed
qed

text \<open>
  The life of a lookup: it starts with at least one request; then there are answers to any request
  of any lookup, timers of its requests that go off, and other operations, which leave
  the timers of its action alone.
\<close>

inductive lookup_run ::
  "('l, 't, 'v) Env \<Rightarrow> ('l \<Rightarrow> 't \<rightharpoonup> ScheduledTask) \<Rightarrow> ActionID \<Rightarrow> 't TableLookup \<Rightarrow> 'l World \<Rightarrow> bool" for E pending a where
  started: "gen_ok a gen \<Longrightarrow> TableLookup_new E now table_id target_id gen will_announce w = (Some s, w') \<Longrightarrow>
    lk_active_lookups s \<noteq> Map.empty \<Longrightarrow> lookup_run E pending a s w'"
| answered: "lookup_run E pending a s w \<Longrightarrow> recv_response E now node tid msg s w = (Ok st, s', w') \<Longrightarrow> st \<noteq> Failed \<Longrightarrow>
    lookup_run E pending a s' w'"
| timed_out: "lookup_run E pending a s w \<Longrightarrow> pending (w_loop w) t = Some (CheckLookupTimeout tid) \<Longrightarrow>
    pending l = (pending (w_loop w))(t := None) \<Longrightarrow> recv_timeout E now tid s (w\<lparr>w_loop := l\<rparr>) = (st, s', w') \<Longrightarrow> st \<noteq> Failed \<Longrightarrow>
    lookup_run E pending a s' w'"
| elsewhere: "lookup_run E pending a s w \<Longrightarrow>
    (\<And>t task. pending (w_loop w) t = Some task \<Longrightarrow> task_action task = a \<Longrightarrow> pending (w_loop w') t = Some task) \<Longrightarrow>
    lookup_run E pending a s w'"

lemma new_alive:
  assumes "timer_laws (env_loop E) pending" "gen_ok a gen"
    "TableLookup_new E now table_id target_id gen will_announce w = (Some s, w')" "lk_active_lookups s \<noteq> Map.empty"
  shows "alive pending a s w'"
proof -
  from assms(3) obtain nodes s0 st where s0: "start_request_round E now nodes s0 w = (st, s, w')"
    "lk_active_lookups s0 = Map.empty" "lk_id_generator s0 = gen" "\<not> lk_in_endgame s0"
    by (auto simp: TableLookup_new_def Let_def split: prod.splits if_splits)
  note rr = s0(1) [unfolded start_request_round_def]
  have "timed pending a s0 w" using assms(2) s0(2,3) by (simp add: timed_def)
  from request_round_timed [OF assms(1) this rr] request_round_adds [OF rr] s0(4) assms(4)
  show ?thesis by (simp add: alive_def adds_entries_def)
qed

lemma alive_elsewhere:
  assumes "alive pending a s w"
    "\<And>t task. pending (w_loop w) t = Some task \<Longrightarrow> task_action task = a \<Longrightarrow> pending (w_loop w') t = Some task"
  shows "alive pending a s w'"
proof (cases "lk_in_endgame s")
  case True
  with assms(1) obtain t tid where "pending (w_loop w) t = Some (CheckLookupEndGame tid)" "TransactionID_action_id tid = a"
    by (auto simp: alive_def)
  with assms(2) [of t "CheckLookupEndGame tid"] have "pending (w_loop w') t = Some (CheckLookupEndGame tid)" by simp
  then show ?thesis using assms(1) True \<open>TransactionID_action_id tid = a\<close> by (auto simp: alive_def)
next
  case False
  have "pending (w_loop w') t = Some (CheckLookupTimeout tid)" if "lk_active_lookups s tid = Some (d, t)" for tid d t
    using that assms(1) False assms(2) [of t "CheckLookupTimeout tid"] by (simp add: alive_def timed_def)
  then show ?thesis using assms(1) False by (simp add: alive_def timed_def)
qed

lemma run_alive:
  assumes "timer_laws (env_loop E) pending"
  shows "lookup_run E pending a s w \<Longrightarrow> alive pending a s w"
proof (induction rule: lookup_run.induct)
  case (started gen now table_id target_id will_announce w s w')
  then show ?case by (rule new_alive [OF assms])
next
  case (answered s w now node tid msg st s' w')
  from recv_response_alive [OF assms answered(4,2,3)] show ?case .
next
  case (timed_out s w t tid l now st s' w')
  from recv_timeout_alive [OF assms timed_out(6,2-5)] show ?case .
next
  case (elsewhere s w w')
  from alive_elsewhere [OF elsewhere(3,2)] show ?case .
qed

section \<open>The list of nodes stays sorted\<close>

lemma endgame_round_nodes:
  "endgame_round E now timeout nodes s w = (ok, nodes', s', w') \<Longrightarrow>
   map (\<lambda>(d, n, _). (d, n)) nodes' = map (\<lambda>(d, n, _). (d, n)) nodes \<and> lk_requested_nodes s' = lk_requested_nodes s"
proof (induction nodes arbitrary: ok nodes' s s' w w')
  case (Cons item nodes)
  obtain d node req where item: "item = (d, node, req)" by (metis prod_cases3)
  show ?case
  proof (cases req)
    case True
    obtain ok1 n1 s1 w1 where r: "endgame_round E now timeout nodes s w = (ok1, n1, s1, w1)" by (metis prod_cases4)
    then have "s' = s1 \<and> nodes' = item # n1" using Cons.prems(1) True by (simp add: item)
    then show ?thesis using Cons.IH [OF r] by (simp add: item)
  next
    case False
    obtain tid gen w1 where gen: "generate_id (lk_id_generator s) w = (tid, gen, w1)" by (metis prod_cases3)
    obtain sent s1 w2 where ask: "ask_node E tid (d, timeout) node (s\<lparr>lk_id_generator := gen\<rparr>) w1 = (sent, s1, w2)"
      by (metis prod_cases3)
    have req: "lk_requested_nodes s1 = lk_requested_nodes s" using ask by (auto simp: ask_node_def Let_def split: prod.splits)
    obtain ok1 n1 s2 w3 where r: "endgame_round E now timeout nodes s1 (mark_found now node w2) = (ok1, n1, s2, w3)"
      by (metis prod_cases4)
    have "s' = (if sent then s2 else s1) \<and> nodes' = (if sent then (d, node, True) # n1 else item # nodes)"
      using Cons.prems(1) False by (simp add: item gen ask r split: if_splits)
    then show ?thesis using Cons.IH [OF r] req by (simp add: item)
  qed
qed simp

lemma nodes_ok_flags: "map (\<lambda>(d, n, _). (d, n)) xs = map (\<lambda>(d, n, _). (d, n)) ys \<Longrightarrow> nodes_ok target xs = nodes_ok target ys"
proof -
  assume eq: "map (\<lambda>(d, n, _). (d, n)) xs = map (\<lambda>(d, n, _). (d, n)) ys"
  have "map fst zs = map fst (map (\<lambda>(d, n, _). (d, n)) zs)" for zs :: "(Distance \<times> Node \<times> bool) list" by (simp add: case_prod_unfold)
  moreover have "list_all (\<lambda>(d, n, _). d = sha_bitxor target (nd_id n)) zs =
      list_all (\<lambda>(d, n). d = sha_bitxor target (nd_id n)) (map (\<lambda>(d, n, _). (d, n)) zs)" for zs :: "(Distance \<times> Node \<times> bool) list"
    by (simp add: list.pred_map comp_def case_prod_unfold)
  ultimately show ?thesis using eq by (metis nodes_ok_def)
qed

text \<open>The nodes of a lookup, its target and its requested nodes, after each part of an operation.\<close>

definition sorted_lookup :: "'t TableLookup \<Rightarrow> bool" where
  "sorted_lookup s \<longleftrightarrow> nodes_ok (lk_target_id s) (lk_all_sorted_nodes s)"

lemma start_endgame_sorted:
  assumes "start_endgame_round E now s w = (st, s', w')"
  shows "sorted_lookup s' = sorted_lookup s \<and> lk_requested_nodes s' = lk_requested_nodes s"
proof -
  obtain tid gen w1 where gen: "generate_id (lk_id_generator s) w = (tid, gen, w1)" by (metis prod_cases3)
  obtain ot w2 where t: "set_timeout (env_loop E) (0, CheckLookupEndGame tid) ENDGAME_TIMEOUT_MS w1 = (ot, w2)" by fastforce
  let ?g = "s\<lparr>lk_in_endgame := True, lk_id_generator := gen\<rparr>"
  show ?thesis
  proof (cases "ot = None \<or> lk_recv_values s")
    case True
    then show ?thesis using assms by (auto simp: start_endgame_round_def Let_def gen t sorted_lookup_def split: option.splits)
  next
    case False
    then obtain timeout where ot: "ot = Some timeout" by auto
    obtain k ns s2 w3 where r: "endgame_round E now timeout (lk_all_sorted_nodes s) ?g w2 = (k, ns, s2, w3)"
      by (metis prod_cases4)
    have "s' = s2\<lparr>lk_all_sorted_nodes := ns\<rparr>" using assms False by (auto simp: start_endgame_round_def Let_def gen t ot r)
    then show ?thesis
      using endgame_round_nodes [OF r] endgame_round_adds [OF r] nodes_ok_flags [of ns "lk_all_sorted_nodes s"]
      by (simp add: sorted_lookup_def adds_entries_def)
  qed
qed

lemma check_endgame_sorted:
  "check_endgame E now s w = (st, s', w') \<Longrightarrow>
   sorted_lookup s' = sorted_lookup s \<and> lk_requested_nodes s' = lk_requested_nodes s"
  using start_endgame_sorted [of E now s w st s' w'] by (simp add: check_endgame_def split: if_splits)

lemma request_round_sorted: "request_round E now nodes n s w = (st, s', w') \<Longrightarrow> sorted_lookup s' = sorted_lookup s"
  using request_round_adds [of E now nodes n s w st s' w'] by (simp add: sorted_lookup_def adds_entries_def)

lemma continue_search_sorted:
  assumes "continue_search E now opt nd s w = (st, s', w')"
  shows "sorted_lookup s' = sorted_lookup s"
proof (cases "lk_in_endgame s \<or> opt = None")
  case True
  then show ?thesis using assms check_endgame_sorted [of E now s w] by (auto simp: continue_search_def split: if_splits)
next
  case False
  then obtain nodes where opt: "opt = Some nodes" by auto
  let ?ns = "map (\<lambda>(n, _). (n, nd)) (filter snd nodes)"
  obtain st1 s1 w1 where r: "start_request_round E now ?ns s w = (st1, s1, w1)" by (metis prod_cases3)
  have s1: "sorted_lookup s1 = sorted_lookup s" by (rule request_round_sorted [OF r [unfolded start_request_round_def]])
  show ?thesis
    using assms False opt r s1 check_endgame_sorted [of E now s1 w1 st s' w'] by (auto simp: continue_search_def split: if_splits)
qed

lemma iterate_nodes_sorted:
  assumes "search_laws (env_search E)" "iterate_nodes E now nodes d s = (opt, nd, s')" "sorted_lookup s"
  shows "sorted_lookup s'"
  using assms push_nodes_ok [OF assms(1)]
  by (auto simp: iterate_nodes_def Let_def sorted_lookup_def split: if_splits)

lemma recv_response_sorted:
  assumes "search_laws (env_search E)" "recv_response E now node tid msg s w = (Ok st, s', w')" "sorted_lookup s"
  shows "sorted_lookup s'"
proof (cases "lk_active_lookups s tid")
  case None
  then show ?thesis using assms(2,3) by (simp add: recv_response_def)
next
  case (Some v)
  then obtain d t where a: "lk_active_lookups s tid = Some (d, t)" by (cases v) auto
  obtain s1 opt nd s2 st2 where el: "took_entry tid s s1"
    "(\<exists>nodes. iterate_nodes E now nodes d s1 = (opt, nd, s2)) \<or> (opt = None \<and> nd = d \<and> s2 = s1)"
    "continue_search E now opt nd s2 (if lk_in_endgame s then w else w\<lparr>w_loop := clear_timeout (env_loop E) t (w_loop w)\<rparr>) =
       (st2, s', w')" "st2 = Failed \<longrightarrow> st = Failed"
    by (rule recv_response_elim [OF assms(2) a])
  have "sorted_lookup s1" using el(1) assms(3) by (simp add: took_entry_def sorted_lookup_def)
  then have "sorted_lookup s2" using el(2) iterate_nodes_sorted [OF assms(1)] by blast
  then show ?thesis using continue_search_sorted [OF el(3)] by simp
qed

lemma recv_timeout_sorted: "recv_timeout E now tid s w = (st, s', w') \<Longrightarrow> sorted_lookup s \<Longrightarrow> sorted_lookup s'"
  using check_endgame_sorted [of E now "s\<lparr>lk_active_lookups := (lk_active_lookups s)(tid := None)\<rparr>" w]
  by (auto simp: recv_timeout_def Let_def sorted_lookup_def split: if_splits prod.splits)

lemma new_sorted:
  assumes "search_laws (env_search E)" "TableLookup_new E now table_id target_id gen will_announce w = (Some s, w')"
  shows "sorted_lookup s"
proof -
  have ins: "nodes_ok target_id (fold (\<lambda>node nodes. insert_sorted_node (env_search E) target_id node False nodes) ns xs)"
    if "nodes_ok target_id xs" for ns xs
    using that by (induction ns arbitrary: xs) (simp_all add: insert_sorted_node_ok [OF assms(1)])
  have pick: "map (\<lambda>(d, n, _). (d, n)) (snd (pick_initial_nodes xs)) = map (\<lambda>(d, n, _). (d, n)) xs" for xs
    by (simp add: pick_initial_nodes_def Let_def case_prod_unfold comp_def take_map [symmetric] drop_map [symmetric])
  have "nodes_ok target_id []" by (simp add: nodes_ok_def)
  note ok = ins [OF this]
  let ?ns = "take MAX_BUCKET_SIZE (filter (\<lambda>n. status now n = Good) (closest_list now (closest_nodes target_id (w_table w))))"
  let ?xs = "fold (\<lambda>node nodes. insert_sorted_node (env_search E) target_id node False nodes) ?ns []"
  obtain picked srt where p: "pick_initial_nodes ?xs = (picked, srt)" by (cases "pick_initial_nodes ?xs")
  define s0 where "s0 = (\<lparr>lk_table_id = table_id, lk_target_id = target_id, lk_in_endgame = False, lk_recv_values = False,
    lk_id_generator = gen, lk_will_announce = will_announce, lk_active_lookups = Map.empty, lk_announce_tokens = Map.empty,
    lk_requested_nodes = {}, lk_all_sorted_nodes = srt\<rparr> :: 'b TableLookup)"
  let ?ps = "map (\<lambda>(node, _). (node, sha_bitxor (nd_id node) target_id)) (filter snd picked)"
  obtain st s1 w1 where r: "start_request_round E now ?ps s0 w = (st, s1, w1)" by (rule prod_cases3)
  have "TableLookup_new E now table_id target_id gen will_announce w = (if st \<noteq> Failed then Some s1 else None, w1)"
    by (simp only: TableLookup_new_def Let_def p prod.case s0_def [symmetric] r)
  then have "s1 = s" using assms(2) by (simp split: if_splits)
  moreover have "nodes_ok target_id srt" using nodes_ok_flags [OF pick [of ?xs], of target_id] ok [of ?ns] by (simp add: p)
  then have "sorted_lookup s0" by (simp add: sorted_lookup_def s0_def)
  ultimately show ?thesis using request_round_sorted [OF r [unfolded start_request_round_def]] by simp
qed

lemma run_sorted:
  assumes "search_laws (env_search E)"
  shows "lookup_run E pending a s w \<Longrightarrow> sorted_lookup s"
proof (induction rule: lookup_run.induct)
  case (started gen now table_id target_id will_announce w s w')
  from new_sorted [OF assms started(2)] show ?case .
next
  case (answered s w now node tid msg st s' w')
  from recv_response_sorted [OF assms answered(2,4)] show ?case .
next
  case (timed_out s w t tid l now st s' w')
  from recv_timeout_sorted [OF timed_out(4,6)] show ?case .
qed

end
