(* ===== verification/Dht_Lookup_Props.thy ===== *)
theory Dht_Lookup_Props
  imports Dht_Search
begin

text \<open>
  The properties of the lookup: every search ends and is never stuck, the closest node that was
  heard of is asked next, and the closest nodes are announced to.
\<close>

section \<open>Requests and announces\<close>

text \<open>Node \<open>node\<close> was sent a request of lookup \<open>s\<close>, and it is noted.\<close>

definition asked :: "('l, 't, 'v) Env \<Rightarrow> 't TableLookup \<Rightarrow> 'l World \<Rightarrow> Node \<Rightarrow> bool" where
  "asked E s w node \<longleftrightarrow> node_key node \<in> lk_requested_nodes s \<and>
     (\<exists>tid :: TransactionID. (GetPeersRequest_encode (env_ben E) (trans_id_bytes tid) (lk_table_id s) (lk_target_id s), nd_addr node)
        \<in> set (oc_sent (w_out w)))"

lemma request_round_asks:
  "request_round E now nodes n s w = (st, s', w') \<Longrightarrow> st \<noteq> Failed \<Longrightarrow>
   lk_table_id s' = lk_table_id s \<and> lk_target_id s' = lk_target_id s \<and> lk_requested_nodes s \<subseteq> lk_requested_nodes s' \<and>
   set (oc_sent (w_out w)) \<subseteq> set (oc_sent (w_out w')) \<and> (\<forall>node \<in> fst ` set nodes. asked E s' w' node) \<and>
   (nodes \<noteq> [] \<or> 0 < n \<and> lk_active_lookups s \<noteq> Map.empty \<longrightarrow> lk_active_lookups s' \<noteq> Map.empty)"
proof (induction nodes arbitrary: n s w)
  case Nil
  then show ?case by (auto split: if_splits)
next
  case (Cons item nodes)
  obtain node d where item: "item = (node, d)" by (cases item)
  obtain tid gen w1 where gen: "generate_id (lk_id_generator s) w = (tid, gen, w1)" by (rule prod_cases3)
  obtain ot w2 where t: "set_timeout (env_loop E) (0, CheckLookupTimeout tid) LOOKUP_TIMEOUT_MS w1 = (ot, w2)" by (rule prod.exhaust)
  from Cons.prems obtain timeout where ot: "ot = Some timeout" by (cases ot) (auto simp: item gen t)
  obtain sent s1 w3 where ask: "ask_node E tid (d, timeout) node (s\<lparr>lk_id_generator := gen\<rparr>) w2 = (sent, s1, w3)"
    by (rule prod_cases3)
  from Cons.prems have sent: "sent" by (cases sent) (auto simp: item gen t ot ask)
  let ?s2 = "s1\<lparr>lk_requested_nodes := insert (node_key node) (lk_requested_nodes s1)\<rparr>" and ?w = "mark_found now node w3"
  let ?msg = "GetPeersRequest_encode (env_ben E) (trans_id_bytes tid) (lk_table_id s) (lk_target_id s)"
  have s1: "lk_table_id s1 = lk_table_id s" "lk_target_id s1 = lk_target_id s" "lk_requested_nodes s1 = lk_requested_nodes s"
    "oc_sent (w_out w3) = oc_sent (w_out w) @ [(?msg, nd_addr node)]" "lk_active_lookups s1 \<noteq> Map.empty"
    using ask sent generate_id_frame [OF gen] set_timeout_out [OF t]
    by (auto simp: ask_node_def Let_def dest!: send_to_sent split: prod.splits)
  have "request_round E now nodes (n + 1) ?s2 ?w = (st, s', w')"
    using Cons.prems(1) sent by (simp add: item gen t ot ask)
  note ih = Cons.IH [OF this Cons.prems(2)]
  have "asked E s' w' node" using ih s1 unfolding asked_def by (auto intro!: exI [of _ tid])
  then show ?case using ih s1 by (auto simp: item)
qed

lemma announce_round_sends:
  assumes "oc_closed (w_out w) = None" "announce_round E now port nodes fatal s w = (fatal', s', w')"
  shows "fatal' = fatal \<and> (\<exists>gen. s' = s\<lparr>lk_id_generator := gen\<rparr>) \<and> (\<exists>tids :: TransactionID list. length tids = length nodes \<and>
    oc_sent (w_out w') = oc_sent (w_out w) @ map (\<lambda>(tid, node).
      (AnnouncePeerRequest_encode (env_ben E) (trans_id_bytes tid) (lk_table_id s) (lk_target_id s)
         (the (lk_announce_tokens s (node_key node))) (Explicit port), nd_addr node)) (zip tids nodes))"
  using assms
proof (induction nodes arbitrary: fatal s w)
  case Nil
  then show ?case by (auto intro!: exI [of _ "lk_id_generator s"])
next
  case (Cons node nodes)
  obtain tid gen w1 where gen: "generate_id (lk_id_generator s) w = (tid, gen, w1)" by (rule prod_cases3)
  let ?msg = "AnnouncePeerRequest_encode (env_ben E) (trans_id_bytes tid) (lk_table_id s) (lk_target_id s)
    (the (lk_announce_tokens s (node_key node))) (Explicit port)"
  obtain sent w2 where send: "send_to ?msg (nd_addr node) w1 = (sent, w2)" by (rule prod.exhaust)
  have w2: "sent" "oc_closed (w_out w2) = None" "oc_sent (w_out w2) = oc_sent (w_out w) @ [(?msg, nd_addr node)]"
    using send Cons.prems(1) generate_id_frame [OF gen] by (auto simp: send_to_def out_send_def split: prod.splits)
  let ?w = "if fatal then w2 else mark_found now node w2"
  have r: "announce_round E now port nodes fatal (s\<lparr>lk_id_generator := gen\<rparr>) ?w = (fatal', s', w')"
    using Cons.prems(2) w2(1) by (simp add: gen send Let_def)
  have "oc_closed (w_out ?w) = None" using w2(2) by simp
  from Cons.IH [OF this r] obtain gen' and tids :: "TransactionID list" where ih: "fatal' = fatal" "s' = s\<lparr>lk_id_generator := gen'\<rparr>" "length tids = length nodes"
    "oc_sent (w_out w') = oc_sent (w_out ?w) @ map (\<lambda>(tid, node).
      (AnnouncePeerRequest_encode (env_ben E) (trans_id_bytes tid) (lk_table_id s) (lk_target_id s)
         (the (lk_announce_tokens s (node_key node))) (Explicit port), nd_addr node)) (zip tids nodes)"
    by auto
  have "oc_sent (w_out ?w) = oc_sent (w_out w) @ [(?msg, nd_addr node)]" using w2(3) by simp
  with ih show ?case by (intro conjI exI [of _ gen'] exI [of _ "tid # tids"]) simp_all
qed

text \<open>The nodes of a sorted list that have a property: the first of them are the closest.\<close>

lemma take_closest:
  assumes "nodes_ok target nodes" "x \<in> set (take k (filter p (map (\<lambda>(_, n, _). n) nodes)))"
    "y \<in> set (drop k (filter p (map (\<lambda>(_, n, _). n) nodes)))"
  shows "sha_bitxor target (nd_id x) \<le> sha_bitxor target (nd_id y)"
proof -
  let ?f = "\<lambda>n. sha_bitxor target (nd_id n)" and ?ns = "map (\<lambda>(_, n, _). n) nodes"
  have "map fst nodes = map ?f ?ns" using assms(1) by (auto simp: nodes_ok_def list_all_iff)
  then have "sorted (map ?f ?ns)" using assms(1) unfolding nodes_ok_def by metis
  then have "sorted (map ?f (filter p ?ns))" by (rule sorted_filter)
  then have "sorted (map ?f (take k (filter p ?ns)) @ map ?f (drop k (filter p ?ns)))" by (simp flip: map_append)
  then show ?thesis using assms(2,3) by (auto simp: sorted_append)
qed

lemma pick_closest:
  assumes "nodes \<noteq> []"
  obtains node slots where "pick_iterate_nodes now nodes target = (node, True) # slots" "node \<in> v4_node now ` set nodes"
    "\<forall>(j, b) \<in> set nodes. sha_bitxor target (nd_id node) \<le> sha_bitxor target j"
proof -
  have "hd (replicate ITERATIVE_PICK_NUM unused_slot) = unused_slot" "replicate ITERATIVE_PICK_NUM unused_slot \<noteq> []" "\<not> snd unused_slot"
    by (simp_all add: ITERATIVE_PICK_NUM_def unused_slot_def)
  then obtain node slots where "pick_iterate_nodes now nodes target = (node, True) # slots"
    "(node, True) = unused_slot \<or> node \<in> v4_node now ` set nodes"
    "\<forall>(j, b) \<in> set nodes. sha_bitxor target (nd_id node) \<le> sha_bitxor target j"
    using pick_first [OF assms, of "replicate ITERATIVE_PICK_NUM unused_slot" target undefined now]
    unfolding pick_iterate_nodes_def by auto
  then show ?thesis using that by (auto simp: unused_slot_def)
qed

lemma recv_nodes_elim:
  assumes "lk_active_lookups s tid = Some (d, t)" "\<not> lk_in_endgame s" "gp_info_type msg = Nodes n"
    "compact_nodes (CompactNodeInfo_into_iter n) = Ok infos"
  obtains s1 where "took_entry tid s s1" "lk_table_id s1 = lk_table_id s"
    "recv_response E now node tid msg s w = (case iterate_nodes E now infos d s1 of (opt, nd, s2) \<Rightarrow>
       case continue_search E now opt nd s2 (w\<lparr>w_loop := clear_timeout (env_loop E) t (w_loop w)\<rparr>) of
         (st, s', w') \<Rightarrow> (Ok (if st = Failed then Failed else current_lookup_status s'), s', w'))"
proof -
  define s0 where "s0 = s\<lparr>lk_active_lookups := (lk_active_lookups s)(tid := None)\<rparr>"
  define s1 where "s1 = (case gp_token msg of
     Some token \<Rightarrow> s0\<lparr>lk_announce_tokens := (lk_announce_tokens s0)(node_key node \<mapsto> token)\<rparr> | None \<Rightarrow> s0)"
  define s2 where "s2 = s1\<lparr>lk_recv_values := lk_recv_values s1 \<or> False\<rparr>"
  have parts: "response_parts (env_bytes_of E) (gp_info_type msg) = Ok (False, None, Some infos)"
    using assms(3,4) by simp
  have eg: "lk_in_endgame s0 = False" using assms(2) by (simp add: s0_def)
  show ?thesis
  proof (rule that [of s2])
    show "took_entry tid s s2" "lk_table_id s2 = lk_table_id s"
      by (auto simp: took_entry_def s2_def s1_def s0_def split: option.splits)
    show "recv_response E now node tid msg s w = (case iterate_nodes E now infos d s2 of (opt, nd, s2) \<Rightarrow>
       case continue_search E now opt nd s2 (w\<lparr>w_loop := clear_timeout (env_loop E) t (w_loop w)\<rparr>) of
         (st, s', w') \<Rightarrow> (Ok (if st = Failed then Failed else current_lookup_status s'), s', w'))"
      by (simp only: recv_response_def assms(1) option.case prod.case Let_def s0_def [symmetric] s1_def [symmetric] parts res.case
          s2_def [symmetric] eg if_False)
  qed
qed

section \<open>Failures\<close>

text \<open>An operation fails only where a timer cannot be set or the sending thread is gone.\<close>

definition no_failures :: "('l, 't, 'v) Env \<Rightarrow> 'l World \<Rightarrow> bool" where
  "no_failures E w \<longleftrightarrow> oc_closed (w_out w) = None \<and> (\<forall>task delay l. fst (timeout_ms (env_loop E) task delay l) \<noteq> None)"

lemma no_failures_frame:
  "no_failures E w \<Longrightarrow> generate_id g w = (tid, g', w') \<Longrightarrow> no_failures E w'"
  "no_failures E w \<Longrightarrow> set_timeout (env_loop E) task delay w = (ot, w') \<Longrightarrow> no_failures E w' \<and> ot \<noteq> None"
  "no_failures E w \<Longrightarrow> ask_node E tid entry node s w = (sent, s', w') \<Longrightarrow> no_failures E w' \<and> sent"
  "no_failures E w \<Longrightarrow> no_failures E (mark_found now node w)"
  "no_failures E w \<Longrightarrow> no_failures E (w\<lparr>w_loop := l\<rparr>)"
proof -
  show "no_failures E w \<Longrightarrow> generate_id g w = (tid, g', w') \<Longrightarrow> no_failures E w'"
    by (auto simp: no_failures_def generate_id_def split: prod.splits)
  assume w: "no_failures E w"
  obtain ot1 l where t: "timeout_ms (env_loop E) task delay (w_loop w) = (ot1, l)" by (rule prod.exhaust)
  have "fst (timeout_ms (env_loop E) task delay (w_loop w)) \<noteq> None" using w by (simp only: no_failures_def) blast
  moreover have "no_failures E (w\<lparr>w_loop := l\<rparr>)" using w by (simp add: no_failures_def)
  ultimately show "no_failures E w' \<and> ot \<noteq> None" if "set_timeout (env_loop E) task delay w = (ot, w')"
    using that t by (auto simp: set_timeout_def)
  show "no_failures E w' \<and> sent" if "ask_node E tid entry node s w = (sent, s', w')"
    using that w by (auto simp: no_failures_def ask_node_def send_to_def out_send_def Let_def)
qed (simp_all add: no_failures_def)

lemma request_round_no_failures:
  "no_failures E w \<Longrightarrow> request_round E now nodes n s w = (st, s', w') \<Longrightarrow> st \<noteq> Failed \<and> no_failures E w'"
proof (induction nodes arbitrary: n s w)
  case Nil
  then show ?case by (auto split: if_splits)
next
  case (Cons item nodes)
  obtain node d where item: "item = (node, d)" by (cases item)
  obtain tid gen w1 where gen: "generate_id (lk_id_generator s) w = (tid, gen, w1)" by (rule prod_cases3)
  obtain ot w2 where t: "set_timeout (env_loop E) (0, CheckLookupTimeout tid) LOOKUP_TIMEOUT_MS w1 = (ot, w2)" by (rule prod.exhaust)
  have w2: "no_failures E w2" "ot \<noteq> None"
    using no_failures_frame(2) [OF no_failures_frame(1) [OF Cons.prems(1) gen] t] by simp_all
  then obtain timeout where ot: "ot = Some timeout" by auto
  obtain sent s1 w3 where ask: "ask_node E tid (d, timeout) node (s\<lparr>lk_id_generator := gen\<rparr>) w2 = (sent, s1, w3)"
    by (rule prod_cases3)
  have w3: "no_failures E w3" "sent" using no_failures_frame(3) [OF w2(1) ask] by simp_all
  have "request_round E now nodes (n + 1) (s1\<lparr>lk_requested_nodes := insert (node_key node) (lk_requested_nodes s1)\<rparr>)
      (mark_found now node w3) = (st, s', w')"
    using Cons.prems(2) w3(2) by (simp add: item gen t ot ask)
  from Cons.IH [OF no_failures_frame(4) [OF w3(1)] this] show ?case .
qed

lemma endgame_round_no_failures:
  "no_failures E w \<Longrightarrow> endgame_round E now timeout nodes s w = (ok, nodes', s', w') \<Longrightarrow> ok \<and> no_failures E w'"
proof (induction nodes arbitrary: ok nodes' s s' w w')
  case (Cons item nodes)
  obtain d node req where item: "item = (d, node, req)" by (rule prod_cases3)
  show ?case
  proof (cases req)
    case True
    obtain ok1 n1 s1 w1 where r: "endgame_round E now timeout nodes s w = (ok1, n1, s1, w1)" by (rule prod_cases4)
    then have "ok = ok1 \<and> w' = w1" using Cons.prems(2) True by (simp add: item)
    then show ?thesis using Cons.IH [OF Cons.prems(1) r] by simp
  next
    case False
    obtain tid gen w1 where gen: "generate_id (lk_id_generator s) w = (tid, gen, w1)" by (rule prod_cases3)
    obtain sent s1 w2 where ask: "ask_node E tid (d, timeout) node (s\<lparr>lk_id_generator := gen\<rparr>) w1 = (sent, s1, w2)"
      by (rule prod_cases3)
    have w2: "no_failures E w2" "sent"
      using no_failures_frame(3) [OF no_failures_frame(1) [OF Cons.prems(1) gen] ask] by simp_all
    obtain ok1 n1 s2 w3 where r: "endgame_round E now timeout nodes s1 (mark_found now node w2) = (ok1, n1, s2, w3)"
      by (rule prod_cases4)
    have "ok = ok1 \<and> w' = w3" using Cons.prems(2) False w2(2) by (simp add: item gen ask r)
    then show ?thesis using Cons.IH [OF no_failures_frame(4) [OF w2(1)] r] by simp
  qed
qed simp

lemma check_endgame_no_failures:
  assumes "no_failures E w" "check_endgame E now s w = (st, s', w')"
  shows "st \<noteq> Failed \<and> no_failures E w'"
proof (cases "lk_active_lookups s = Map.empty")
  case True
  let ?s = "s\<lparr>lk_in_endgame := True\<rparr>"
  obtain tid gen w1 where gen: "generate_id (lk_id_generator s) w = (tid, gen, w1)" by (rule prod_cases3)
  obtain ot w2 where t: "set_timeout (env_loop E) (0, CheckLookupEndGame tid) ENDGAME_TIMEOUT_MS w1 = (ot, w2)" by (rule prod.exhaust)
  have w2: "no_failures E w2" "ot \<noteq> None"
    using no_failures_frame(2) [OF no_failures_frame(1) [OF assms(1) gen] t] by simp_all
  then obtain timeout where ot: "ot = Some timeout" by auto
  obtain k ns s2 w3 where r: "endgame_round E now timeout (lk_all_sorted_nodes s) (?s\<lparr>lk_id_generator := gen\<rparr>) w2 = (k, ns, s2, w3)"
    by (rule prod_cases4)
  show ?thesis
    using assms(2) True w2(1) endgame_round_no_failures [OF w2(1) r]
    by (auto simp: check_endgame_def start_endgame_round_def Let_def gen t ot r split: if_splits)
next
  case False
  then show ?thesis using assms by (simp add: check_endgame_def)
qed

lemma continue_search_no_failures:
  assumes "no_failures E w" "continue_search E now opt nd s w = (st, s', w')"
  shows "st \<noteq> Failed \<and> no_failures E w'"
proof (cases "lk_in_endgame s \<or> opt = None")
  case True
  then show ?thesis
    using assms check_endgame_no_failures [OF assms(1), of now s st s' w'] by (auto simp: continue_search_def split: if_splits)
next
  case False
  then obtain nodes where opt: "opt = Some nodes" by auto
  let ?ns = "map (\<lambda>(n, _). (n, nd)) (filter snd nodes)"
  obtain st1 s1 w1 where r: "request_round E now ?ns 0 s w = (st1, s1, w1)" by (rule prod_cases3)
  note rr = request_round_no_failures [OF assms(1) r]
  show ?thesis
    using assms(2) False opt r rr check_endgame_no_failures [of E w1 now s1 st s' w']
    by (simp add: continue_search_def start_request_round_def)
qed

lemma recv_nodes_no_failures:
  assumes "no_failures E w" "lk_active_lookups s tid = Some (d, t)" "\<not> lk_in_endgame s" "gp_info_type msg = Nodes n"
    "compact_nodes (CompactNodeInfo_into_iter n) = Ok infos"
  obtains st s' w' where "recv_response E now node tid msg s w = (Ok st, s', w')" "st \<noteq> Failed" "no_failures E w'"
proof -
  obtain s1 where s1: "recv_response E now node tid msg s w = (case iterate_nodes E now infos d s1 of (opt, nd, s2) \<Rightarrow>
       case continue_search E now opt nd s2 (w\<lparr>w_loop := clear_timeout (env_loop E) t (w_loop w)\<rparr>) of
         (st, s', w') \<Rightarrow> (Ok (if st = Failed then Failed else current_lookup_status s'), s', w'))"
    by (rule recv_nodes_elim [OF assms(2-5), where E = E and now = now and node = node and w = w]) blast
  obtain opt nd s2 where it: "iterate_nodes E now infos d s1 = (opt, nd, s2)" by (rule prod_cases3)
  obtain st s' w' where cs: "continue_search E now opt nd s2 (w\<lparr>w_loop := clear_timeout (env_loop E) t (w_loop w)\<rparr>) = (st, s', w')"
    by (rule prod_cases3)
  have "st \<noteq> Failed" "no_failures E w'"
    using continue_search_no_failures [OF no_failures_frame(5) [OF assms(1)] cs] by simp_all
  moreover have "recv_response E now node tid msg s w = (Ok (current_lookup_status s'), s', w')"
    using s1 it cs \<open>st \<noteq> Failed\<close> by simp
  moreover have "current_lookup_status s' \<noteq> Failed" by (simp add: current_lookup_status_def)
  ultimately show ?thesis using that by blast
qed

section \<open>A small lookup\<close>

text \<open>
  A loop of numbered timers, a linear search, and a table with one good node.
\<close>

definition demo_search :: "Distance list \<Rightarrow> Distance \<Rightarrow> nat + nat" where
  "demo_search xs x =
     (if x \<in> set xs then Inl (length (takeWhile (\<lambda>y. y \<noteq> x) xs)) else Inr (length (takeWhile (\<lambda>y. y < x) xs)))"

definition demo_env :: "(nat \<times> (nat \<rightharpoonup> ScheduledTask), nat, bytes) Env" where
  "demo_env = \<lparr>env_loop = demo_loop,
     env_ben = \<lparr>ben_of_bytes = (\<lambda>b. b), ben_of_int = (\<lambda>i. []), ben_of_map = (\<lambda>m. concat (map snd m)), ben_to_bytes = (\<lambda>b. b)\<rparr>,
     env_bytes_of = Some, env_search = demo_search\<rparr>"

definition demo_node :: Node where
  "demo_node = Node_as_good 0 (replicate 20 1) default_route_v4"

definition demo_world :: "(nat \<times> (nat \<rightharpoonup> ScheduledTask)) World" where
  "demo_world = \<lparr>w_table = \<lparr>buckets = [demo_node # replicate 7 placeholder], tbl_id = replicate 20 0\<rparr>,
     w_out = \<lparr>oc_sent = [], oc_closed = None\<rparr>, w_loop = (0, Map.empty), w_rnd = (\<lambda>_ _. 0), w_draws = 0\<rparr>"

lemma demo_timers: "timer_laws (env_loop demo_env) demo_pending"
  using demo_loop_timers by (simp add: demo_env_def)

lemma demo_search_laws: "search_laws (env_search demo_env)"
proof -
  have "case demo_search xs x of Inl i \<Rightarrow> i < length xs \<and> xs ! i = x
      | Inr i \<Rightarrow> i \<le> length xs \<and> (\<forall>y \<in> set (take i xs). y < x) \<and> (\<forall>y \<in> set (drop i xs). x < y)" if "sorted xs" for xs x
  proof (cases "x \<in> set xs")
    case True
    then have "takeWhile (\<lambda>y. y \<noteq> x) xs \<noteq> xs" by (metis set_takeWhileD)
    then have "length (takeWhile (\<lambda>y. y \<noteq> x) xs) < length xs"
      by (metis le_neq_implies_less length_takeWhile_le takeWhile_eq_take take_all order_refl)
    then show ?thesis using nth_length_takeWhile [of "\<lambda>y. y \<noteq> x" xs] True by (simp add: demo_search_def)
  next
    case False
    let ?k = "length (takeWhile (\<lambda>y. y < x) xs)"
    have d: "drop ?k xs = dropWhile (\<lambda>y. y < x) xs" by (simp add: dropWhile_eq_drop)
    have above: "x < y" if "y \<in> set (drop ?k xs)" for y
    proof -
      from that obtain z zs where zs: "drop ?k xs = z # zs" by (cases "drop ?k xs") auto
      then have "\<not> z < x" using d by (metis dropWhile_eq_Cons_conv)
      moreover have "z \<in> set xs" using zs by (metis in_set_dropD list.set_intros(1))
      ultimately have "x < z" using False by (metis linorder_less_linear)
      moreover have "sorted (z # zs)" using \<open>sorted xs\<close> zs by (metis sorted_wrt_drop)
      ultimately show ?thesis using that zs by (auto intro: less_le_trans)
    qed
    have "take ?k xs = takeWhile (\<lambda>y. y < x) xs" by (rule takeWhile_eq_take [symmetric])
    then have below: "\<forall>y \<in> set (take ?k xs). y < x" by (auto dest: set_takeWhileD)
    have "demo_search xs x = Inr ?k" using False by (simp add: demo_search_def)
    then show ?thesis using above below length_takeWhile_le by (simp only: sum.case) blast
  qed
  then show ?thesis by (simp add: search_laws_def demo_env_def)
qed

lemma demo_table_ok: "table_ok (w_table demo_world)"
proof -
  have lbc: "leading_bit_count (replicate 20 0) (replicate 20 1) = 7" by code_simp
  have bad: "last_response placeholder = None" and good: "last_response demo_node = Some 0"
    by (simp_all add: placeholder_def Node_as_bad_def demo_node_def Node_as_good_def Let_def)
  have "last_response ((demo_node # replicate 7 placeholder) ! i) = None" if "i < 8" "i \<noteq> 0" for i
    using that bad by (cases i) auto
  then have "last_response ((demo_node # replicate 7 placeholder) ! i) = None \<or> last_response ((demo_node # replicate 7 placeholder) ! j) = None"
    if "i < 8" "j < 8" "i \<noteq> j" for i j using that by metis
  then have "bucket_ok (demo_node # replicate 7 placeholder)"
    using good by (simp add: bucket_ok_def MAX_BUCKET_SIZE_def)
  then show ?thesis
    using bad lbc
    by (auto simp: table_ok_def demo_world_def sha_ok_def SHA_HASH_LEN_def addable_def home_def bucket_placement_def MAX_BUCKETS_def)
      (simp_all add: demo_node_def Node_as_good_def node_eq_def placeholder_def Node_as_bad_def NODE_ID_LEN_def SHA_HASH_LEN_def Let_def)
qed

lemma demo_closest: "closest_list 0 (closest_nodes target (w_table demo_world)) = [demo_node]"
proof -
  have "status 0 demo_node = Good" "status 0 placeholder = Bad" by code_simp+
  then have "filter (is_good_node 0) (table_nodes (w_table demo_world)) = [demo_node]"
    by (simp add: table_nodes_def demo_world_def is_good_node_def Let_def)
  then have "mset (closest_list 0 (closest_nodes target (w_table demo_world))) = {#demo_node#}"
    using closest_list_mset [OF demo_table_ok, of 0 target] by simp
  then show ?thesis by (metis mset_single_iff_right)
qed

definition demo_tid :: TransactionID where
  "demo_tid = TransactionID_new (push_bit 24 9 OR 1)"

definition demo_lookup :: "nat TableLookup" where
  "demo_lookup = \<lparr>lk_table_id = replicate 20 0, lk_target_id = replicate 20 2, lk_in_endgame = False, lk_recv_values = False,
     lk_id_generator = demo_gen\<lparr>mid_curr_index := 1\<rparr>, lk_will_announce = True,
     lk_active_lookups = [demo_tid \<mapsto> (replicate 20 3, 0)], lk_announce_tokens = Map.empty,
     lk_requested_nodes = {node_key demo_node}, lk_all_sorted_nodes = [(replicate 20 3, demo_node, True)]\<rparr>"

definition demo_world' :: "(nat \<times> (nat \<rightharpoonup> ScheduledTask)) World" where
  "demo_world' = mark_found 0 demo_node (demo_world\<lparr>w_draws := 1, w_loop := (1, [0 \<mapsto> CheckLookupTimeout demo_tid]),
     w_out := \<lparr>oc_sent = [(GetPeersRequest_encode (env_ben demo_env) (trans_id_bytes demo_tid) (replicate 20 0) (replicate 20 2),
       nd_addr demo_node)], oc_closed = None\<rparr>\<rparr>)"

lemma demo_new: "TableLookup_new demo_env 0 (replicate 20 0) (replicate 20 2) demo_gen True demo_world = (Some demo_lookup, demo_world')"
proof -
  have st: "status 0 demo_node = Good" and x: "sha_bitxor (replicate 20 2) (nd_id demo_node) = replicate 20 3"
    "sha_bitxor (nd_id demo_node) (replicate 20 2) = replicate 20 3" by code_simp+
  have gen: "generate_id demo_gen demo_world = (demo_tid, demo_gen\<lparr>mid_curr_index := Suc 0\<rparr>, demo_world\<lparr>w_draws := Suc 0\<rparr>)"
    by (simp add: generate_id_def MIDGenerator_generate.simps get_at_def demo_gen_def demo_tid_def demo_world_def)
  have t: "set_timeout (env_loop demo_env) (0, task) delay (demo_world\<lparr>w_draws := Suc 0\<rparr>) =
      (Some 0, demo_world\<lparr>w_draws := Suc 0, w_loop := (Suc 0, [0 \<mapsto> task])\<rparr>)" for task delay
    by (simp add: set_timeout_def demo_env_def demo_loop_def demo_world_def)
  have ins: "insert_sorted_node (env_search demo_env) (replicate 20 2) demo_node False [] = [(replicate 20 3, demo_node, False)]"
    by (simp add: insert_sorted_node_def x demo_env_def demo_search_def vec_insert_def)
  have pick: "pick_initial_nodes [(replicate 20 3, demo_node, False)] =
      ([(demo_node, True), unused_slot, unused_slot, unused_slot], [(replicate 20 3, demo_node, True)])"
    by (simp add: pick_initial_nodes_def INITIAL_PICK_NUM_def numeral_3_eq_3 numeral_2_eq_2)
  have u: "\<not> snd unused_slot" by (simp add: unused_slot_def)
  have take: "take MAX_BUCKET_SIZE [demo_node] = [demo_node]" by (simp add: MAX_BUCKET_SIZE_def)
  show ?thesis
    by (simp add: TableLookup_new_def demo_closest st take ins pick u start_request_round_def gen t ask_node_def x
        send_to_def out_send_def demo_lookup_def demo_world'_def Let_def)
      (simp add: demo_world_def)
qed

lemma demo_gen_ok: "gen_ok (MIDGenerator_action_id demo_gen) demo_gen"
  by (auto simp del: push_bit_numeral push_bit_of_1 simp: gen_ok_def demo_gen_def intro: exI [of _ "1 :: nat"])

lemma demo_run: "lookup_run demo_env demo_pending (MIDGenerator_action_id demo_gen) demo_lookup demo_world'"
  by (rule lookup_run.started [OF demo_gen_ok demo_new]) (simp add: demo_lookup_def)

lemma demo_no_failures: "no_failures demo_env demo_world'"
  by (simp add: no_failures_def demo_world'_def demo_env_def demo_loop_def case_prod_unfold)

text \<open>The node answers with a token and no nodes; the endgame starts.\<close>

definition demo_answered :: "nat TableLookup" where
  "demo_answered = demo_lookup\<lparr>lk_active_lookups := Map.empty, lk_announce_tokens := [node_key demo_node \<mapsto> [7]],
     lk_in_endgame := True, lk_id_generator := demo_gen\<lparr>mid_curr_index := 2\<rparr>\<rparr>"

lemma demo_answered_run:
  obtains w2 where "lookup_run demo_env demo_pending (MIDGenerator_action_id demo_gen) demo_answered w2" "oc_closed (w_out w2) = None"
proof -
  let ?msg = "\<lparr>gp_trans_id = [], gp_node_id = replicate 20 1, gp_token = Some [7], gp_info_type = Nodes []\<rparr> :: bytes GetPeersResponse"
  have infos: "compact_nodes (CompactNodeInfo_into_iter []) = Ok []" by code_simp
  have msg: "gp_info_type ?msg = Nodes []" by simp
  have act: "lk_active_lookups demo_lookup demo_tid = Some (replicate 20 3, 0)" "\<not> lk_in_endgame demo_lookup"
    by (simp_all add: demo_lookup_def)
  have gen: "generate_id (demo_gen\<lparr>mid_curr_index := Suc 0\<rparr>) w =
      (TransactionID_new (push_bit 24 9 OR 2), demo_gen\<lparr>mid_curr_index := Suc (Suc 0)\<rparr>, w\<lparr>w_draws := w_draws w + 1\<rparr>)" for w :: "'a World"
    by (simp add: generate_id_def MIDGenerator_generate.simps get_at_def demo_gen_def)
  have t: "\<exists>t l. timeout_ms (env_loop demo_env) task delay x = (Some t, l)" for task delay x
    by (cases x) (auto simp: demo_env_def demo_loop_def case_prod_unfold)
  obtain st s' w' where r: "recv_response demo_env 0 demo_node demo_tid ?msg demo_lookup demo_world' = (Ok st, s', w')"
    "st \<noteq> Failed" "no_failures demo_env w'"
    by (rule recv_nodes_no_failures [OF demo_no_failures act msg infos])
  have "s' = demo_answered"
    using r(1) infos t
    by (auto simp: recv_response_def demo_lookup_def iterate_nodes_def closer_def push_nodes_def continue_search_def
        check_endgame_def start_endgame_round_def gen set_timeout_def demo_answered_def numeral_2_eq_2 Let_def
        split: prod.splits option.splits)
  with lookup_run.answered [OF demo_run r(1,2)] r(3) show ?thesis using that by (auto simp: no_failures_def)
qed

section \<open>Properties\<close>

text \<open>C6. 
  Every search ends: there is no infinite sequence of answers and timeouts of requests, however many
  nodes the answers name. Answers that nobody asked for change nothing.
\<close>

theorem lookup_terminates:
  "\<not> (\<exists>f. lookup_ok (f 0) \<and> (\<forall>i. lookup_step E (f i) (f (Suc i))))"
proof
  assume "\<exists>f. lookup_ok (f 0) \<and> (\<forall>i. lookup_step E (f i) (f (Suc i)))"
  then obtain f where f: "lookup_ok (f 0)" "\<And>i. lookup_step E (f i) (f (Suc i))" by blast
  then have "lookup_ok (f i)" for i by (induction i) (use lookup_step_decreases in blast)+
  then have "(lookup_measure (f (Suc i)), lookup_measure (f i)) \<in> lookup_order" for i
    using lookup_step_decreases [OF f(2)] by blast
  then show False using wf_no_infinite_down_chainE [OF wf_lookup_order, of "\<lambda>i. lookup_measure (f i)"] by blast
qed

text \<open>C11. 
  A lookup that started with a request is never stuck: as long as it is searching, a timer of its
  own action is set, which ends the search in the endgame, and before it is the timeout of a
  request that is waited for.
\<close>

theorem lookup_never_stuck:
  assumes "timer_laws (env_loop E) pending" "lookup_run E pending a s w"
  shows "current_lookup_status s = Searching \<and>
    (\<exists>t tid. TransactionID_action_id tid = a \<and>
       (if lk_in_endgame s then pending (w_loop w) t = Some (CheckLookupEndGame tid)
        else lk_active_lookups s tid \<noteq> None \<and> pending (w_loop w) t = Some (CheckLookupTimeout tid)))"
proof (cases "lk_in_endgame s")
  case True
  then show ?thesis using run_alive [OF assms] by (auto simp: alive_def current_lookup_status_def)
next
  case False
  then have al: "timed pending a s w" "lk_active_lookups s \<noteq> Map.empty" using run_alive [OF assms] by (simp_all add: alive_def)
  then obtain tid d t where a: "lk_active_lookups s tid = Some (d, t)" by (metis ext option.exhaust surj_pair)
  then have "pending (w_loop w) t = Some (CheckLookupTimeout tid)" "TransactionID_action_id tid = a"
    using al(1) by (simp_all add: timed_def)
  then show ?thesis using a al(2) False by (auto simp: current_lookup_status_def)
qed

theorem lookup_never_stuck_witness:
  "\<exists>t tid. lk_active_lookups demo_lookup tid \<noteq> None \<and> demo_pending (w_loop demo_world') t = Some (CheckLookupTimeout tid)"
proof -
  have "\<not> lk_in_endgame demo_lookup" by (simp add: demo_lookup_def)
  then show ?thesis using lookup_never_stuck [OF demo_timers demo_run] by auto
qed

text \<open>C21. 
  An answer is used: when a node of an answer that was waited for is closer to the target than
  all before on that path, and was not asked yet, then the closest of the nodes that were not
  asked yet is sent a request.
\<close>

theorem lookup_asks_closest:
  assumes "lk_active_lookups s tid = Some (d, t)" "\<not> lk_in_endgame s"
    "gp_info_type msg = Nodes n" "compact_nodes (CompactNodeInfo_into_iter n) = Ok infos"
    "(i, addr) \<in> set infos" "(i, SockV4 addr) \<notin> lk_requested_nodes s" "sha_bitxor (lk_target_id s) i < d"
    "recv_response E now node tid msg s w = (Ok st, s', w')" "st \<noteq> Failed"
  shows "\<exists>info \<in> set infos. node_key (v4_node now info) \<notin> lk_requested_nodes s \<and> asked E s' w' (v4_node now info) \<and>
    (\<forall>(j, b) \<in> set infos. (j, SockV4 b) \<notin> lk_requested_nodes s \<longrightarrow>
       sha_bitxor (lk_target_id s) (fst info) \<le> sha_bitxor (lk_target_id s) j)"
proof -
  obtain s1 where s1: "took_entry tid s s1" "lk_table_id s1 = lk_table_id s"
    "recv_response E now node tid msg s w = (case iterate_nodes E now infos d s1 of (opt, nd, s2) \<Rightarrow>
       case continue_search E now opt nd s2 (w\<lparr>w_loop := clear_timeout (env_loop E) t (w_loop w)\<rparr>) of
         (st, s', w') \<Rightarrow> (Ok (if st = Failed then Failed else current_lookup_status s'), s', w'))"
    by (rule recv_nodes_elim [OF assms(1-4)])
  define unasked where "unasked = filter (\<lambda>info. node_key (v4_node now info) \<notin> lk_requested_nodes s1) infos"
  have key: "node_key (v4_node now (j, b)) = (j, SockV4 b)" for j b
    by (simp add: node_key_def v4_node_def Node_as_questionable_def Let_def)
  have tgt: "lk_target_id s1 = lk_target_id s" "lk_requested_nodes s1 = lk_requested_nodes s" "\<not> lk_in_endgame s1"
    using s1(1) assms(2) by (simp_all add: took_entry_def)
  have un: "(i, addr) \<in> set unasked" using assms(5,6) by (simp add: unasked_def key tgt)
  then have "closer (lk_target_id s1) unasked d < d"
    using closer_min [OF un] assms(7) tgt(1) by (metis le_less_trans)
  then obtain s2 nd where it: "iterate_nodes E now infos d s1 = (Some (pick_iterate_nodes now unasked (lk_target_id s1)), nd, s2)"
    "lk_in_endgame s2 = lk_in_endgame s1" "lk_target_id s2 = lk_target_id s1" "lk_table_id s2 = lk_table_id s1"
    by (simp add: iterate_nodes_def Let_def unasked_def)
  have ne: "unasked \<noteq> []" using un by auto
  obtain first_node slots where pick: "pick_iterate_nodes now unasked (lk_target_id s1) = (first_node, True) # slots"
    "first_node \<in> v4_node now ` set unasked"
    "\<forall>(j, b) \<in> set unasked. sha_bitxor (lk_target_id s1) (nd_id first_node) \<le> sha_bitxor (lk_target_id s1) j"
    by (rule pick_closest [OF ne])
  let ?ns = "map (\<lambda>(n, _). (n, nd)) (filter snd (pick_iterate_nodes now unasked (lk_target_id s1)))"
  let ?w = "w\<lparr>w_loop := clear_timeout (env_loop E) t (w_loop w)\<rparr>"
  obtain st1 s3 w3 where r: "request_round E now ?ns 0 s2 ?w = (st1, s3, w3)" by (rule prod_cases3)
  have ok: "st1 \<noteq> Failed"
    using assms(8,9) it tgt(3) r by (auto simp: s1(3) continue_search_def start_request_round_def)
  note asks = request_round_asks [OF r ok]
  have "?ns \<noteq> []" "first_node \<in> fst ` set ?ns" using pick(1) by auto
  with asks have as: "asked E s3 w3 first_node" "lk_active_lookups s3 \<noteq> Map.empty" by blast+
  have "s' = s3 \<and> w' = w3"
    using as(2) assms(8) it tgt(3) r ok by (simp add: s1(3) continue_search_def start_request_round_def check_endgame_def)
  moreover obtain info where info: "info \<in> set unasked" "first_node = v4_node now info" using pick(2) by auto
  moreover have "nd_id first_node = fst info" using info(2) by (cases info) (simp add: v4_node_def Node_as_questionable_def Let_def)
  ultimately show ?thesis
    using as(1) pick(3) tgt by (intro bexI [of _ info]) (auto simp: unasked_def key)
qed

theorem lookup_asks_closest_witness:
  "\<exists>st s' w'. recv_response demo_env 0 demo_node demo_tid
       \<lparr>gp_trans_id = [], gp_node_id = replicate 20 1, gp_token = Some [7], gp_info_type = Nodes (replicate 20 2 @ [1, 2, 3, 4, 0, 80])\<rparr> demo_lookup demo_world' = (Ok st, s', w') \<and>
     asked demo_env s' w' (v4_node 0 (replicate 20 2, \<lparr>v4_ip = Ipv4Addr 1 2 3 4, v4_port = 80\<rparr>))"
proof -
  let ?msg = "\<lparr>gp_trans_id = [], gp_node_id = replicate 20 1, gp_token = Some [7], gp_info_type = Nodes (replicate 20 2 @ [1, 2, 3, 4, 0, 80])\<rparr> :: bytes GetPeersResponse"
  let ?sock = "\<lparr>v4_ip = Ipv4Addr 1 2 3 4, v4_port = 80\<rparr>"
  have msg: "gp_info_type ?msg = Nodes (replicate 20 2 @ [1, 2, 3, 4, 0, 80])" by simp
  have infos: "compact_nodes (CompactNodeInfo_into_iter (replicate 20 2 @ [1, 2, 3, 4, 0, 80])) = Ok [(replicate 20 2, ?sock)]"
    by code_simp
  have act: "lk_active_lookups demo_lookup demo_tid = Some (replicate 20 3, 0)" "\<not> lk_in_endgame demo_lookup"
    "lk_target_id demo_lookup = replicate 20 2" "lk_requested_nodes demo_lookup = {node_key demo_node}"
    by (simp_all add: demo_lookup_def)
  have less: "sha_bitxor (replicate 20 2) (replicate 20 2) < (replicate 20 3 :: ShaHash)" by code_simp
  have new: "(replicate 20 2, SockV4 ?sock) \<notin> lk_requested_nodes demo_lookup"
    by (simp add: act(4) node_key_def demo_node_def Node_as_good_def)
  obtain st s' w' where r: "recv_response demo_env 0 demo_node demo_tid ?msg demo_lookup demo_world' = (Ok st, s', w')" "st \<noteq> Failed"
    by (rule recv_nodes_no_failures [OF demo_no_failures act(1,2) msg infos])
  from lookup_asks_closest [OF act(1,2) msg infos _ new _ r] less act(3)
  have "asked demo_env s' w' (v4_node 0 (replicate 20 2, ?sock))" by simp
  with r(1) show ?thesis by blast
qed



text \<open>C39. 
  A lookup for which the routing table has no good node is kept as one that is completed, without a
  request and without a timer, so that nothing ever ends it.
\<close>

theorem lookup_without_nodes:
  assumes "table_ok (w_table w)" "\<forall>n \<in> set (table_nodes (w_table w)). status now n \<noteq> Good"
  shows "\<exists>s. TableLookup_new E now table_id target_id gen will_announce w = (Some s, w) \<and>
    current_lookup_status s = Completed \<and> lk_active_lookups s = Map.empty \<and> \<not> lk_in_endgame s"
proof -
  have "set (closest_list now (closest_nodes target_id (w_table w))) \<subseteq> set (table_nodes (w_table w))"
    using closest_list_mset [OF assms(1), of now target_id] by (metis filter_is_subset set_mset_mset)
  then have "filter (\<lambda>n. status now n = Good) (closest_list now (closest_nodes target_id (w_table w))) = []"
    using assms(2) by (auto simp: filter_empty_conv)
  then show ?thesis
    by (simp add: TableLookup_new_def pick_initial_nodes_def unused_slot_def start_request_round_def
        current_lookup_status_def Let_def)
qed

theorem lookup_without_nodes_witness:
  "\<exists>s. TableLookup_new demo_env 0 (replicate 20 0) (replicate 20 2) demo_gen True
      (demo_world\<lparr>w_table := RoutingTable_new (replicate 20 0)\<rparr>) = (Some s, demo_world\<lparr>w_table := RoutingTable_new (replicate 20 0)\<rparr>) \<and>
    current_lookup_status s = Completed"
proof -
  let ?w = "demo_world\<lparr>w_table := RoutingTable_new (replicate 20 0)\<rparr>"
  have "table_ok (w_table ?w)" by (simp add: table_ok_new sha_ok_def SHA_HASH_LEN_def)
  moreover have "status 0 placeholder = Bad" by code_simp
  then have "\<forall>n \<in> set (table_nodes (w_table ?w)). status 0 n \<noteq> Good"
    by (auto simp: table_nodes_def RoutingTable_new_def Bucket_new_def)
  ultimately show ?thesis
    using lookup_without_nodes [of ?w 0 demo_env "replicate 20 0" "replicate 20 2" demo_gen True] by blast
qed

end
