(* ===== verification/Spec2Isabelle.thy ===== *)
theory Spec2Isabelle
  imports Bencode_Props Trans_Ids Contiguous Split_Sender Dht_Closest Dht_Token Dht_Storage
    Dht_Transaction Dht_Compact Dht_Security Metainfo_Builder Disk_Manager Dht_Lookup_Props
begin

text \<open>
  A verification of the BitTorrent library bip-rs, following the crates under \<open>src/\<close>.
\<close>

end
